(* ===== verification/Prelude.thy ===== *)
theory Prelude
  imports Main "HOL-Library.Word" "HOL-Library.Monad_Syntax"
begin

text \<open>
  Shared vocabulary of the development: the machine types of the C++ code (bytes, 16-bit and
  32-bit unsigned integers, byte buffers, strings as sequences of bytes), the exceptions a
  function may throw, the result monad of functions that may throw, and the generic lemmas on
  words, lists and options that the components share.
\<close>

named_theorems wire_simps "equations that compute with encoders and decoders"
named_theorems codec_laws "round-trip laws of the field codecs"
named_theorems result_simps "case analysis of throwing computations"

section \<open>Machine types\<close>

type_synonym byte = "8 word"
type_synonym bytes = "byte list"
type_synonym u16 = "16 word"
type_synonym u32 = "32 word"

text \<open>
  A \<open>std::string\<close> is a sequence of \<open>char\<close>, and \<open>std::as_bytes\<close> and the
  \<open>reinterpret_cast\<close> of the sources reinterpret each \<open>char\<close> as one \<open>std::byte\<close>.
\<close>

definition byte_of_char :: "char \<Rightarrow> byte" where
  "byte_of_char c = word_of_nat (of_char c)"

definition char_of_byte :: "byte \<Rightarrow> char" where
  "char_of_byte b = char_of (unat b)"

definition bytes_of :: "string \<Rightarrow> bytes" where
  "bytes_of s = map byte_of_char s"

definition string_of :: "bytes \<Rightarrow> string" where
  "string_of bs = map char_of_byte bs"

lemma of_char_less_256: "(of_char c :: nat) < 256"
  by (metis char_of_mod_256 mod_less_divisor of_char_mod_256 zero_less_numeral)

lemma unat_byte_less_256: "unat (b :: byte) < 256"
  using unsigned_less [of b] by simp

lemma char_of_byte_of_char [simp]: "char_of_byte (byte_of_char c) = c"
  using of_char_less_256 [of c]
  by (simp add: char_of_byte_def byte_of_char_def unat_of_nat)

lemma byte_of_char_of_byte [simp]: "byte_of_char (char_of_byte b) = b"
  using unat_byte_less_256 [of b]
  by (simp add: char_of_byte_def byte_of_char_def)

lemma string_of_bytes_of [simp]: "string_of (bytes_of s) = s"
  by (simp add: string_of_def bytes_of_def comp_def)

lemma bytes_of_string_of [simp]: "bytes_of (string_of bs) = bs"
  by (simp add: string_of_def bytes_of_def comp_def)

lemma length_bytes_of [simp]: "length (bytes_of s) = length s"
  by (simp add: bytes_of_def)

lemma length_string_of [simp]: "length (string_of bs) = length bs"
  by (simp add: string_of_def)

lemma bytes_of_inject [simp]: "bytes_of s = bytes_of t \<longleftrightarrow> s = t"
  by (metis string_of_bytes_of)

lemma bytes_of_append [simp]: "bytes_of (s @ t) = bytes_of s @ bytes_of t"
  by (simp add: bytes_of_def)

lemma bytes_of_Nil [simp]: "bytes_of [] = []"
  by (simp add: bytes_of_def)

lemma string_of_Nil [simp]: "string_of [] = []"
  by (simp add: string_of_def)

text \<open>The value of a digit character in bases up to 16, as \<open>strtol\<close> and OpenSSL read it.\<close>

definition digit_value :: "char \<Rightarrow> nat option" where
  "digit_value c =
     (let n = of_char c :: nat in
      if 48 \<le> n \<and> n \<le> 57 then Some (n - 48)
      else if 97 \<le> n \<and> n \<le> 102 then Some (n - 87)
      else if 65 \<le> n \<and> n \<le> 70 then Some (n - 55)
      else None)"

lemma digit_value_less: "digit_value c = Some d \<Longrightarrow> d < 16"
  by (auto simp: digit_value_def Let_def split: if_splits)

section \<open>Widths\<close>

text \<open>
  The casts \<open>static_cast<std::uint16_t>(n)\<close> and \<open>static_cast<std::uint32_t>(n)\<close> keep
  \<open>n\<close> modulo the width; they lose nothing exactly when \<open>n\<close> fits.
\<close>

lemma unat_u16_of_nat [simp]: "n < 65536 \<Longrightarrow> unat (word_of_nat n :: u16) = n"
  by (simp add: unat_of_nat)

lemma unat_u32_of_nat [simp]: "n < 4294967296 \<Longrightarrow> unat (word_of_nat n :: u32) = n"
  by (simp add: unat_of_nat)

lemma unat_u16_less [simp]: "unat (n :: u16) < 65536"
  using unsigned_less [of n] by simp

lemma unat_u32_less [simp]: "unat (n :: u32) < 4294967296"
  using unsigned_less [of n] by simp

section \<open>Exceptions and throwing computations\<close>

text \<open>
  The exceptions the sources throw or let escape. \<open>Runtime_Error\<close> is
  \<open>std::runtime_error\<close>; the two next are thrown by \<open>std::stoi\<close>. \<open>Undefined\<close> marks a
  step without a defined effect (an empty \<open>std::optional\<close> dereferenced), so that its absence
  can be stated.
\<close>

datatype exn = Runtime_Error string | Invalid_Argument | Out_Of_Range | Undefined

type_synonym 'a result = "exn + 'a"

text \<open>Sequencing of throwing computations: the first exception ends the computation.\<close>

definition bind_result :: "'a result \<Rightarrow> ('a \<Rightarrow> 'b result) \<Rightarrow> 'b result" where
  "bind_result r f = (case r of Inl ex \<Rightarrow> Inl ex | Inr x \<Rightarrow> f x)"

lemma bind_result_Inl [simp, result_simps]: "bind_result (Inl ex) f = Inl ex"
  by (simp add: bind_result_def)

lemma bind_result_Inr [simp, result_simps]: "bind_result (Inr x) f = f x"
  by (simp add: bind_result_def)

lemma bind_result_eq_Inr [result_simps]:
  "bind_result r f = Inr y \<longleftrightarrow> (\<exists>x. r = Inr x \<and> f x = Inr y)"
  by (cases r) auto

lemma bind_result_eq_Inl [result_simps]:
  "bind_result r f = Inl ex \<longleftrightarrow> r = Inl ex \<or> (\<exists>x. r = Inr x \<and> f x = Inl ex)"
  by (cases r) auto

text \<open>Whether a computation returns normally.\<close>

definition returns :: "'a result \<Rightarrow> bool" where
  "returns r = (case r of Inl _ \<Rightarrow> False | Inr _ \<Rightarrow> True)"

lemma returns_simps [simp]: "returns (Inr x)" "\<not> returns (Inl ex)"
  by (simp_all add: returns_def)

lemma returns_iff: "returns r \<longleftrightarrow> (\<exists>x. r = Inr x)"
  by (cases r) auto

text \<open>Computations all of whose steps have a defined effect.\<close>

definition defined :: "'a result \<Rightarrow> bool" where
  "defined r \<longleftrightarrow> r \<noteq> Inl Undefined"

lemma defined_simps [simp]: "defined (Inr x)" "defined (Inl (Runtime_Error m))"
  by (simp_all add: defined_def)

lemma defined_bind [intro]: "defined r \<Longrightarrow> (\<And>x. defined (f x)) \<Longrightarrow> defined (bind_result r f)"
  by (cases r) (auto simp: defined_def)

section \<open>Lists\<close>

lemma take_length_eq_append: "take (length xs) ys = xs \<longleftrightarrow> (\<exists>zs. ys = xs @ zs)"
  by (metis append_eq_conv_conj append_take_drop_id)

lemma length_two_cases: "length xs = 2 \<Longrightarrow> \<exists>a b. xs = [a, b]"
  by (auto simp: numeral_2_eq_2 length_Suc_conv)

lemma length_four_cases: "length xs = 4 \<Longrightarrow> \<exists>a b c d. xs = [a, b, c, d]"
  by (auto simp: numeral_eq_Suc length_Suc_conv)

end
