(* ===== verification/Byte_IO.thy ===== *)
theory Byte_IO
  imports Prelude
begin

text \<open>
  The bounded binary serialisation of \<open>include/net/byte_io.hpp\<close> (\<open>ByteWriter\<close> and
  \<open>ByteReader\<close>) and the framing helpers of \<open>include/net/framing.hpp\<close>. A writer is the
  buffer written so far, a reader the bytes not yet read. The locale \<open>prefix_codec\<close> is the
  contract of one field on the wire: its reader accepts exactly what its writer produces, and
  leaves the rest of the buffer.
\<close>

unbundle bit_operations_syntax

section \<open>Objects in memory\<close>

text \<open>
  \<open>std::memcpy\<close> copies the object representation of an integer, whose byte order is
  that of the host (\<open>std::endian::native\<close>), a parameter of every operation below.
\<close>

datatype endian = Little_Endian | Big_Endian

definition mem_of_u16 :: "endian \<Rightarrow> u16 \<Rightarrow> bytes" where
  "mem_of_u16 e v =
     (let le = [ucast v, ucast (drop_bit 8 v)]
      in case e of Little_Endian \<Rightarrow> le | Big_Endian \<Rightarrow> rev le)"

definition mem_of_u32 :: "endian \<Rightarrow> u32 \<Rightarrow> bytes" where
  "mem_of_u32 e v =
     (let le = [ucast v, ucast (drop_bit 8 v), ucast (drop_bit 16 v), ucast (drop_bit 24 v)]
      in case e of Little_Endian \<Rightarrow> le | Big_Endian \<Rightarrow> rev le)"

definition u16_of_le :: "bytes \<Rightarrow> u16" where
  "u16_of_le bs = ucast (bs ! 0) OR push_bit 8 (ucast (bs ! 1))"

definition u32_of_le :: "bytes \<Rightarrow> u32" where
  "u32_of_le bs =
     ucast (bs ! 0) OR push_bit 8 (ucast (bs ! 1)) OR push_bit 16 (ucast (bs ! 2))
       OR push_bit 24 (ucast (bs ! 3))"

definition u16_of_mem :: "endian \<Rightarrow> bytes \<Rightarrow> u16" where
  "u16_of_mem e bs =
     (case e of Little_Endian \<Rightarrow> u16_of_le bs | Big_Endian \<Rightarrow> u16_of_le (rev bs))"

definition u32_of_mem :: "endian \<Rightarrow> bytes \<Rightarrow> u32" where
  "u32_of_mem e bs =
     (case e of Little_Endian \<Rightarrow> u32_of_le bs | Big_Endian \<Rightarrow> u32_of_le (rev bs))"

lemma length_mem_of_u16 [simp]: "length (mem_of_u16 e v) = 2"
  by (simp add: mem_of_u16_def Let_def split: endian.split)

lemma length_mem_of_u32 [simp]: "length (mem_of_u32 e v) = 4"
  by (simp add: mem_of_u32_def Let_def split: endian.split)

lemma u16_of_mem_mem_of_u16 [simp]: "u16_of_mem e (mem_of_u16 e v) = v"
  by (cases e; rule bit_word_eqI)
    (auto simp: u16_of_mem_def mem_of_u16_def u16_of_le_def Let_def bit_or_iff bit_push_bit_iff
      bit_ucast_iff bit_drop_bit_eq)

lemma top_byte_index: "\<not> n - 16 < 8 \<Longrightarrow> 24 + (n - 24) = (n :: nat)"
  by simp

lemma u32_of_mem_mem_of_u32 [simp]: "u32_of_mem e (mem_of_u32 e v) = v"
  by (cases e; rule bit_word_eqI)
    (auto simp: u32_of_mem_def mem_of_u32_def u32_of_le_def Let_def bit_or_iff bit_push_bit_iff
      bit_ucast_iff bit_drop_bit_eq, (rule ccontr, simp add: top_byte_index)+)

lemma mem_of_u16_u16_of_mem: "length bs = 2 \<Longrightarrow> mem_of_u16 e (u16_of_mem e bs) = bs"
  by (cases e; auto dest!: length_two_cases
      simp: u16_of_mem_def mem_of_u16_def u16_of_le_def Let_def intro!: bit_word_eqI;
      auto simp: bit_or_iff bit_push_bit_iff bit_ucast_iff bit_drop_bit_eq dest: bit_imp_le_length)

lemma mem_of_u32_u32_of_mem: "length bs = 4 \<Longrightarrow> mem_of_u32 e (u32_of_mem e bs) = bs"
  by (cases e; auto dest!: length_four_cases
      simp: u32_of_mem_def mem_of_u32_def u32_of_le_def Let_def intro!: bit_word_eqI;
      auto simp: bit_or_iff bit_push_bit_iff bit_ucast_iff bit_drop_bit_eq dest: bit_imp_le_length)

section \<open>ByteWriter\<close>

type_synonym byte_writer = bytes

definition writer_bytes :: "bytes \<Rightarrow> byte_writer \<Rightarrow> byte_writer" where
  "writer_bytes b w = w @ b"

definition writer_u16 :: "endian \<Rightarrow> u16 \<Rightarrow> byte_writer \<Rightarrow> byte_writer" where
  "writer_u16 e v w = w @ mem_of_u16 e v"

definition writer_u32 :: "endian \<Rightarrow> u32 \<Rightarrow> byte_writer \<Rightarrow> byte_writer" where
  "writer_u32 e v w = w @ mem_of_u32 e v"

definition writer_str :: "string \<Rightarrow> byte_writer \<Rightarrow> byte_writer" where
  "writer_str s w = writer_bytes (bytes_of s) w"

text \<open>A sequence of writes on a fresh writer, followed by \<open>take()\<close> or \<open>view()\<close>.\<close>

definition write_all :: "(byte_writer \<Rightarrow> byte_writer) list \<Rightarrow> bytes" where
  "write_all ops = fold (\<lambda>f w. f w) ops []"

lemmas writer_simps [wire_simps] =
  writer_bytes_def writer_u16_def writer_u32_def writer_str_def write_all_def

section \<open>ByteReader\<close>

text \<open>
  A read returns the value and the reader after it, or nothing where fewer bytes remain than
  the read asks for; then the reader is as it was (the callers all give up).
\<close>

type_synonym byte_reader = bytes

definition reader_remaining :: "byte_reader \<Rightarrow> nat" where
  "reader_remaining r = length r"

definition reader_u16 :: "endian \<Rightarrow> byte_reader \<Rightarrow> (u16 \<times> byte_reader) option" where
  "reader_u16 e r =
     (if 2 > reader_remaining r then None else Some (u16_of_mem e (take 2 r), drop 2 r))"

definition reader_u32 :: "endian \<Rightarrow> byte_reader \<Rightarrow> (u32 \<times> byte_reader) option" where
  "reader_u32 e r =
     (if 4 > reader_remaining r then None else Some (u32_of_mem e (take 4 r), drop 4 r))"

definition reader_bytes :: "nat \<Rightarrow> byte_reader \<Rightarrow> (bytes \<times> byte_reader) option" where
  "reader_bytes n r =
     (if n > reader_remaining r then None else Some (take n r, drop n r))"

definition reader_str :: "nat \<Rightarrow> byte_reader \<Rightarrow> (string \<times> byte_reader) option" where
  "reader_str n r =
     do { (b, r) \<leftarrow> reader_bytes n r;
          Some (string_of b, r) }"

text \<open>
  The loop \<open>for (i = 0; i < count; ++i)\<close> of the list decoders: \<open>n\<close> elements read one
  after the other, giving up at the first that is cut short.
\<close>

fun reader_many :: "(byte_reader \<Rightarrow> ('a \<times> byte_reader) option) \<Rightarrow> nat \<Rightarrow> byte_reader
    \<Rightarrow> ('a list \<times> byte_reader) option" where
  "reader_many rd 0 r = Some ([], r)"
| "reader_many rd (Suc n) r =
     do { (x, r) \<leftarrow> rd r;
          (xs, r) \<leftarrow> reader_many rd n r;
          Some (x # xs, r) }"

section \<open>The contract of a field on the wire\<close>

text \<open>
  A field is an encoder, a reader and the predicate of the values that fit. The one law says
  that the reader returns exactly what was written, leaves what follows, and accepts nothing
  else: decoding is the partial inverse of encoding, in both directions.
\<close>

locale prefix_codec =
  fixes enc :: "'a \<Rightarrow> bytes"
    and dec :: "byte_reader \<Rightarrow> ('a \<times> byte_reader) option"
    and ok :: "'a \<Rightarrow> bool"
  assumes dec_iff: "dec bs = Some (x, r) \<longleftrightarrow> ok x \<and> bs = enc x @ r"
begin

lemma dec_enc: "ok x \<Longrightarrow> dec (enc x @ r) = Some (x, r)"
  by (simp add: dec_iff)

lemma enc_prefix_free:
  "ok x \<Longrightarrow> ok y \<Longrightarrow> enc x @ r = enc y @ r' \<Longrightarrow> x = y \<and> r = r'"
  by (metis dec_enc option.inject prod.inject)

lemma many_iff:
  "reader_many dec n bs = Some (xs, r) \<longleftrightarrow>
     length xs = n \<and> (\<forall>x \<in> set xs. ok x) \<and> bs = concat (map enc xs) @ r"
proof (induction n arbitrary: bs xs)
  case 0
  then show ?case by auto
next
  case (Suc n)
  show ?case
    by (cases xs) (auto simp: bind_eq_Some_conv dec_iff Suc.IH)
qed

lemma many_enc:
  "\<forall>x \<in> set xs. ok x \<Longrightarrow> reader_many dec (length xs) (concat (map enc xs) @ r) = Some (xs, r)"
  by (simp add: many_iff)

end

text \<open>The fields of \<open>byte_io.hpp\<close>: integers, and blocks of a given length.\<close>

interpretation u16: prefix_codec "mem_of_u16 e" "reader_u16 e" "\<lambda>_. True" for e
proof
  fix bs x r
  show "reader_u16 e bs = Some (x, r) \<longleftrightarrow> True \<and> bs = mem_of_u16 e x @ r"
    using mem_of_u16_u16_of_mem [of "take 2 bs" e]
    by (auto simp: reader_u16_def reader_remaining_def split: if_splits)
qed

interpretation u32: prefix_codec "mem_of_u32 e" "reader_u32 e" "\<lambda>_. True" for e
proof
  fix bs x r
  show "reader_u32 e bs = Some (x, r) \<longleftrightarrow> True \<and> bs = mem_of_u32 e x @ r"
    using mem_of_u32_u32_of_mem [of "take 4 bs" e]
    by (auto simp: reader_u32_def reader_remaining_def split: if_splits)
qed

interpretation block: prefix_codec "\<lambda>b. b" "reader_bytes n" "\<lambda>b. length b = n" for n
  by unfold_locales (auto simp: reader_bytes_def reader_remaining_def split: if_splits)

interpretation chars: prefix_codec bytes_of "reader_str n" "\<lambda>s. length s = n" for n
  by unfold_locales
    (auto simp: reader_str_def bind_eq_Some_conv block.dec_iff
      intro: exI [of _ "bytes_of s" for s])

text \<open>
  The length-prefixed fields that every message is made of: \<open>[u16 n][n bytes]\<close> for a
  string or a short block, \<open>[u32 n][n bytes]\<close> for a value. The reader below is the pair of
  reads \<open>auto n = r.u16(); ... auto s = r.str(*n);\<close> of the sources.
\<close>

definition reader_str16 :: "endian \<Rightarrow> byte_reader \<Rightarrow> (string \<times> byte_reader) option" where
  "reader_str16 e r =
     do { (n, r) \<leftarrow> reader_u16 e r;
          reader_str (unat n) r }"

definition reader_bytes16 :: "endian \<Rightarrow> byte_reader \<Rightarrow> (bytes \<times> byte_reader) option" where
  "reader_bytes16 e r =
     do { (n, r) \<leftarrow> reader_u16 e r;
          reader_bytes (unat n) r }"

definition reader_bytes32 :: "endian \<Rightarrow> byte_reader \<Rightarrow> (bytes \<times> byte_reader) option" where
  "reader_bytes32 e r =
     do { (n, r) \<leftarrow> reader_u32 e r;
          reader_bytes (unat n) r }"

definition enc_str16 :: "endian \<Rightarrow> string \<Rightarrow> bytes" where
  "enc_str16 e s = mem_of_u16 e (word_of_nat (length s)) @ bytes_of s"

definition enc_bytes16 :: "endian \<Rightarrow> bytes \<Rightarrow> bytes" where
  "enc_bytes16 e b = mem_of_u16 e (word_of_nat (length b)) @ b"

definition enc_bytes32 :: "endian \<Rightarrow> bytes \<Rightarrow> bytes" where
  "enc_bytes32 e b = mem_of_u32 e (word_of_nat (length b)) @ b"

interpretation str16: prefix_codec "enc_str16 e" "reader_str16 e" "\<lambda>s. length s < 65536" for e
  by unfold_locales
    (auto simp: reader_str16_def enc_str16_def bind_eq_Some_conv u16.dec_iff chars.dec_iff)

interpretation bytes16: prefix_codec "enc_bytes16 e" "reader_bytes16 e" "\<lambda>b. length b < 65536"
  for e
  by unfold_locales
    (auto simp: reader_bytes16_def enc_bytes16_def bind_eq_Some_conv u16.dec_iff block.dec_iff)

interpretation bytes32: prefix_codec "enc_bytes32 e" "reader_bytes32 e"
    "\<lambda>b. length b < 4294967296" for e
  by unfold_locales
    (auto simp: reader_bytes32_def enc_bytes32_def bind_eq_Some_conv u32.dec_iff block.dec_iff)

lemmas field_laws [codec_laws] =
  u16.dec_iff u32.dec_iff block.dec_iff chars.dec_iff str16.dec_iff bytes16.dec_iff
  bytes32.dec_iff

lemma reader_simps [simp]:
  "reader_u16 e (mem_of_u16 e v @ r) = Some (v, r)"
  "reader_u16 e (mem_of_u16 e v) = Some (v, [])"
  "reader_u32 e (mem_of_u32 e w @ r) = Some (w, r)"
  "reader_u32 e (mem_of_u32 e w) = Some (w, [])"
  "length s < 65536 \<Longrightarrow> reader_str16 e (enc_str16 e s @ r) = Some (s, r)"
  "length s < 65536 \<Longrightarrow> reader_str16 e (enc_str16 e s) = Some (s, [])"
  "length b < 65536 \<Longrightarrow> reader_bytes16 e (enc_bytes16 e b @ r) = Some (b, r)"
  "length b < 4294967296 \<Longrightarrow> reader_bytes32 e (enc_bytes32 e b @ r) = Some (b, r)"
  "length b < 4294967296 \<Longrightarrow> reader_bytes32 e (enc_bytes32 e b) = Some (b, [])"
  "reader_bytes (length b) (b @ r) = Some (b, r)"
  by (simp_all add: field_laws)

lemma enc_field_folds [wire_simps]:
  "mem_of_u16 e (word_of_nat (length s)) @ bytes_of s = enc_str16 e s"
  "mem_of_u16 e (word_of_nat (length s)) @ bytes_of s @ rest = enc_str16 e s @ rest"
  "mem_of_u16 e (word_of_nat (length b)) @ b = enc_bytes16 e b"
  "mem_of_u16 e (word_of_nat (length b)) @ b @ rest = enc_bytes16 e b @ rest"
  "mem_of_u32 e (word_of_nat (length b)) @ b = enc_bytes32 e b"
  "mem_of_u32 e (word_of_nat (length b)) @ b @ rest = enc_bytes32 e b @ rest"
  by (simp_all add: enc_str16_def enc_bytes16_def enc_bytes32_def)

lemma length_enc_fields [simp]:
  "length (enc_str16 e s) = 2 + length s"
  "length (enc_bytes16 e b) = 2 + length b"
  "length (enc_bytes32 e b) = 4 + length b"
  by (simp_all add: enc_str16_def enc_bytes16_def enc_bytes32_def)

section \<open>Framing: the length header\<close>

definition kFrameHeaderSize :: nat where
  "kFrameHeaderSize = 4"

definition byteswap32 :: "u32 \<Rightarrow> u32" where
  "byteswap32 v =
     push_bit 24 (v AND 0x000000FF) OR push_bit 8 (v AND 0x0000FF00)
       OR drop_bit 8 (v AND 0x00FF0000) OR drop_bit 24 (v AND 0xFF000000)"

definition to_network :: "endian \<Rightarrow> u32 \<Rightarrow> u32" where
  "to_network e v = (case e of Little_Endian \<Rightarrow> byteswap32 v | Big_Endian \<Rightarrow> v)"

definition from_network :: "endian \<Rightarrow> u32 \<Rightarrow> u32" where
  "from_network e v = to_network e v"

lemma byteswap32_bytes:
  "byteswap32 v = u32_of_le (rev [ucast v, ucast (drop_bit 8 v), ucast (drop_bit 16 v),
     ucast (drop_bit 24 v)])"
proof (rule bit_word_eqI)
  fix n assume "n < LENGTH(32)"
  then have "n < 32" by simp
  then have "n \<in> set [0..<32]" by simp
  then show "bit (byteswap32 v) n = bit (u32_of_le (rev [ucast v, ucast (drop_bit 8 v),
      ucast (drop_bit 16 v), ucast (drop_bit 24 v)])) n"
    by (simp add: upt_rec byteswap32_def u32_of_le_def bit_or_iff bit_and_iff bit_push_bit_iff
        bit_ucast_iff bit_drop_bit_eq bit_imp_le_length, elim disjE, simp_all)
      (simp_all add: numeral_eq_Suc)
qed

text \<open>The header that goes on the wire is big-endian on a host of either byte order.\<close>

lemma mem_of_to_network: "mem_of_u32 e (to_network e v) = mem_of_u32 Big_Endian v"
proof (cases e)
  case Little_Endian
  let ?le = "[ucast v, ucast (drop_bit 8 v), ucast (drop_bit 16 v), ucast (drop_bit 24 v)]"
  have "mem_of_u32 Little_Endian (byteswap32 v) = rev ?le"
    using mem_of_u32_u32_of_mem [of "rev ?le" Little_Endian]
    by (simp add: byteswap32_bytes u32_of_mem_def)
  then show ?thesis
    by (simp add: Little_Endian to_network_def mem_of_u32_def [of Big_Endian])
next
  case Big_Endian
  then show ?thesis by (simp add: to_network_def)
qed

end
