(* ===== verification/Security.thy ===== *)
theory Security
  imports Byte_IO
begin

text \<open>
  The wrappers of \<open>include/security/\<close> around OpenSSL: \<open>hmac_sha256\<close> and
  \<open>constant_time_equal\<close> (\<open>hmac.hpp\<close>), \<open>sha256\<close> (\<open>sha256.hpp\<close>),
  \<open>random_bytes\<close>, \<open>to_hex\<close> and \<open>generate_token_hex\<close> (\<open>secure_random.hpp\<close>).
  OpenSSL itself is not modelled: its functions are the fields of a record the wrappers take as
  an argument, and what the code relies on is the predicate \<open>openssl_documented\<close>.
\<close>

section \<open>OpenSSL as a parameter\<close>

text \<open>
  The calls the wrappers make. \<open>EVP_MAC_final\<close> and \<open>EVP_Digest\<close> yield the bytes
  written (their number is \<open>out_len\<close>) or nothing where they do not return 1; the MAC
  functions are given the key and the data fed before them.
\<close>

record openssl =
  EVP_MAC_fetch :: bool
  EVP_MAC_CTX_new :: bool
  EVP_MAC_init :: "bytes \<Rightarrow> bool"
  EVP_MAC_update :: "bytes \<Rightarrow> bytes \<Rightarrow> bool"
  EVP_MAC_final :: "bytes \<Rightarrow> bytes \<Rightarrow> bytes option"
  EVP_Digest :: "bytes \<Rightarrow> bytes option"
  CRYPTO_memcmp :: "bytes \<Rightarrow> bytes \<Rightarrow> int"

definition openssl_documented :: "openssl \<Rightarrow> bool" where
  "openssl_documented E \<longleftrightarrow>
     (\<forall>a b. length a = length b \<longrightarrow> (CRYPTO_memcmp E a b = 0 \<longleftrightarrow> a = b))"

section \<open>HMAC, digest and comparison\<close>

definition kHmacSize :: nat where
  "kHmacSize = 32"

definition hmac_sha256 :: "openssl \<Rightarrow> bytes \<Rightarrow> bytes \<Rightarrow> bytes result" where
  "hmac_sha256 E key data =
     (if \<not> EVP_MAC_fetch E then Inl (Runtime_Error ''HMAC: EVP_MAC_fetch a echoue'')
      else if \<not> EVP_MAC_CTX_new E then Inl (Runtime_Error ''HMAC: EVP_MAC_CTX_new a echoue'')
      else if \<not> EVP_MAC_init E key then Inl (Runtime_Error ''HMAC: EVP_MAC_init a echoue'')
      else if data \<noteq> [] \<and> \<not> EVP_MAC_update E key data
        then Inl (Runtime_Error ''HMAC: EVP_MAC_update a echoue'')
      else case EVP_MAC_final E key data of
             None \<Rightarrow> Inl (Runtime_Error ''HMAC: EVP_MAC_final a echoue'')
           | Some out \<Rightarrow>
               if length out \<noteq> kHmacSize
               then Inl (Runtime_Error ''HMAC: EVP_MAC_final a echoue'') else Inr out)"

definition constant_time_equal :: "openssl \<Rightarrow> bytes \<Rightarrow> bytes \<Rightarrow> bool" where
  "constant_time_equal E a b =
     (if length a \<noteq> length b then False else CRYPTO_memcmp E a b = 0)"

definition sha256 :: "openssl \<Rightarrow> bytes \<Rightarrow> bytes result" where
  "sha256 E data =
     (case EVP_Digest E data of
        None \<Rightarrow> Inl (Runtime_Error ''SHA-256: EVP_Digest a echoue'')
      | Some out \<Rightarrow>
          if length out \<noteq> 32 then Inl (Runtime_Error ''SHA-256: EVP_Digest a echoue'')
          else Inr out)"

text \<open>The operating conditions of the crypto library: no call fails for lack of resources.\<close>

definition hmac_available :: "openssl \<Rightarrow> bytes \<Rightarrow> bool" where
  "hmac_available E key \<longleftrightarrow> (\<forall>data. returns (hmac_sha256 E key data))"

definition sha256_available :: "openssl \<Rightarrow> bool" where
  "sha256_available E \<longleftrightarrow> (\<forall>data. returns (sha256 E data))"

lemma length_hmac: "hmac_sha256 E key data = Inr mac \<Longrightarrow> length mac = kHmacSize"
  by (auto simp: hmac_sha256_def split: if_splits option.splits)

lemma length_sha256: "sha256 E data = Inr h \<Longrightarrow> length h = 32"
  by (auto simp: sha256_def split: if_splits option.splits)

lemma hmac_availableE:
  assumes "hmac_available E key"
  obtains mac where "hmac_sha256 E key data = Inr mac" "length mac = kHmacSize"
  using assms length_hmac by (fastforce simp: hmac_available_def returns_iff)

lemma sha256_availableE:
  assumes "sha256_available E"
  obtains h where "sha256 E data = Inr h" "length h = 32"
  using assms length_sha256 by (fastforce simp: sha256_available_def returns_iff)

lemma constant_time_equal_iff:
  "openssl_documented E \<Longrightarrow> constant_time_equal E a b \<longleftrightarrow> a = b"
  by (auto simp: openssl_documented_def constant_time_equal_def)

text \<open>
  A concrete library for the witnesses: every call succeeds, both hash functions are a padded
  sum of the input bytes (after a one, so that no digest is zero), and the comparison is exact.
\<close>

definition demo_digest :: "bytes \<Rightarrow> bytes" where
  "demo_digest data = replicate 30 0 @ [1, sum_list data]"

definition demo_openssl :: openssl where
  "demo_openssl =
     \<lparr> EVP_MAC_fetch = True, EVP_MAC_CTX_new = True, EVP_MAC_init = (\<lambda>_. True),
       EVP_MAC_update = (\<lambda>_ _. True),
       EVP_MAC_final = (\<lambda>key data. Some (demo_digest (key @ data))),
       EVP_Digest = (\<lambda>data. Some (demo_digest data)),
       CRYPTO_memcmp = (\<lambda>a b. if a = b then 0 else 1) \<rparr>"

lemma demo_openssl_documented: "openssl_documented demo_openssl"
  by (simp add: openssl_documented_def demo_openssl_def)

lemma demo_hmac: "hmac_sha256 demo_openssl key data = Inr (demo_digest (key @ data))"
  by (simp add: hmac_sha256_def demo_openssl_def demo_digest_def kHmacSize_def)

lemma demo_sha256: "sha256 demo_openssl data = Inr (demo_digest data)"
  by (simp add: sha256_def demo_openssl_def demo_digest_def)

lemma demo_available: "hmac_available demo_openssl key" "sha256_available demo_openssl"
  by (simp_all add: hmac_available_def sha256_available_def demo_hmac demo_sha256)

section \<open>Random tokens\<close>

text \<open>
  \<open>RAND_bytes\<close> is a source of randomness: the bytes of a call are an input of the model
  (\<open>None\<close> where it does not return 1), of which the zero-initialised buffer takes its
  \<open>N\<close>.
\<close>

definition fill_buffer :: "nat \<Rightarrow> bytes \<Rightarrow> bytes" where
  "fill_buffer n rnd = take n (rnd @ replicate n 0)"

definition random_bytes :: "nat \<Rightarrow> bytes option \<Rightarrow> bytes result" where
  "random_bytes n rnd =
     (case rnd of
        None \<Rightarrow> Inl (Runtime_Error ''RAND_bytes: entropie systeme indisponible'')
      | Some b \<Rightarrow> Inr (fill_buffer n b))"

definition digits :: string where
  "digits = ''0123456789abcdef''"

definition to_hex :: "bytes \<Rightarrow> string" where
  "to_hex bs = concat (map (\<lambda>v. [digits ! unat (drop_bit 4 v), digits ! unat (v AND 0x0F)]) bs)"

definition generate_token_hex :: "bytes option \<Rightarrow> string result" where
  "generate_token_hex rnd = bind_result (random_bytes 16 rnd) (\<lambda>b. Inr (to_hex b))"

lemma fill_buffer_length [simp]: "length (fill_buffer n rnd) = n"
  by (simp add: fill_buffer_def)

lemma fill_buffer_full [simp]: "length rnd = n \<Longrightarrow> fill_buffer n rnd = rnd"
  by (simp add: fill_buffer_def)

lemma length_to_hex: "length (to_hex bs) = 2 * length bs"
  by (induction bs) (simp_all add: to_hex_def)

lemma unat_nibbles:
  "unat (drop_bit 4 (v :: byte)) = unat v div 16" "unat (v AND 0x0F :: byte) = unat v mod 16"
proof -
  show "unat (drop_bit 4 v) = unat v div 16"
    by (simp only: unat_drop_bit_eq) (simp add: drop_bit_eq_div)
  have "v AND 0x0F = take_bit 4 v"
    by (simp add: take_bit_eq_mask mask_eq_exp_minus_1)
  then show "unat (v AND 0x0F) = unat v mod 16"
    by (simp only: unsigned_take_bit_eq) (simp add: take_bit_eq_mod)
qed

lemma nibbles_less:
  "unat (drop_bit 4 (v :: byte)) < 16" "unat (v AND 0x0F :: byte) < 16"
  using unat_byte_less_256 [of v] by (simp_all only: unat_nibbles)

lemma digits_inject: "i < 16 \<Longrightarrow> j < 16 \<Longrightarrow> digits ! i = digits ! j \<longleftrightarrow> i = j"
  by (simp add: digits_def nth_eq_iff_index_eq)

lemma byte_eq_nibbles:
  "(v :: byte) = w \<longleftrightarrow>
     unat (drop_bit 4 v) = unat (drop_bit 4 w) \<and> unat (v AND 0x0F) = unat (w AND 0x0F)"
  unfolding unat_nibbles by (metis mult_div_mod_eq word_unat_eq_iff)

lemma to_hex_simps [simp]:
  "to_hex [] = []"
  "to_hex (v # vs) =
     digits ! unat (drop_bit 4 v) # digits ! unat (v AND 0x0F) # to_hex vs"
  by (simp_all add: to_hex_def)

lemma to_hex_inject: "to_hex bs = to_hex cs \<longleftrightarrow> bs = cs"
proof (induction bs arbitrary: cs)
  case Nil
  then show ?case by (cases cs) simp_all
next
  case (Cons b bs)
  then show ?case
    by (cases cs) (simp_all add: digits_inject nibbles_less byte_eq_nibbles del: drop_bit_numeral_bit0)
qed

lemma digits_mem: "i < 16 \<Longrightarrow> digits ! i \<in> set digits"
  by (rule nth_mem) (simp add: digits_def)

lemma set_to_hex: "set (to_hex bs) \<subseteq> set digits"
  by (induction bs) (simp_all add: digits_mem nibbles_less)

end
