(* ===== verification/Srp6.thy ===== *)
theory Srp6
  imports Security
begin

text \<open>
  SRP-6a with SHA-256, \<open>include/security/srp6.hpp\<close>: the derived values \<open>x\<close>, \<open>k\<close>,
  \<open>u\<close>, \<open>M1\<close>, \<open>M2\<close>, the registration, the two server steps and the client. The
  \<open>BIGNUM\<close> functions of OpenSSL are a parameter, a record of operations on natural numbers,
  with their documented meaning as the predicate \<open>bn_documented\<close>. The main results: a client
  that knows the password and the server agree on the session key and on both proofs, and the
  server accepts nothing but the one proof its own values determine.
\<close>

section \<open>BIGNUM as a parameter\<close>

record bn_lib =
  BN_hex2bn :: "string \<Rightarrow> nat option"
  BN_bin2bn :: "bytes \<Rightarrow> nat option"
  BN_bn2binpad :: "nat \<Rightarrow> nat \<Rightarrow> bytes option"
  BN_mod_exp :: "nat \<Rightarrow> nat \<Rightarrow> nat \<Rightarrow> nat"
  BN_mod_mul :: "nat \<Rightarrow> nat \<Rightarrow> nat \<Rightarrow> nat"
  BN_mod_add :: "nat \<Rightarrow> nat \<Rightarrow> nat \<Rightarrow> nat"
  BN_mod_sub :: "nat \<Rightarrow> nat \<Rightarrow> nat \<Rightarrow> nat"
  BN_nnmod :: "nat \<Rightarrow> nat \<Rightarrow> nat"
  BN_mul :: "nat \<Rightarrow> nat \<Rightarrow> nat"
  BN_add :: "nat \<Rightarrow> nat \<Rightarrow> nat"

text \<open>The numbers written in hexadecimal, and in big-endian bytes (padded to a length).\<close>

definition hex_num :: "string \<Rightarrow> nat" where
  "hex_num s = foldl (\<lambda>n c. 16 * n + (case digit_value c of Some d \<Rightarrow> d | None \<Rightarrow> 0)) 0 s"

definition be_num :: "bytes \<Rightarrow> nat" where
  "be_num bs = foldl (\<lambda>n b. 256 * n + unat b) 0 bs"

fun be_pad :: "nat \<Rightarrow> nat \<Rightarrow> bytes" where
  "be_pad 0 n = []"
| "be_pad (Suc len) n = be_pad len (n div 256) @ [word_of_nat n]"

definition sub_mod :: "nat \<Rightarrow> nat \<Rightarrow> nat \<Rightarrow> nat" where
  "sub_mod a b m = nat ((int a - int b) mod int m)"

definition bn_documented :: "bn_lib \<Rightarrow> bool" where
  "bn_documented L \<longleftrightarrow>
     (\<forall>s. s \<noteq> [] \<and> list_all (\<lambda>c. digit_value c \<noteq> None) s \<longrightarrow> BN_hex2bn L s = Some (hex_num s)) \<and>
     (\<forall>bs. BN_bin2bn L bs = Some (be_num bs)) \<and>
     (\<forall>n len. BN_bn2binpad L n len = (if n < 256 ^ len then Some (be_pad len n) else None)) \<and>
     (\<forall>a p m. m \<noteq> 0 \<longrightarrow> BN_mod_exp L a p m = a ^ p mod m) \<and>
     (\<forall>a b m. m \<noteq> 0 \<longrightarrow> BN_mod_mul L a b m = a * b mod m) \<and>
     (\<forall>a b m. m \<noteq> 0 \<longrightarrow> BN_mod_add L a b m = (a + b) mod m) \<and>
     (\<forall>a b m. m \<noteq> 0 \<longrightarrow> BN_mod_sub L a b m = sub_mod a b m) \<and>
     (\<forall>a m. m \<noteq> 0 \<longrightarrow> BN_nnmod L a m = a mod m) \<and>
     (\<forall>a b. BN_mul L a b = a * b) \<and>
     (\<forall>a b. BN_add L a b = a + b)"

text \<open>A concrete library for the witnesses: the documented arithmetic itself.\<close>

definition demo_bn :: bn_lib where
  "demo_bn =
     \<lparr> BN_hex2bn = (\<lambda>s. Some (hex_num s)), BN_bin2bn = (\<lambda>bs. Some (be_num bs)),
       BN_bn2binpad = (\<lambda>n len. if n < 256 ^ len then Some (be_pad len n) else None),
       BN_mod_exp = (\<lambda>a p m. a ^ p mod m), BN_mod_mul = (\<lambda>a b m. a * b mod m),
       BN_mod_add = (\<lambda>a b m. (a + b) mod m), BN_mod_sub = sub_mod,
       BN_nnmod = (\<lambda>a m. a mod m), BN_mul = (\<lambda>a b. a * b), BN_add = (\<lambda>a b. a + b) \<rparr>"

lemma demo_bn_documented: "bn_documented demo_bn"
  by (simp add: bn_documented_def demo_bn_def)

section \<open>The group and the conversions\<close>

definition kGroupNHex :: string where
  "kGroupNHex =
     ''F511360967F552BDE33F1CBAA2A7FB1952F54B0B98C5C43B0C41F5CDE6BDE52F'' @
     ''23190FB594E944D74CD79557D372AA1896F8E50E4369090FB5951BE6365AF475'' @
     ''E9110B93B9BA6628AF0F5C9AB386154C4C2A4107FD522255D138E092DEA66252'' @
     ''4A45C3E0F405622641C69444663EFD1989325FCBE9DCE9BD5EE35DAF1A88B818'' @
     ''E820992BCA6617258137105E432EBA98F9E27235C0FF535BD4B6B89F7A030C54'' @
     ''BCE4BCA12CEED3AEBADBB567C05D8DB3755AECB83DAF494C8CE8F596B7FC72D0'' @
     ''2C44D0C7D1CE96C329A6CF080B15A543327362BDCCAECE26BFB35F7A5D0A80A6'' @
     ''F6EEBF818694AB4A0D2B3188A884BD94AD5B38E0C7B510AC532449CA2850A5EF''"

definition kGroupG :: nat where
  "kGroupG = 2"

definition kNBytes :: nat where
  "kNBytes = 256"

definition bn_from_hex :: "bn_lib \<Rightarrow> string \<Rightarrow> nat result" where
  "bn_from_hex L hex =
     (case BN_hex2bn L hex of
        None \<Rightarrow> Inl (Runtime_Error ''SRP6: BN_hex2bn a echoue'')
      | Some n \<Rightarrow> Inr n)"

definition bn_from_bytes :: "bn_lib \<Rightarrow> bytes \<Rightarrow> nat result" where
  "bn_from_bytes L bs =
     (case BN_bin2bn L bs of
        None \<Rightarrow> Inl (Runtime_Error ''SRP6: BN_bin2bn a echoue'')
      | Some n \<Rightarrow> Inr n)"

definition bn_to_bytes :: "bn_lib \<Rightarrow> nat \<Rightarrow> nat \<Rightarrow> bytes result" where
  "bn_to_bytes L n len =
     (case BN_bn2binpad L n len of
        None \<Rightarrow> Inl (Runtime_Error ''SRP6: BN_bn2binpad a echoue (valeur plus grande que len ?)'')
      | Some bs \<Rightarrow> Inr bs)"

section \<open>Derived values\<close>

definition compute_x :: "openssl \<Rightarrow> bn_lib \<Rightarrow> bytes \<Rightarrow> string \<Rightarrow> string \<Rightarrow> nat result" where
  "compute_x E L salt username password =
     bind_result (sha256 E (bytes_of (username @ '':'' @ password))) (\<lambda>inner.
     bind_result (sha256 E (concat [salt, inner])) (\<lambda>outer.
     bn_from_bytes L outer))"

definition compute_k :: "openssl \<Rightarrow> bn_lib \<Rightarrow> nat \<Rightarrow> nat \<Rightarrow> nat result" where
  "compute_k E L N g =
     bind_result (bn_to_bytes L N kNBytes) (\<lambda>N_bytes.
     bind_result (bn_to_bytes L g kNBytes) (\<lambda>g_bytes.
     bind_result (sha256 E (concat [N_bytes, g_bytes])) (\<lambda>h.
     bn_from_bytes L h)))"

definition compute_u :: "openssl \<Rightarrow> bn_lib \<Rightarrow> bytes \<Rightarrow> bytes \<Rightarrow> nat result" where
  "compute_u E L A_bytes B_bytes =
     bind_result (sha256 E (concat [A_bytes, B_bytes])) (\<lambda>h. bn_from_bytes L h)"

definition compute_M1 :: "openssl \<Rightarrow> bytes \<Rightarrow> bytes \<Rightarrow> bytes \<Rightarrow> bytes result" where
  "compute_M1 E A_bytes B_bytes K = sha256 E (concat [A_bytes, B_bytes, K])"

definition compute_M2 :: "openssl \<Rightarrow> bytes \<Rightarrow> bytes \<Rightarrow> bytes \<Rightarrow> bytes result" where
  "compute_M2 E A_bytes M1 K = sha256 E (concat [A_bytes, M1, K])"

section \<open>Registration\<close>

record registration =
  reg_salt :: bytes
  reg_verifier :: bytes

definition compute_verifier_with_salt :: "openssl \<Rightarrow> bn_lib \<Rightarrow> string \<Rightarrow> string \<Rightarrow> bytes
    \<Rightarrow> registration result" where
  "compute_verifier_with_salt E L username password salt =
     bind_result (bn_from_hex L kGroupNHex) (\<lambda>N.
     bind_result (compute_x E L salt username password) (\<lambda>x.
     bind_result (bn_to_bytes L (BN_mod_exp L kGroupG x N) kNBytes) (\<lambda>v.
     Inr \<lparr> reg_salt = salt, reg_verifier = v \<rparr>)))"

definition compute_verifier :: "openssl \<Rightarrow> bn_lib \<Rightarrow> bytes option \<Rightarrow> string \<Rightarrow> string
    \<Rightarrow> registration result" where
  "compute_verifier E L rnd username password =
     bind_result (random_bytes 16 rnd) (\<lambda>salt.
     compute_verifier_with_salt E L username password salt)"

section \<open>The server\<close>

record server_challenge =
  ch_b :: nat
  ch_v :: nat
  ch_B_bytes :: bytes

text \<open>
  \<open>BN_rand_range(b, N)\<close> on a fresh \<open>BIGNUM\<close>, which is zero: the call's return value is
  not looked at, so where it fails (\<open>None\<close>) the number stays zero.
\<close>

definition rand_into_fresh :: "nat option \<Rightarrow> nat" where
  "rand_into_fresh r = (case r of Some n \<Rightarrow> n | None \<Rightarrow> 0)"

definition server_begin :: "openssl \<Rightarrow> bn_lib \<Rightarrow> nat option \<Rightarrow> bytes \<Rightarrow> server_challenge result" where
  "server_begin E L rand verifier_bytes =
     bind_result (bn_from_hex L kGroupNHex) (\<lambda>N.
     bind_result (compute_k E L N kGroupG) (\<lambda>k.
     bind_result (bn_from_bytes L verifier_bytes) (\<lambda>v.
     let b = rand_into_fresh rand;
         kv = BN_mod_mul L k v N;
         gb = BN_mod_exp L kGroupG b N;
         B = BN_mod_add L kv gb N
     in bind_result (bn_to_bytes L B kNBytes) (\<lambda>B_bytes.
     Inr \<lparr> ch_b = b, ch_v = v, ch_B_bytes = B_bytes \<rparr>))))"

record server_result =
  sr_ok :: bool
  sr_K :: bytes
  sr_M2 :: bytes

definition server_refusal :: server_result where
  "server_refusal = \<lparr> sr_ok = False, sr_K = replicate 32 0, sr_M2 = [] \<rparr>"

definition server_verify :: "openssl \<Rightarrow> bn_lib \<Rightarrow> server_challenge \<Rightarrow> bytes \<Rightarrow> bytes
    \<Rightarrow> server_result result" where
  "server_verify E L challenge A_bytes client_M1 =
     bind_result (bn_from_hex L kGroupNHex) (\<lambda>N.
     bind_result (bn_from_bytes L A_bytes) (\<lambda>A.
     if BN_nnmod L A N = 0 then Inr server_refusal
     else
       bind_result (compute_u E L A_bytes (ch_B_bytes challenge)) (\<lambda>u.
       if u = 0 then Inr server_refusal
       else
         let vu = BN_mod_exp L (ch_v challenge) u N;
             Avu = BN_mod_mul L A vu N;
             S = BN_mod_exp L Avu (ch_b challenge) N
         in bind_result (bn_to_bytes L S kNBytes) (\<lambda>S_bytes.
            bind_result (sha256 E S_bytes) (\<lambda>K.
            bind_result (compute_M1 E A_bytes (ch_B_bytes challenge) K) (\<lambda>expected_M1.
            if \<not> constant_time_equal E expected_M1 client_M1 then Inr server_refusal
            else
              bind_result (compute_M2 E A_bytes expected_M1 K) (\<lambda>M2.
              Inr \<lparr> sr_ok = True, sr_K = K, sr_M2 = M2 \<rparr>)))))))"

section \<open>The client\<close>

record client_proof =
  cp_A_bytes :: bytes
  cp_M1 :: bytes
  cp_K :: bytes

definition client_respond :: "openssl \<Rightarrow> bn_lib \<Rightarrow> nat option \<Rightarrow> string \<Rightarrow> string \<Rightarrow> bytes \<Rightarrow> bytes
    \<Rightarrow> client_proof result" where
  "client_respond E L rand username password salt B_bytes =
     bind_result (bn_from_hex L kGroupNHex) (\<lambda>N.
     bind_result (compute_k E L N kGroupG) (\<lambda>k.
     bind_result (bn_from_bytes L B_bytes) (\<lambda>B.
     if BN_nnmod L B N = 0 then Inl (Runtime_Error ''SRP6: B=0 recu du serveur, rejete'')
     else
       let a = rand_into_fresh rand;
           A = BN_mod_exp L kGroupG a N
       in bind_result (bn_to_bytes L A kNBytes) (\<lambda>A_bytes.
          bind_result (compute_u E L A_bytes B_bytes) (\<lambda>u.
          bind_result (compute_x E L salt username password) (\<lambda>x.
          let gx = BN_mod_exp L kGroupG x N;
              kgx = BN_mod_mul L k gx N;
              base = BN_mod_sub L B kgx N;
              ux = BN_mul L u x;
              ex = BN_add L a ux;
              S = BN_mod_exp L base ex N
          in bind_result (bn_to_bytes L S kNBytes) (\<lambda>S_bytes.
             bind_result (sha256 E S_bytes) (\<lambda>K.
             bind_result (compute_M1 E A_bytes B_bytes K) (\<lambda>M1.
             Inr \<lparr> cp_A_bytes = A_bytes, cp_M1 = M1, cp_K = K \<rparr>)))))))))"

definition client_verify_server :: "openssl \<Rightarrow> client_proof \<Rightarrow> bytes \<Rightarrow> bool result" where
  "client_verify_server E prf server_M2 =
     bind_result (compute_M2 E (cp_A_bytes prf) (cp_M1 prf) (cp_K prf)) (\<lambda>expected.
     Inr (constant_time_equal E expected server_M2))"

section \<open>Facts about the group and the encodings\<close>

definition group_N :: nat where
  "group_N = hex_num kGroupNHex"

lemma hex_num_snoc:
  "hex_num (s @ [c]) = 16 * hex_num s + (case digit_value c of Some d \<Rightarrow> d | None \<Rightarrow> 0)"
  by (simp add: hex_num_def)

lemma hex_num_less: "hex_num s < 16 ^ length s"
proof (induction s rule: rev_induct)
  case Nil
  then show ?case by (simp add: hex_num_def)
next
  case (snoc c s)
  then show ?case
    using digit_value_less [of c] by (auto simp: hex_num_snoc split: option.split)
qed

lemma digit_values:
  "digit_value CHR ''0'' = Some 0"
  "digit_value CHR ''1'' = Some 1"
  "digit_value CHR ''2'' = Some 2"
  "digit_value CHR ''3'' = Some 3"
  "digit_value CHR ''4'' = Some 4"
  "digit_value CHR ''5'' = Some 5"
  "digit_value CHR ''6'' = Some 6"
  "digit_value CHR ''7'' = Some 7"
  "digit_value CHR ''8'' = Some 8"
  "digit_value CHR ''9'' = Some 9"
  "digit_value CHR ''A'' = Some 10"
  "digit_value CHR ''B'' = Some 11"
  "digit_value CHR ''C'' = Some 12"
  "digit_value CHR ''D'' = Some 13"
  "digit_value CHR ''E'' = Some 14"
  "digit_value CHR ''F'' = Some 15"
  by (simp_all add: digit_value_def)

lemma kGroupNHex_shape:
  "length kGroupNHex = 512" "list_all (\<lambda>c. digit_value c \<noteq> None) kGroupNHex"
  by (simp_all add: kGroupNHex_def digit_values)

lemma last_kGroupNHex: "last kGroupNHex = CHR ''F''"
  by code_simp

lemma group_N_last: "\<exists>m. group_N = 16 * m + 15"
proof -
  have "kGroupNHex = butlast kGroupNHex @ [CHR ''F'']"
    by (metis append_butlast_last_id kGroupNHex_shape(1) last_kGroupNHex length_0_conv zero_neq_numeral)
  then show ?thesis
    using hex_num_snoc [of "butlast kGroupNHex" "CHR ''F''"]
    by (simp add: group_N_def digit_value_def)
qed

lemma group_N_facts: "odd group_N" "1 < group_N" "0 < group_N" "15 \<le> group_N"
proof -
  obtain m where m: "group_N = 16 * m + 15" using group_N_last ..
  have "odd (16 * m + 15)" by presburger
  with m show "odd group_N" by simp
  show "1 < group_N" "0 < group_N" "15 \<le> group_N" using m by simp_all
qed

lemma power_256: "(256 :: nat) ^ n = 16 ^ (2 * n)"
  by (simp add: power_mult)

lemma group_N_width: "group_N < 256 ^ kNBytes"
proof -
  have "length kGroupNHex = 2 * kNBytes"
    by (simp only: kGroupNHex_shape kNBytes_def)
  then show ?thesis
    using hex_num_less [of kGroupNHex] by (simp only: group_N_def power_256)
qed

lemma group_N_fits: "n < group_N \<Longrightarrow> n < 256 ^ kNBytes"
  using group_N_width by (rule less_trans [rotated])

text \<open>No power of the generator vanishes modulo \<open>N\<close>, which is odd.\<close>

lemma power_g_mod_N: "\<not> group_N dvd kGroupG ^ a"
proof
  assume "group_N dvd kGroupG ^ a"
  then have "group_N dvd 2 ^ a" by (simp add: kGroupG_def)
  moreover have "coprime group_N (2 ^ a)"
    using group_N_facts(1) by (simp add: coprime_right_2_iff_odd)
  ultimately have "is_unit group_N"
    using coprime_common_divisor [of group_N "2 ^ a" group_N] by simp
  then show False using group_N_facts(2) by simp
qed

lemma be_num_snoc: "be_num (bs @ [b]) = 256 * be_num bs + unat b"
  by (simp add: be_num_def)

lemma be_num_pad: "be_num (be_pad len n) = n mod 256 ^ len"
proof (induction len arbitrary: n)
  case 0
  then show ?case by (simp add: be_num_def)
next
  case (Suc len)
  then show ?case
    by (simp add: be_num_snoc unat_of_nat mod_mult2_eq)
qed

lemma length_be_pad [simp]: "length (be_pad len n) = len"
  by (induction len arbitrary: n) simp_all

text \<open>The documented library, as rewrite rules for the group.\<close>

lemma bn_rules:
  assumes "bn_documented L"
  shows "bn_from_hex L kGroupNHex = Inr group_N"
    and "bn_from_bytes L bs = Inr (be_num bs)"
    and "n < group_N \<Longrightarrow> bn_to_bytes L n kNBytes = Inr (be_pad kNBytes n)"
    and "BN_mod_exp L a m group_N = a ^ m mod group_N"
    and "BN_mod_mul L a b group_N = a * b mod group_N"
    and "BN_mod_add L a b group_N = (a + b) mod group_N"
    and "BN_mod_sub L a b group_N = sub_mod a b group_N"
    and "BN_nnmod L a group_N = a mod group_N"
    and "BN_mul L a b = a * b"
    and "BN_add L a b = a + b"
proof -
  have "kGroupNHex \<noteq> []" using kGroupNHex_shape(1) by auto
  then show "bn_from_hex L kGroupNHex = Inr group_N"
    using assms kGroupNHex_shape(2) by (simp add: bn_from_hex_def bn_documented_def group_N_def)
  show "n < group_N \<Longrightarrow> bn_to_bytes L n kNBytes = Inr (be_pad kNBytes n)"
    using assms group_N_fits by (simp add: bn_to_bytes_def bn_documented_def)
qed (use assms group_N_facts in \<open>simp_all add: bn_documented_def bn_from_bytes_def\<close>)

section \<open>Agreement\<close>

lemma sub_mod_add: "0 < m \<Longrightarrow> sub_mod ((p + q) mod m) p m = q mod m"
proof -
  assume m: "0 < m"
  have "(int ((p + q) mod m) - int p) mod int m = (int p + int q - int p) mod int m"
    by (simp add: of_nat_mod mod_diff_left_eq)
  then have "(int ((p + q) mod m) - int p) mod int m = int (q mod m)"
    by (simp add: of_nat_mod)
  then show "sub_mod ((p + q) mod m) p m = q mod m"
    by (simp only: sub_mod_def nat_int)
qed

text \<open>The two sides raise the same element to the same exponent.\<close>

lemma shared_secret:
  fixes g :: nat
  assumes "0 < m" and "v = g ^ x mod m" and "B = (k * v mod m + g ^ b mod m) mod m"
  shows "sub_mod B (k * v mod m) m ^ (a + u * x) mod m =
    ((g ^ a mod m) * (v ^ u mod m) mod m) ^ b mod m"
proof -
  have "sub_mod B (k * v mod m) m = g ^ b mod m"
    using sub_mod_add [OF assms(1), of "k * v mod m" "g ^ b mod m"] assms(3) by simp
  then have "sub_mod B (k * v mod m) m ^ (a + u * x) mod m = (g ^ b) ^ (a + u * x) mod m"
    by (simp add: power_mod)
  also have "(g ^ b) ^ (a + u * x) = (g ^ a * (g ^ x) ^ u) ^ b"
    by (simp add: power_add power_mult power_mult_distrib mult.commute flip: power_mult)
  also have "\<dots> mod m = ((g ^ a mod m) * (v ^ u mod m) mod m) ^ b mod m"
    by (simp add: assms(2) power_mod mod_mult_eq)
  finally show ?thesis .
qed

text \<open>
  The server's two steps and the client's step with the documented library and an available
  hash, as closed forms.
\<close>

definition srp_k :: "openssl \<Rightarrow> bn_lib \<Rightarrow> nat result" where
  "srp_k E L = compute_k E L group_N kGroupG"

lemma group_args_fit: "kGroupG < group_N" "m mod group_N < group_N"
  using group_N_facts(4) group_N_facts(3) by (simp_all add: kGroupG_def)

lemma server_begin_closed:
  assumes "bn_documented L" and "server_begin E L rand v_bytes = Inr ch"
  shows "\<exists>k. srp_k E L = Inr k \<and> ch_v ch = be_num v_bytes \<and> ch_b ch = rand_into_fresh rand \<and>
    ch_B_bytes ch = be_pad kNBytes
      ((k * be_num v_bytes mod group_N + kGroupG ^ rand_into_fresh rand mod group_N) mod group_N)"
  using assms(2)
  by (auto simp: server_begin_def bn_rules [OF assms(1)] result_simps srp_k_def Let_def
      group_args_fit)

lemma server_begin_available:
  assumes "bn_documented L" and "sha256_available E"
  shows "\<exists>ch. server_begin E L rand v = Inr ch"
proof -
  obtain h where "sha256 E (concat [be_pad kNBytes group_N, be_pad kNBytes kGroupG]) = Inr h"
    using sha256_availableE [OF assms(2)] by metis
  moreover have "bn_to_bytes L group_N kNBytes = Inr (be_pad kNBytes group_N)"
    using assms(1) group_N_width by (simp add: bn_to_bytes_def bn_documented_def)
  ultimately show ?thesis
    by (simp add: server_begin_def compute_k_def bn_rules [OF assms(1)] group_args_fit Let_def)
qed

lemma server_verify_closed:
  assumes "bn_documented L"
  shows "server_verify E L ch A_bytes M1 =
    (if be_num A_bytes mod group_N = 0 then Inr server_refusal
     else bind_result (compute_u E L A_bytes (ch_B_bytes ch)) (\<lambda>u.
       if u = 0 then Inr server_refusal
       else
         let S = (be_num A_bytes * (ch_v ch ^ u mod group_N) mod group_N) ^ ch_b ch mod group_N
         in bind_result (sha256 E (be_pad kNBytes S)) (\<lambda>K.
            bind_result (compute_M1 E A_bytes (ch_B_bytes ch) K) (\<lambda>expected.
            if \<not> constant_time_equal E expected M1 then Inr server_refusal
            else bind_result (compute_M2 E A_bytes expected K) (\<lambda>M2.
              Inr \<lparr> sr_ok = True, sr_K = K, sr_M2 = M2 \<rparr>)))))"
  by (simp add: server_verify_def bn_rules [OF assms] group_args_fit Let_def cong: if_cong)

lemma client_respond_closed:
  assumes "bn_documented L" and "client_respond E L rand user pw salt B_bytes = Inr prf"
  shows "\<exists>k u x. srp_k E L = Inr k \<and> compute_x E L salt user pw = Inr x \<and>
    cp_A_bytes prf = be_pad kNBytes (kGroupG ^ rand_into_fresh rand mod group_N) \<and>
    compute_u E L (cp_A_bytes prf) B_bytes = Inr u \<and>
    sha256 E (be_pad kNBytes
      (sub_mod (be_num B_bytes) (k * (kGroupG ^ x mod group_N) mod group_N) group_N
         ^ (rand_into_fresh rand + u * x) mod group_N)) = Inr (cp_K prf) \<and>
    compute_M1 E (cp_A_bytes prf) B_bytes (cp_K prf) = Inr (cp_M1 prf)"
  using assms(2)
  by (auto simp: client_respond_def bn_rules [OF assms(1)] result_simps srp_k_def Let_def
      group_args_fit split: if_splits)

lemma compute_verifier_closed:
  assumes "bn_documented L" and "compute_verifier_with_salt E L user pw salt = Inr reg"
  shows "\<exists>x. compute_x E L salt user pw = Inr x \<and> reg_salt reg = salt \<and>
    reg_verifier reg = be_pad kNBytes (kGroupG ^ x mod group_N)"
  using assms(2)
  by (auto simp: compute_verifier_with_salt_def bn_rules [OF assms(1)] result_simps group_args_fit)

lemma be_num_pad_group: "n < group_N \<Longrightarrow> be_num (be_pad kNBytes n) = n"
  using group_N_fits by (simp add: be_num_pad)

lemma srp_agreement_core:
  assumes L: "bn_documented L" and E: "openssl_documented E" "sha256_available E"
    and reg: "compute_verifier_with_salt E L user pw salt = Inr reg"
    and ch: "server_begin E L rand_b (reg_verifier reg) = Inr ch"
    and cl: "client_respond E L rand_a user pw (reg_salt reg) (ch_B_bytes ch) = Inr prf"
    and u: "compute_u E L (cp_A_bytes prf) (ch_B_bytes ch) \<noteq> Inr 0"
  shows "\<exists>M2. server_verify E L ch (cp_A_bytes prf) (cp_M1 prf) =
      Inr \<lparr> sr_ok = True, sr_K = cp_K prf, sr_M2 = M2 \<rparr> \<and>
    client_verify_server E prf M2 = Inr True"
proof -
  from compute_verifier_closed [OF L reg] obtain x where x: "compute_x E L salt user pw = Inr x"
      and salt: "reg_salt reg = salt"
      and v: "be_num (reg_verifier reg) = kGroupG ^ x mod group_N"
    by (auto simp: be_num_pad_group group_args_fit)
  from server_begin_closed [OF L ch] v obtain k where k: "srp_k E L = Inr k"
      and chv: "ch_v ch = kGroupG ^ x mod group_N" and chb: "ch_b ch = rand_into_fresh rand_b"
      and B: "be_num (ch_B_bytes ch) = (k * (kGroupG ^ x mod group_N) mod group_N +
         kGroupG ^ rand_into_fresh rand_b mod group_N) mod group_N"
    by (auto simp: be_num_pad_group group_args_fit)
  from client_respond_closed [OF L cl] obtain k' u' x' where
      "srp_k E L = Inr k'" "compute_x E L salt user pw = Inr x'"
      and A: "be_num (cp_A_bytes prf) = kGroupG ^ rand_into_fresh rand_a mod group_N"
      and u': "compute_u E L (cp_A_bytes prf) (ch_B_bytes ch) = Inr u'"
      and K: "sha256 E (be_pad kNBytes
        (sub_mod (be_num (ch_B_bytes ch)) (k' * (kGroupG ^ x' mod group_N) mod group_N) group_N
           ^ (rand_into_fresh rand_a + u' * x') mod group_N)) = Inr (cp_K prf)"
      and M1: "compute_M1 E (cp_A_bytes prf) (ch_B_bytes ch) (cp_K prf) = Inr (cp_M1 prf)"
    by (auto simp: salt be_num_pad_group group_args_fit)
  moreover from this k x have "k' = k" "x' = x" by simp_all
  moreover obtain M2 where M2: "compute_M2 E (cp_A_bytes prf) (cp_M1 prf) (cp_K prf) = Inr M2"
    using E(2) by (metis sha256_availableE compute_M2_def)
  ultimately show ?thesis
    using shared_secret [OF group_N_facts(3) refl B, of "rand_into_fresh rand_a" u']
      u power_g_mod_N constant_time_equal_iff [OF E(1)]
    by (auto simp: server_verify_closed [OF L] chv chb client_verify_server_def)
qed

section \<open>What the server accepts\<close>

text \<open>The value \<open>S = (A * v^u)^b mod N\<close> from which the server derives its key.\<close>

definition server_secret :: "server_challenge \<Rightarrow> nat \<Rightarrow> nat \<Rightarrow> nat" where
  "server_secret ch A u = (A * (ch_v ch ^ u mod group_N) mod group_N) ^ ch_b ch mod group_N"

lemma server_verify_accepts_core:
  assumes "bn_documented L" and "openssl_documented E"
    and "server_verify E L ch A_bytes M1 = Inr res" and "sr_ok res"
  shows "be_num A_bytes mod group_N \<noteq> 0 \<and>
    (\<exists>u. compute_u E L A_bytes (ch_B_bytes ch) = Inr u \<and> u \<noteq> 0 \<and>
       sha256 E (be_pad kNBytes (server_secret ch (be_num A_bytes) u)) = Inr (sr_K res)) \<and>
    compute_M1 E A_bytes (ch_B_bytes ch) (sr_K res) = Inr M1 \<and>
    compute_M2 E A_bytes M1 (sr_K res) = Inr (sr_M2 res)"
  using assms(3,4)
  by (auto simp: server_verify_closed [OF assms(1)] result_simps Let_def server_refusal_def
      constant_time_equal_iff [OF assms(2)] server_secret_def split: if_splits)

lemma server_verify_unique_core:
  assumes "bn_documented L" and "openssl_documented E"
    and "server_verify E L ch A_bytes M1 = Inr res" and "sr_ok res"
    and "server_verify E L ch A_bytes M1' = Inr res'" and "sr_ok res'"
  shows "M1' = M1 \<and> res' = res"
  using server_verify_accepts_core [OF assms(1-4)] server_verify_accepts_core [OF assms(1,2,5,6)]
    assms(4,6)
  by (auto intro: server_result.equality)

lemma zero_key_refused_core:
  assumes "bn_documented L" and "be_num A_bytes mod group_N = 0"
  shows "server_verify E L ch A_bytes M1 = Inr server_refusal"
  using assms(2) by (simp add: server_verify_closed [OF assms(1)])

text \<open>
  Where \<open>BN_rand_range\<close> fails, the server's secret exponent is zero and so the key is the
  hash of the number one, whatever the verifier is.
\<close>

lemma failed_rand_accepts_core:
  assumes L: "bn_documented L" and E: "openssl_documented E" "sha256_available E"
    and ch: "server_begin E L None v_bytes = Inr ch"
    and A: "be_num A_bytes mod group_N \<noteq> 0"
    and u: "compute_u E L A_bytes (ch_B_bytes ch) = Inr u" "u \<noteq> 0"
    and K: "sha256 E (be_pad kNBytes 1) = Inr K"
    and M1: "compute_M1 E A_bytes (ch_B_bytes ch) K = Inr M1"
  shows "\<exists>M2. server_verify E L ch A_bytes M1 = Inr \<lparr> sr_ok = True, sr_K = K, sr_M2 = M2 \<rparr>"
proof -
  have b: "ch_b ch = 0"
    using server_begin_closed [OF L ch] by (auto simp: rand_into_fresh_def)
  obtain M2 where M2: "compute_M2 E A_bytes M1 K = Inr M2"
    using E(2) by (metis sha256_availableE compute_M2_def)
  have "1 mod group_N = 1" using group_N_facts(2) by simp
  then show ?thesis
    using A u K M1 M2
    by (simp add: server_verify_closed [OF L] b constant_time_equal_iff [OF E(1)])
qed

text \<open>All that \<open>server_verify\<close> can answer, where the hash is available.\<close>

lemma server_verify_exact_core:
  assumes "bn_documented L" and "openssl_documented E" and "sha256_available E"
  shows "\<exists>u K M1' M2. compute_u E L A_bytes (ch_B_bytes ch) = Inr u \<and>
    sha256 E (be_pad kNBytes (server_secret ch (be_num A_bytes) u)) = Inr K \<and>
    compute_M1 E A_bytes (ch_B_bytes ch) K = Inr M1' \<and> compute_M2 E A_bytes M1' K = Inr M2 \<and>
    server_verify E L ch A_bytes M1 =
      Inr (if be_num A_bytes mod group_N = 0 \<or> u = 0 \<or> M1 \<noteq> M1' then server_refusal
           else \<lparr> sr_ok = True, sr_K = K, sr_M2 = M2 \<rparr>)"
proof -
  obtain u where u: "compute_u E L A_bytes (ch_B_bytes ch) = Inr u"
    unfolding compute_u_def using sha256_availableE [OF assms(3), of "concat [A_bytes, ch_B_bytes ch]"]
    by (metis bind_result_Inr bn_rules(2) [OF assms(1)])
  obtain K where K: "sha256 E (be_pad kNBytes (server_secret ch (be_num A_bytes) u)) = Inr K"
    by (rule sha256_availableE [OF assms(3)])
  obtain M1' where M1': "compute_M1 E A_bytes (ch_B_bytes ch) K = Inr M1'"
    unfolding compute_M1_def by (rule sha256_availableE [OF assms(3)])
  obtain M2 where M2: "compute_M2 E A_bytes M1' K = Inr M2"
    unfolding compute_M2_def by (rule sha256_availableE [OF assms(3)])
  have "server_verify E L ch A_bytes M1 =
      Inr (if be_num A_bytes mod group_N = 0 \<or> u = 0 \<or> M1 \<noteq> M1' then server_refusal
           else \<lparr> sr_ok = True, sr_K = K, sr_M2 = M2 \<rparr>)"
    using u K M1' M2
    by (auto simp: server_verify_closed [OF assms(1)] server_secret_def Let_def
        constant_time_equal_iff [OF assms(2)])
  with u K M1' M2 show ?thesis by blast
qed

end
