(* ===== verification/Shared_Store.thy ===== *)
theory Shared_Store
  imports Prelude "HOL-Library.AList" "HOL-Library.Multiset"
begin

text \<open>
  The in-memory key/value store with expiry of \<open>include/store/shared_store.hpp\<close>
  (\<open>SharedStore\<close>). Every operation of the class holds the mutex for its whole body, so one
  operation is one step of the model; \<open>Store_Threads\<close> has its smaller steps and proves it. The hash table is an association list with distinct keys;
  the order in which the standard library enumerates it is unspecified and is a parameter
  \<open>iter\<close> of the operations that loop over it. The locale \<open>expiring_store\<close> is the contract
  the clients of the store rely on, whether they hold it in memory or reach it over the network.
\<close>

section \<open>State\<close>

text \<open>
  Times are readings of \<open>std::chrono::steady_clock\<close> in nanoseconds. A loop reads the clock
  once per element: its readings are a function of the element's position.
\<close>

type_synonym time = int

definition ns_per_second :: int where
  "ns_per_second = 1000000000"

record store_entry =
  entry_value :: bytes
  expires_at :: time

record shared_store =
  entries :: "(string \<times> store_entry) list"

type_synonym iteration = "(string \<times> store_entry) list \<Rightarrow> (string \<times> store_entry) list"

definition is_iteration :: "iteration \<Rightarrow> bool" where
  "is_iteration iter \<longleftrightarrow> (\<forall>es. mset (iter es) = mset es)"

definition empty_store :: shared_store where
  "empty_store = \<lparr> entries = [] \<rparr>"

definition is_expired :: "time \<Rightarrow> store_entry \<Rightarrow> bool" where
  "is_expired now en \<longleftrightarrow> now \<ge> expires_at en"

section \<open>Operations\<close>

definition store_put :: "string \<Rightarrow> bytes \<Rightarrow> int \<Rightarrow> time \<Rightarrow> shared_store \<Rightarrow> shared_store" where
  "store_put key val ttl now s =
     s\<lparr>entries := AList.update key
         \<lparr>entry_value = val, expires_at = now + ttl * ns_per_second\<rparr> (entries s)\<rparr>"

definition store_get :: "string \<Rightarrow> time \<Rightarrow> shared_store \<Rightarrow> bytes option" where
  "store_get key now s =
     (case map_of (entries s) key of
        None \<Rightarrow> None
      | Some en \<Rightarrow> if is_expired now en then None else Some (entry_value en))"

definition store_take :: "string \<Rightarrow> time \<Rightarrow> shared_store \<Rightarrow> bytes option \<times> shared_store" where
  "store_take key now s =
     (case map_of (entries s) key of
        None \<Rightarrow> (None, s)
      | Some en \<Rightarrow>
          if is_expired now en then (None, s)
          else (Some (entry_value en), s\<lparr>entries := AList.delete key (entries s)\<rparr>))"

text \<open>The loop of \<open>sweep_expired\<close>: what stays in the table and how many entries were removed.\<close>

fun sweep_loop :: "(nat \<Rightarrow> time) \<Rightarrow> nat \<Rightarrow> (string \<times> store_entry) list
    \<Rightarrow> (string \<times> store_entry) list \<times> nat" where
  "sweep_loop clk i [] = ([], 0)"
| "sweep_loop clk i ((key, en) # es) =
     (let (kept, removed) = sweep_loop clk (Suc i) es
      in if is_expired (clk i) en then (kept, Suc removed) else ((key, en) # kept, removed))"

definition sweep_expired :: "iteration \<Rightarrow> (nat \<Rightarrow> time) \<Rightarrow> shared_store \<Rightarrow> nat \<times> shared_store" where
  "sweep_expired iter clk s =
     (let (kept, removed) = sweep_loop clk 0 (iter (entries s))
      in (removed, s\<lparr>entries := kept\<rparr>))"

text \<open>\<open>key.compare(0, prefix.size(), prefix) == 0\<close>\<close>

definition key_has_prefix :: "string \<Rightarrow> string \<Rightarrow> bool" where
  "key_has_prefix prefix key \<longleftrightarrow> take (length prefix) key = prefix"

fun list_prefix_loop :: "string \<Rightarrow> (nat \<Rightarrow> time) \<Rightarrow> nat \<Rightarrow> (string \<times> store_entry) list
    \<Rightarrow> (string \<times> bytes) list" where
  "list_prefix_loop prefix clk i [] = []"
| "list_prefix_loop prefix clk i ((key, en) # es) =
     (if is_expired (clk i) en then list_prefix_loop prefix clk (Suc i) es
      else if key_has_prefix prefix key
        then (key, entry_value en) # list_prefix_loop prefix clk (Suc i) es
      else list_prefix_loop prefix clk (Suc i) es)"

definition store_list_prefix :: "iteration \<Rightarrow> (nat \<Rightarrow> time) \<Rightarrow> string \<Rightarrow> shared_store
    \<Rightarrow> (string \<times> bytes) list" where
  "store_list_prefix iter clk prefix s = list_prefix_loop prefix clk 0 (iter (entries s))"

definition store_size :: "shared_store \<Rightarrow> nat" where
  "store_size s = length (entries s)"

section \<open>The abstract view\<close>

text \<open>
  What the store means at a time: the map of its live keys. The invariant is that of a hash
  table: a key has one entry.
\<close>

definition wf_store :: "shared_store \<Rightarrow> bool" where
  "wf_store s \<longleftrightarrow> distinct (map fst (entries s))"

definition unexpired :: "time \<Rightarrow> store_entry \<Rightarrow> bytes option" where
  "unexpired t en = (if is_expired t en then None else Some (entry_value en))"

definition live :: "time \<Rightarrow> shared_store \<Rightarrow> string \<Rightarrow> bytes option" where
  "live t s key =
     Option.bind (map_of (entries s) key) (unexpired t)"

lemma store_get_live: "store_get key t s = live t s key"
  by (simp add: store_get_def live_def unexpired_def split: option.split)

lemma wf_store_empty [simp]: "wf_store empty_store"
  by (simp add: wf_store_def empty_store_def)

lemma live_empty [simp]: "live t empty_store = Map.empty"
  by (simp add: live_def empty_store_def fun_eq_iff)

lemma wf_store_put [simp]: "wf_store s \<Longrightarrow> wf_store (store_put key val ttl now s)"
  by (simp add: wf_store_def store_put_def distinct_update)

lemma live_put:
  "live t (store_put key val ttl now s) =
     (live t s)(key := if t < now + ttl * ns_per_second then Some val else None)"
  by (auto simp: live_def unexpired_def store_put_def update_conv' is_expired_def fun_eq_iff)

lemma live_antimono: "t \<le> t' \<Longrightarrow> live t' s key = Some v \<Longrightarrow> live t s key = Some v"
  by (cases "map_of (entries s) key")
    (auto simp: live_def unexpired_def is_expired_def split: if_splits)

lemma live_None_mono: "t \<le> t' \<Longrightarrow> live t s key = None \<Longrightarrow> live t' s key = None"
  by (metis live_antimono not_Some_eq)

lemma wf_store_take [simp]: "wf_store s \<Longrightarrow> wf_store (snd (store_take key now s))"
  by (auto simp: wf_store_def store_take_def distinct_delete split: option.split)

lemma fst_store_take: "fst (store_take key now s) = live now s key"
  by (auto simp: store_take_def live_def unexpired_def split: option.split)

lemma live_take:
  assumes "now \<le> t"
  shows "live t (snd (store_take key now s)) = (live t s)(key := None)"
  using assms
  by (auto simp: store_take_def live_def unexpired_def delete_conv' is_expired_def fun_eq_iff
      split: option.split)

section \<open>Sweeping and listing\<close>

lemma sweep_loop_kept:
  "sweep_loop clk i es = (kept, removed) \<Longrightarrow>
     set kept \<subseteq> set es \<and> removed + length kept = length es \<and>
     (distinct (map fst es) \<longrightarrow> distinct (map fst kept))"
proof (induction es arbitrary: i kept removed)
  case Nil
  then show ?case by simp
next
  case (Cons p es)
  then show ?case
    by (cases p) (fastforce simp: Let_def split: prod.splits if_splits)
qed

text \<open>A sweep whose clock readings are no later than \<open>t\<close> removes nothing that lives at \<open>t\<close>.\<close>

lemma sweep_loop_keeps_live:
  assumes "sweep_loop clk i es = (kept, removed)"
    and "distinct (map fst es)" and "\<And>j. clk j \<le> t"
  shows "Option.bind (map_of kept key) (unexpired t) = Option.bind (map_of es key) (unexpired t)"
  using assms(1,2)
proof (induction es arbitrary: i kept removed)
  case Nil
  then show ?case by simp
next
  case (Cons p es)
  obtain k en where p: "p = (k, en)" by force
  obtain kept' removed' where rest: "sweep_loop clk (Suc i) es = (kept', removed')" by force
  from rest have sub: "set kept' \<subseteq> set es" using sweep_loop_kept by blast
  show ?case
  proof (cases "is_expired (clk i) en")
    case True
    have "map_of kept' k = None" "map_of es k = None"
      using sub Cons.prems(2) by (auto simp: p map_of_eq_None_iff)
    moreover have "unexpired t en = None"
      using True assms(3) [of i] by (simp add: is_expired_def unexpired_def)
    ultimately show ?thesis
      using Cons rest True by (auto simp: p)
  next
    case False
    then show ?thesis using Cons rest by (auto simp: p)
  qed
qed

lemma map_of_iteration:
  assumes "is_iteration iter" and "distinct (map fst es)"
  shows "map_of (iter es) = map_of es"
proof -
  have mset: "mset (iter es) = mset es"
    using assms(1) by (simp add: is_iteration_def)
  then have "distinct (map fst (iter es))"
    using assms(2) by (metis mset_eq_imp_distinct_iff mset_map)
  moreover have "set (iter es) = set es"
    using mset by (rule mset_eq_setD)
  ultimately show ?thesis
    using assms(2) by (simp add: map_of_inject_set)
qed

lemma distinct_iteration:
  "is_iteration iter \<Longrightarrow> distinct (map fst (iter es)) = distinct (map fst es)"
  by (metis is_iteration_def mset_eq_imp_distinct_iff mset_map)

lemma set_iteration: "is_iteration iter \<Longrightarrow> set (iter es) = set es"
  by (metis is_iteration_def mset_eq_setD)

lemma length_iteration: "is_iteration iter \<Longrightarrow> length (iter es) = length es"
  by (metis is_iteration_def mset_eq_length)

lemma wf_store_sweep [simp]:
  "is_iteration iter \<Longrightarrow> wf_store s \<Longrightarrow> wf_store (snd (sweep_expired iter clk s))"
  using sweep_loop_kept [of clk 0 "iter (entries s)"]
  by (auto simp: wf_store_def sweep_expired_def distinct_iteration split: prod.split)

lemma live_sweep:
  assumes "is_iteration iter" and "wf_store s" and "\<And>j. clk j \<le> t"
  shows "live t (snd (sweep_expired iter clk s)) = live t s"
proof
  fix key
  obtain kept removed where loop: "sweep_loop clk 0 (iter (entries s)) = (kept, removed)" by force
  from assms show "live t (snd (sweep_expired iter clk s)) key = live t s key"
    using sweep_loop_keeps_live [OF loop, of t key]
    by (simp add: live_def sweep_expired_def loop wf_store_def distinct_iteration map_of_iteration)
qed

text \<open>A property of all values, expired entries included.\<close>

definition all_values :: "(bytes \<Rightarrow> bool) \<Rightarrow> shared_store \<Rightarrow> bool" where
  "all_values P s \<longleftrightarrow> (\<forall>p \<in> set (entries s). P (entry_value (snd p)))"

lemma all_values_empty [simp]: "all_values P empty_store"
  by (simp add: all_values_def empty_store_def)

lemma all_values_live: "all_values P s \<Longrightarrow> live t s key = Some v \<Longrightarrow> P v"
  by (fastforce simp: all_values_def live_def unexpired_def bind_eq_Some_conv split: if_splits
      dest: map_of_SomeD)

lemma all_values_put: "all_values P s \<Longrightarrow> P v \<Longrightarrow> all_values P (store_put key v ttl t s)"
proof -
  have "set (AList.update k en es) \<subseteq> insert (k, en) (set es)" for k en and es :: "(string \<times> store_entry) list"
    by (induction es) auto
  then show "all_values P s \<Longrightarrow> P v \<Longrightarrow> all_values P (store_put key v ttl t s)"
    by (fastforce simp: all_values_def store_put_def)
qed

lemma all_values_take: "all_values P s \<Longrightarrow> all_values P (snd (store_take key t s))"
  by (auto simp: all_values_def store_take_def AList.delete_eq split: option.split)

lemma all_values_sweep: "is_iteration iter \<Longrightarrow> all_values P s \<Longrightarrow> all_values P (snd (sweep_expired iter clk s))"
  using sweep_loop_kept [of clk 0 "iter (entries s)"]
  by (fastforce simp: all_values_def sweep_expired_def set_iteration split: prod.split)

lemma all_values_mono: "all_values P s \<Longrightarrow> (\<And>v. P v \<Longrightarrow> Q v) \<Longrightarrow> all_values Q s"
  by (auto simp: all_values_def)

lemma sweep_loop_fresh:
  assumes "sweep_loop clk i es = (kept, removed)" and "\<And>j. t \<le> clk j"
  shows "\<forall>(key, en) \<in> set kept. \<not> is_expired t en"
  using assms(1)
proof (induction es arbitrary: i kept removed)
  case Nil
  then show ?case by simp
next
  case (Cons p es)
  obtain k en where p: "p = (k, en)" by force
  obtain kept' removed' where rest: "sweep_loop clk (Suc i) es = (kept', removed')" by force
  show ?case
    using Cons.IH [OF rest] Cons.prems rest assms(2) [of i]
    by (auto simp: p is_expired_def split: if_splits)
qed

lemma sweep_count:
  assumes "is_iteration iter" and "sweep_expired iter clk s = (removed, s')"
  shows "removed + store_size s' = store_size s"
  using sweep_loop_kept [of clk 0 "iter (entries s)"] assms
  by (auto simp: sweep_expired_def store_size_def length_iteration split: prod.splits)

lemma list_prefix_loop_sound:
  assumes "(key, v) \<in> set (list_prefix_loop prefix clk i es)" and "\<And>j. t \<le> clk j"
  shows "key_has_prefix prefix key \<and> (\<exists>en. (key, en) \<in> set es \<and> unexpired t en = Some v)"
  using assms(1)
proof (induction es arbitrary: i)
  case Nil
  then show ?case by simp
next
  case (Cons p es)
  obtain k en where p: "p = (k, en)" by force
  show ?case
  proof (cases "(key, v) \<in> set (list_prefix_loop prefix clk (Suc i) es)")
    case True
    then show ?thesis using Cons.IH by (auto simp: p)
  next
    case False
    then have "key = k" "key_has_prefix prefix key" "unexpired t en = Some v"
      using Cons.prems assms(2) [of i]
      by (auto simp: p unexpired_def is_expired_def split: if_splits)
    then show ?thesis by (auto simp: p)
  qed
qed

lemma list_prefix_loop_complete:
  assumes "(key, en) \<in> set es" and "key_has_prefix prefix key"
    and "unexpired t en = Some v" and "\<And>j. clk j \<le> t"
  shows "(key, v) \<in> set (list_prefix_loop prefix clk i es)"
  using assms(1)
proof (induction es arbitrary: i)
  case Nil
  then show ?case by simp
next
  case (Cons p es)
  have "\<not> is_expired (clk i) en" "v = entry_value en"
    using assms(3) assms(4) [of i] by (auto simp: unexpired_def is_expired_def split: if_splits)
  then show ?case
    using Cons.IH [of "Suc i"] Cons.prems assms(2) by (cases p) auto
qed

lemma list_prefix_sound:
  assumes "is_iteration iter" and "wf_store s" and "\<And>j. t \<le> clk j"
    and "(key, v) \<in> set (store_list_prefix iter clk prefix s)"
  shows "key_has_prefix prefix key \<and> live t s key = Some v"
proof -
  obtain en where "key_has_prefix prefix key" "(key, en) \<in> set (entries s)" "unexpired t en = Some v"
    using list_prefix_loop_sound [OF assms(4) [unfolded store_list_prefix_def] assms(3)]
    by (auto simp: set_iteration [OF assms(1)])
  then show ?thesis
    using assms(2) by (auto simp: wf_store_def live_def map_of_is_SomeI)
qed

lemma list_prefix_complete:
  assumes "is_iteration iter" and "wf_store s" and "\<And>j. clk j \<le> t"
    and "key_has_prefix prefix key" and "live t s key = Some v"
  shows "(key, v) \<in> set (store_list_prefix iter clk prefix s)"
proof -
  obtain en where "(key, en) \<in> set (entries s)" "unexpired t en = Some v"
    using assms(5) by (auto simp: live_def bind_eq_Some_conv dest: map_of_SomeD)
  then show ?thesis
    unfolding store_list_prefix_def using assms(3,4)
    by (intro list_prefix_loop_complete) (auto simp: set_iteration [OF assms(1)])
qed

lemma list_prefix_loop_cong:
  assumes "\<And>j. j < i + length es \<Longrightarrow> clk j = clk' j"
  shows "list_prefix_loop prefix clk i es = list_prefix_loop prefix clk' i es"
  using assms by (induction es arbitrary: i) auto

text \<open>
  A listing whose readings of the clock lie between \<open>t0\<close> and \<open>t1\<close>: each key at most once, only keys
  that live at \<open>t0\<close>, and every key that lives at \<open>t1\<close>, with their values.
\<close>

lemma list_prefix_loop_keys: "set (map fst (list_prefix_loop prefix clk i es)) \<subseteq> set (map fst es)"
  by (induction prefix clk i es rule: list_prefix_loop.induct) auto

lemma list_prefix_loop_distinct:
  "distinct (map fst es) \<Longrightarrow> distinct (map fst (list_prefix_loop prefix clk i es))"
proof (induction prefix clk i es rule: list_prefix_loop.induct)
  case (2 prefix clk i key en es)
  then show ?case using list_prefix_loop_keys [of prefix clk "Suc i" es] by auto
qed simp

lemma store_list_prefix_cong:
  assumes "is_iteration iter" and "\<And>j. j < store_size s \<Longrightarrow> clk j = clk' j"
  shows "store_list_prefix iter clk prefix s = store_list_prefix iter clk' prefix s"
  unfolding store_list_prefix_def using assms
  by (intro list_prefix_loop_cong) (simp add: length_iteration store_size_def)

lemma list_prefix_live:
  assumes iter: "is_iteration iter" and wf: "wf_store s"
    and clk: "\<And>j. j < store_size s \<Longrightarrow> t0 \<le> clk j \<and> clk j \<le> t1"
  shows "distinct (map fst (store_list_prefix iter clk prefix s))"
    and "(key, v) \<in> set (store_list_prefix iter clk prefix s) \<Longrightarrow> key_has_prefix prefix key \<and> live t0 s key = Some v"
    and "key_has_prefix prefix key \<Longrightarrow> live t1 s key = Some v \<Longrightarrow> (key, v) \<in> set (store_list_prefix iter clk prefix s)"
proof -
  show "distinct (map fst (store_list_prefix iter clk prefix s))"
    using wf unfolding store_list_prefix_def wf_store_def
    by (intro list_prefix_loop_distinct) (simp add: distinct_iteration [OF iter])
  have 0: "store_list_prefix iter clk prefix s =
      store_list_prefix iter (\<lambda>j. if j < store_size s then clk j else t0) prefix s"
    by (rule store_list_prefix_cong [OF iter]) simp
  show "(key, v) \<in> set (store_list_prefix iter clk prefix s) \<Longrightarrow> key_has_prefix prefix key \<and> live t0 s key = Some v"
    unfolding 0 by (rule list_prefix_sound [OF iter wf]) (use clk in auto)
  have 1: "store_list_prefix iter clk prefix s =
      store_list_prefix iter (\<lambda>j. if j < store_size s then clk j else t1) prefix s"
    by (rule store_list_prefix_cong [OF iter]) simp
  show "key_has_prefix prefix key \<Longrightarrow> live t1 s key = Some v \<Longrightarrow> (key, v) \<in> set (store_list_prefix iter clk prefix s)"
    unfolding 1 by (rule list_prefix_complete [OF iter wf]) (use clk in auto)
qed

section \<open>The contract of a store with expiry\<close>

text \<open>
  What a client of the store sees: a sequence of timed commands, whatever clients they come
  from, interleaved in the order in which the mutex admits them. The specification is a map from
  keys to a value and its expiry time.
\<close>

datatype 'i store_cmd =
    Cmd_Put string bytes int
  | Cmd_Get string
  | Cmd_Take string
  | Cmd_Sweep 'i

type_synonym spec_store = "string \<rightharpoonup> bytes \<times> time"

definition spec_look :: "time \<Rightarrow> spec_store \<Rightarrow> string \<Rightarrow> bytes option" where
  "spec_look t m key = Option.bind (m key) (\<lambda>(v, x). if t < x then Some v else None)"

fun spec_step :: "time \<Rightarrow> 'i store_cmd \<Rightarrow> spec_store \<Rightarrow> bytes option \<times> spec_store" where
  "spec_step t (Cmd_Put key v ttl) m = (None, m(key \<mapsto> (v, t + ttl * ns_per_second)))"
| "spec_step t (Cmd_Get key) m = (spec_look t m key, m)"
| "spec_step t (Cmd_Take key) m =
     (spec_look t m key, if spec_look t m key = None then m else m(key := None))"
| "spec_step t (Cmd_Sweep i) m = (None, m)"

fun run_steps :: "(time \<Rightarrow> 'c \<Rightarrow> 's \<Rightarrow> 'r \<times> 's) \<Rightarrow> (time \<times> 'c) list \<Rightarrow> 's
    \<Rightarrow> ('c \<times> 'r) list \<times> 's" where
  "run_steps stp [] s = ([], s)"
| "run_steps stp ((t, c) # cs) s =
     (let (r, s1) = stp t c s; (rs, s2) = run_steps stp cs s1 in ((c, r) # rs, s2))"

text \<open>Time does not run backwards between commands.\<close>

fun timed :: "time \<Rightarrow> (time \<times> 'c) list \<Rightarrow> bool" where
  "timed t [] = True"
| "timed t ((t', c) # cs) = (t \<le> t' \<and> timed t' cs)"

definition took :: "string \<Rightarrow> 'i store_cmd \<times> bytes option \<Rightarrow> bool" where
  "took key p \<longleftrightarrow> (\<exists>v. p = (Cmd_Take key, Some v))"

definition puts :: "string \<Rightarrow> 'i store_cmd \<Rightarrow> bool" where
  "puts key c \<longleftrightarrow> (\<exists>v ttl. c = Cmd_Put key v ttl)"

lemma took_simps [simp]:
  "took key (Cmd_Put k v ttl, r) \<longleftrightarrow> False"
  "took key (Cmd_Get k, r) \<longleftrightarrow> False"
  "took key (Cmd_Sweep i, r) \<longleftrightarrow> False"
  "took key (Cmd_Take k, r) \<longleftrightarrow> k = key \<and> r \<noteq> None"
  by (auto simp: took_def)

lemma puts_simps [simp]:
  "puts key (Cmd_Put k v ttl) \<longleftrightarrow> k = key"
  "\<not> puts key (Cmd_Get k)" "\<not> puts key (Cmd_Sweep i)" "\<not> puts key (Cmd_Take k)"
  by (auto simp: puts_def)

lemma spec_run_absent:
  assumes "timed t cs" and "\<forall>(t', c) \<in> set cs. \<not> puts key c"
    and "\<forall>t' \<ge> t. spec_look t' m key = None"
  shows "filter (took key) (fst (run_steps spec_step cs m)) = []"
  using assms
proof (induction cs arbitrary: t m)
  case Nil
  then show ?case by simp
next
  case (Cons p cs)
  obtain t1 c where p: "p = (t1, c)" by force
  obtain r m1 where st: "spec_step t1 c m = (r, m1)" by force
  from Cons.prems p have t1: "t \<le> t1" "\<not> puts key c" by auto
  have "\<not> took key (c, r)"
    using st t1 Cons.prems(3) by (cases c) auto
  moreover have "\<forall>t' \<ge> t1. spec_look t' m1 key = None"
    using st t1 Cons.prems(3) by (cases c) (auto simp: spec_look_def split: if_splits)
  ultimately show ?case
    using Cons.IH [of t1 m1] Cons.prems p st by (auto simp: Let_def split: prod.split)
qed

lemma spec_run_single_use:
  assumes "timed t cs" and "\<forall>(t', c) \<in> set cs. \<not> puts key c"
  shows "length (filter (took key) (fst (run_steps spec_step cs m))) \<le> 1"
  using assms
proof (induction cs arbitrary: t m)
  case Nil
  then show ?case by simp
next
  case (Cons p cs)
  obtain t1 c where p: "p = (t1, c)" by force
  obtain r m1 where st: "spec_step t1 c m = (r, m1)" by force
  show ?case
  proof (cases "took key (c, r)")
    case True
    then have "m1 key = None" using st by (auto simp: took_def split: if_splits)
    then have "filter (took key) (fst (run_steps spec_step cs m1)) = []"
      using Cons.prems p by (intro spec_run_absent [of t1]) (auto simp: spec_look_def)
    then show ?thesis
      using True p st by (auto simp: Let_def split: prod.split)
  next
    case False
    then show ?thesis
      using Cons.IH [of t1 m1] Cons.prems p st by (auto simp: Let_def split: prod.split)
  qed
qed

text \<open>
  The interface: its operations, the map it shows at a time, its invariant, and the keys and
  values it supports (over the network a message has a bounded size).
\<close>

definition store_step :: "(string \<Rightarrow> bytes \<Rightarrow> int \<Rightarrow> time \<Rightarrow> 's \<Rightarrow> 's)
    \<Rightarrow> (string \<Rightarrow> time \<Rightarrow> 's \<Rightarrow> bytes option \<times> 's) \<Rightarrow> (string \<Rightarrow> time \<Rightarrow> 's \<Rightarrow> bytes option \<times> 's)
    \<Rightarrow> ('i \<Rightarrow> time \<Rightarrow> 's \<Rightarrow> 's) \<Rightarrow> time \<Rightarrow> 'i store_cmd \<Rightarrow> 's \<Rightarrow> bytes option \<times> 's" where
  "store_step put_op get_op take_op sweep_op t c s =
     (case c of
        Cmd_Put key v ttl \<Rightarrow> (None, put_op key v ttl t s)
      | Cmd_Get key \<Rightarrow> get_op key t s
      | Cmd_Take key \<Rightarrow> take_op key t s
      | Cmd_Sweep i \<Rightarrow> (None, sweep_op i t s))"

definition cmd_ok :: "(string \<Rightarrow> bytes \<Rightarrow> int \<Rightarrow> bool) \<Rightarrow> (string \<Rightarrow> bool) \<Rightarrow> ('i \<Rightarrow> time \<Rightarrow> bool)
    \<Rightarrow> time \<times> 'i store_cmd \<Rightarrow> bool" where
  "cmd_ok put_ok key_ok sweep_ok p =
     (case p of (t, c) \<Rightarrow>
       (case c of
          Cmd_Put key v ttl \<Rightarrow> put_ok key v ttl
        | Cmd_Get key \<Rightarrow> key_ok key
        | Cmd_Take key \<Rightarrow> key_ok key
        | Cmd_Sweep i \<Rightarrow> sweep_ok i t))"

locale expiring_store =
  fixes put_op :: "string \<Rightarrow> bytes \<Rightarrow> int \<Rightarrow> time \<Rightarrow> 's \<Rightarrow> 's"
    and get_op :: "string \<Rightarrow> time \<Rightarrow> 's \<Rightarrow> bytes option \<times> 's"
    and take_op :: "string \<Rightarrow> time \<Rightarrow> 's \<Rightarrow> bytes option \<times> 's"
    and sweep_op :: "'i \<Rightarrow> time \<Rightarrow> 's \<Rightarrow> 's"
    and look :: "time \<Rightarrow> 's \<Rightarrow> string \<Rightarrow> bytes option"
    and inv :: "'s \<Rightarrow> bool"
    and put_ok :: "string \<Rightarrow> bytes \<Rightarrow> int \<Rightarrow> bool"
    and key_ok :: "string \<Rightarrow> bool"
    and sweep_ok :: "'i \<Rightarrow> time \<Rightarrow> bool"
  assumes put_inv: "inv s \<Longrightarrow> put_ok key v ttl \<Longrightarrow> inv (put_op key v ttl t s)"
    and put_look: "inv s \<Longrightarrow> put_ok key v ttl \<Longrightarrow> t \<le> t' \<Longrightarrow>
      look t' (put_op key v ttl t s) =
        (look t' s)(key := if t' < t + ttl * ns_per_second then Some v else None)"
    and get_result: "inv s \<Longrightarrow> key_ok key \<Longrightarrow> get_op key t s = (look t s key, s)"
    and take_inv: "inv s \<Longrightarrow> key_ok key \<Longrightarrow> inv (snd (take_op key t s))"
    and take_result: "inv s \<Longrightarrow> key_ok key \<Longrightarrow> fst (take_op key t s) = look t s key"
    and take_look: "inv s \<Longrightarrow> key_ok key \<Longrightarrow> t \<le> t' \<Longrightarrow>
      look t' (snd (take_op key t s)) = (look t' s)(key := None)"
    and sweep_inv: "inv s \<Longrightarrow> sweep_ok i t \<Longrightarrow> inv (sweep_op i t s)"
    and sweep_look: "inv s \<Longrightarrow> sweep_ok i t \<Longrightarrow> t \<le> t' \<Longrightarrow> look t' (sweep_op i t s) = look t' s"
    and look_antimono: "t \<le> t' \<Longrightarrow> look t' s key = Some v \<Longrightarrow> look t s key = Some v"
begin

definition stp :: "time \<Rightarrow> 'i store_cmd \<Rightarrow> 's \<Rightarrow> bytes option \<times> 's" where
  "stp = store_step put_op get_op take_op sweep_op"

definition sim :: "time \<Rightarrow> 's \<Rightarrow> spec_store \<Rightarrow> bool" where
  "sim t s m \<longleftrightarrow> inv s \<and> (\<forall>t' \<ge> t. look t' s = spec_look t' m)"

lemma sim_mono: "sim t s m \<Longrightarrow> t \<le> t' \<Longrightarrow> sim t' s m"
  by (auto simp: sim_def)

lemma sim_step:
  assumes "sim t s m" and "cmd_ok put_ok key_ok sweep_ok (t, c)"
  shows "fst (stp t c s) = fst (spec_step t c m) \<and> sim t (snd (stp t c s)) (snd (spec_step t c m))"
proof (cases c)
  case (Cmd_Put key v ttl)
  with assms show ?thesis
    by (auto simp: sim_def stp_def store_step_def cmd_ok_def put_inv put_look spec_look_def
        fun_eq_iff)
next
  case (Cmd_Get key)
  with assms show ?thesis
    by (auto simp: sim_def stp_def store_step_def cmd_ok_def get_result)
next
  case (Cmd_Take key)
  have "spec_look t' m key = None" if "spec_look t m key = None" "t \<le> t'" for t'
    using that by (cases "m key") (auto simp: spec_look_def split: if_splits)
  with assms Cmd_Take show ?thesis
    by (auto simp: sim_def stp_def store_step_def cmd_ok_def take_inv take_result take_look
        fun_eq_iff) (auto simp: spec_look_def)
next
  case (Cmd_Sweep i)
  with assms show ?thesis
    by (auto simp: sim_def stp_def store_step_def cmd_ok_def sweep_inv sweep_look)
qed

lemma run_refines:
  assumes "sim t s m" and "timed t cs" and "\<forall>p \<in> set cs. cmd_ok put_ok key_ok sweep_ok p"
  shows "fst (run_steps stp cs s) = fst (run_steps spec_step cs m)"
  using assms
proof (induction cs arbitrary: t s m)
  case Nil
  then show ?case by simp
next
  case (Cons p cs)
  obtain t1 c where p: "p = (t1, c)" by force
  from Cons.prems p have "sim t1 s m" by (auto intro: sim_mono)
  then have "fst (stp t1 c s) = fst (spec_step t1 c m)"
      "sim t1 (snd (stp t1 c s)) (snd (spec_step t1 c m))"
    using sim_step Cons.prems(3) p by auto
  then show ?case
    using Cons.IH [of t1 "snd (stp t1 c s)" "snd (spec_step t1 c m)"] Cons.prems p
    by (simp add: split_def Let_def)
qed

lemma run_single_use:
  assumes "sim t s m" and "timed t cs" and "\<forall>p \<in> set cs. cmd_ok put_ok key_ok sweep_ok p"
    and "\<forall>(t', c) \<in> set cs. \<not> puts key c"
  shows "length (filter (took key) (fst (run_steps stp cs s))) \<le> 1"
  using run_refines [OF assms(1-3)] spec_run_single_use [OF assms(2,4), of m] by simp

end

text \<open>\<open>SharedStore\<close> itself, as Master holds it, meets the contract.\<close>

definition shared_get :: "string \<Rightarrow> time \<Rightarrow> shared_store \<Rightarrow> bytes option \<times> shared_store" where
  "shared_get key t s = (store_get key t s, s)"

definition shared_sweep :: "iteration \<times> (nat \<Rightarrow> time) \<Rightarrow> time \<Rightarrow> shared_store \<Rightarrow> shared_store" where
  "shared_sweep i t s = snd (sweep_expired (fst i) (snd i) s)"

definition shared_sweep_ok :: "iteration \<times> (nat \<Rightarrow> time) \<Rightarrow> time \<Rightarrow> bool" where
  "shared_sweep_ok i t \<longleftrightarrow> is_iteration (fst i) \<and> (\<forall>j. snd i j \<le> t)"

interpretation shared: expiring_store store_put shared_get store_take shared_sweep live wf_store
    "\<lambda>_ _ _. True" "\<lambda>_. True" shared_sweep_ok
proof unfold_locales
  fix s i t t'
  assume "wf_store s" "shared_sweep_ok i t" "t \<le> t'"
  then show "live t' (shared_sweep i t s) = live t' s"
    by (auto simp: shared_sweep_def shared_sweep_ok_def intro!: live_sweep intro: order_trans)
qed (auto simp: live_put shared_get_def store_get_live fst_store_take live_take shared_sweep_def
    shared_sweep_ok_def intro: live_antimono)

text \<open>The map a store stands for, with the expiry times.\<close>

definition store_abs :: "shared_store \<Rightarrow> spec_store" where
  "store_abs s key = map_option (\<lambda>en. (entry_value en, expires_at en)) (map_of (entries s) key)"

lemma shared_sim: "wf_store s \<Longrightarrow> shared.sim t s (store_abs s)"
  by (auto simp: shared.sim_def live_def spec_look_def store_abs_def unexpired_def is_expired_def
      fun_eq_iff split: option.split bind_splits)

end
