(* ===== verification/Store_Threads.thy ===== *)
theory Store_Threads
  imports Shared_Store
begin

text \<open>
  \<open>SharedStore\<close> under the threads that call it: Master serves its clients and its store on
  several threads and sweeps on another one. Here an operation of \<open>include/store/shared_store.hpp\<close>
  is a sequence of steps that those of other threads interleave with: it takes \<open>mutex_\<close>, shared
  or exclusively, finds its entry, reads the clock, copies, moves or erases, and releases the mutex
  as it returns. An iterator is the key it stands at; the use of one whose entry is gone is
  \<open>Dangling\<close>. The main results: no iterator dangles and nobody is in the table beside a
  writer; every history is one of the atomic operations of \<open>Shared_Store\<close>, in an order in which
  each takes effect between its call and its return; and every call can return.
\<close>

section \<open>Calls, answers and code points\<close>

datatype table_call =
    Do_Put string bytes int
  | Do_Get string
  | Do_Take string
  | Do_Sweep
  | Do_List string
  | Do_Size

datatype table_answer =
    Put_Answer
  | Get_Answer "bytes option"
  | Take_Answer "bytes option"
  | Sweep_Answer nat
  | List_Answer "(string \<times> bytes) list"
  | Size_Answer nat

text \<open>\<open>std::unique_lock\<close> or \<open>std::shared_lock\<close>.\<close>

fun exclusive_call :: "table_call \<Rightarrow> bool" where
  "exclusive_call (Do_Put key val ttl) = True"
| "exclusive_call (Do_Get key) = False"
| "exclusive_call (Do_Take key) = True"
| "exclusive_call Do_Sweep = True"
| "exclusive_call (Do_List prefix) = False"
| "exclusive_call Do_Size = False"

text \<open>
  Where a thread is: outside, before the constructor of its lock, after it, at the points of the
  bodies, or with its answer before the destructor of the lock. A loop has the keys still before
  it and the readings of the clock it made.
\<close>

datatype store_pc =
    Away
  | At_Lock table_call
  | Locked table_call
  | Put_Timed string bytes int time
  | Get_Found string
  | Get_Fresh string
  | Take_Found string
  | Take_Fresh string time
  | Take_Moved string bytes time
  | Sweep_At iteration "string list" nat "time list"
  | List_At iteration string "string list" "(string \<times> bytes) list" "time list"
  | Leaving table_call table_answer
  | Dangling

fun pc_call :: "store_pc \<Rightarrow> table_call option" where
  "pc_call Away = None"
| "pc_call (At_Lock c) = None"
| "pc_call (Locked c) = Some c"
| "pc_call (Put_Timed key val ttl t) = Some (Do_Put key val ttl)"
| "pc_call (Get_Found key) = Some (Do_Get key)"
| "pc_call (Get_Fresh key) = Some (Do_Get key)"
| "pc_call (Take_Found key) = Some (Do_Take key)"
| "pc_call (Take_Fresh key t) = Some (Do_Take key)"
| "pc_call (Take_Moved key v t) = Some (Do_Take key)"
| "pc_call (Sweep_At iter ks n rs) = Some Do_Sweep"
| "pc_call (List_At iter prefix ks out rs) = Some (Do_List prefix)"
| "pc_call (Leaving c r) = Some c"
| "pc_call Dangling = None"

definition in_body :: "store_pc \<Rightarrow> bool" where
  "in_body pc \<longleftrightarrow> pc_call pc \<noteq> None \<and> (\<forall>c r. pc \<noteq> Leaving c r)"

section \<open>The bodies\<close>

text \<open>
  What an operation did, logged where it takes effect, with the reading of the clock that decided
  it: a put and a take where they change the table, a get where it finds nothing or checks the
  expiry of what it found, the loops at their end.
\<close>

record table_commit =
  cm_call :: table_call
  cm_iter :: iteration
  cm_readings :: "time list"
  cm_time :: time
  cm_answer :: table_answer

definition committed :: "table_call \<Rightarrow> time \<Rightarrow> table_answer \<Rightarrow> table_commit" where
  "committed c t r = \<lparr>cm_call = c, cm_iter = id, cm_readings = [], cm_time = t, cm_answer = r\<rparr>"

fun run_locked :: "iteration \<Rightarrow> time \<Rightarrow> table_call \<Rightarrow> shared_store
    \<Rightarrow> store_pc \<times> shared_store \<times> table_commit list" where
  "run_locked iter now (Do_Put key val ttl) st =
     (Put_Timed key val ttl now, st, [])"
| "run_locked iter now (Do_Get key) st =
     (case map_of (entries st) key of
        None \<Rightarrow> (Leaving (Do_Get key) (Get_Answer None), st, [committed (Do_Get key) now (Get_Answer None)])
      | Some en \<Rightarrow> (Get_Found key, st, []))"
| "run_locked iter now (Do_Take key) st =
     (case map_of (entries st) key of
        None \<Rightarrow> (Leaving (Do_Take key) (Take_Answer None), st, [committed (Do_Take key) now (Take_Answer None)])
      | Some en \<Rightarrow> (Take_Found key, st, []))"
| "run_locked iter now Do_Sweep st =
     (Sweep_At iter (map fst (iter (entries st))) 0 [], st\<lparr>entries := iter (entries st)\<rparr>, [])"
| "run_locked iter now (Do_List prefix) st =
     (List_At iter prefix (map fst (iter (entries st))) [] [], st, [])"
| "run_locked iter now Do_Size st =
     (Leaving Do_Size (Size_Answer (store_size st)), st,
      [committed Do_Size now (Size_Answer (store_size st))])"

text \<open>
  One step of the code under the lock. The order of the list of entries has no meaning, and a sweep
  brings it into the order in which it visits them.
\<close>

fun run_body :: "iteration \<Rightarrow> time \<Rightarrow> store_pc \<Rightarrow> shared_store
    \<Rightarrow> store_pc \<times> shared_store \<times> table_commit list" where
  "run_body iter now (Locked c) st = run_locked iter now c st"
| "run_body iter now (Put_Timed key val ttl t) st =
     (Leaving (Do_Put key val ttl) Put_Answer, store_put key val ttl t st,
      [committed (Do_Put key val ttl) t Put_Answer])"
| "run_body iter now (Get_Found key) st =
     (case map_of (entries st) key of
        None \<Rightarrow> (Dangling, st, [])
      | Some en \<Rightarrow>
          if is_expired now en
          then (Leaving (Do_Get key) (Get_Answer None), st, [committed (Do_Get key) now (Get_Answer None)])
          else (Get_Fresh key, st, [committed (Do_Get key) now (Get_Answer (Some (entry_value en)))]))"
| "run_body iter now (Get_Fresh key) st =
     (case map_of (entries st) key of
        None \<Rightarrow> (Dangling, st, [])
      | Some en \<Rightarrow> (Leaving (Do_Get key) (Get_Answer (Some (entry_value en))), st, []))"
| "run_body iter now (Take_Found key) st =
     (case map_of (entries st) key of
        None \<Rightarrow> (Dangling, st, [])
      | Some en \<Rightarrow>
          if is_expired now en
          then (Leaving (Do_Take key) (Take_Answer None), st, [committed (Do_Take key) now (Take_Answer None)])
          else (Take_Fresh key now, st, []))"
| "run_body iter now (Take_Fresh key t) st =
     (case map_of (entries st) key of
        None \<Rightarrow> (Dangling, st, [])
      | Some en \<Rightarrow> (Take_Moved key (entry_value en) t,
          st\<lparr>entries := AList.update key (en\<lparr>entry_value := []\<rparr>) (entries st)\<rparr>, []))"
| "run_body iter now (Take_Moved key v t) st =
     (case map_of (entries st) key of
        None \<Rightarrow> (Dangling, st, [])
      | Some en \<Rightarrow> (Leaving (Do_Take key) (Take_Answer (Some v)),
          st\<lparr>entries := AList.delete key (entries st)\<rparr>,
          [committed (Do_Take key) t (Take_Answer (Some v))]))"
| "run_body iter now (Sweep_At it [] n rs) st =
     (Leaving Do_Sweep (Sweep_Answer n), st,
      [\<lparr>cm_call = Do_Sweep, cm_iter = it, cm_readings = rs, cm_time = now, cm_answer = Sweep_Answer n\<rparr>])"
| "run_body iter now (Sweep_At it (k # ks) n rs) st =
     (case map_of (entries st) k of
        None \<Rightarrow> (Dangling, st, [])
      | Some en \<Rightarrow>
          if is_expired now en
          then (Sweep_At it ks (Suc n) (rs @ [now]), st\<lparr>entries := AList.delete k (entries st)\<rparr>, [])
          else (Sweep_At it ks n (rs @ [now]), st, []))"
| "run_body iter now (List_At it prefix [] out rs) st =
     (Leaving (Do_List prefix) (List_Answer out), st,
      [\<lparr>cm_call = Do_List prefix, cm_iter = it, cm_readings = rs, cm_time = now,
        cm_answer = List_Answer out\<rparr>])"
| "run_body iter now (List_At it prefix (k # ks) out rs) st =
     (case map_of (entries st) k of
        None \<Rightarrow> (Dangling, st, [])
      | Some en \<Rightarrow>
          if is_expired now en then (List_At it prefix ks out (rs @ [now]), st, [])
          else if key_has_prefix prefix k
            then (List_At it prefix ks (out @ [(k, entry_value en)]) (rs @ [now]), st, [])
          else (List_At it prefix ks out (rs @ [now]), st, []))"
| "run_body iter now pc st = (pc, st, [])"

section \<open>The threads\<close>

record table_state =
  tb_store :: shared_store
  tb_now :: time
  tb_writer :: "nat option"
  tb_readers :: "nat set"
  tb_at :: "nat \<Rightarrow> store_pc"

datatype table_event =
    Invoked nat table_call
  | Committed nat table_commit
  | Answered nat table_answer

definition tb_goes :: "nat \<Rightarrow> store_pc \<Rightarrow> table_state \<Rightarrow> table_state" where
  "tb_goes i pc s = s\<lparr>tb_at := (tb_at s)(i := pc)\<rparr>"

text \<open>\<open>std::shared_mutex\<close>: one writer and no reader, or any number of readers.\<close>

definition can_lock :: "table_call \<Rightarrow> table_state \<Rightarrow> bool" where
  "can_lock c s \<longleftrightarrow> tb_writer s = None \<and> (exclusive_call c \<longrightarrow> tb_readers s = {})"

definition lock_table :: "nat \<Rightarrow> table_call \<Rightarrow> table_state \<Rightarrow> table_state" where
  "lock_table i c s =
     (if exclusive_call c then s\<lparr>tb_writer := Some i\<rparr>
      else s\<lparr>tb_readers := insert i (tb_readers s)\<rparr>)"

definition unlock_table :: "nat \<Rightarrow> table_call \<Rightarrow> table_state \<Rightarrow> table_state" where
  "unlock_table i c s =
     (if exclusive_call c then s\<lparr>tb_writer := None\<rparr>
      else s\<lparr>tb_readers := tb_readers s - {i}\<rparr>)"

inductive table_step :: "table_state \<Rightarrow> table_event list \<Rightarrow> table_state \<Rightarrow> bool" where
  invoke: "tb_at s i = Away \<Longrightarrow> table_step s [Invoked i c] (tb_goes i (At_Lock c) s)"
| lock: "\<lbrakk>tb_at s i = At_Lock c; can_lock c s\<rbrakk> \<Longrightarrow>
     table_step s [] (tb_goes i (Locked c) (lock_table i c s))"
| run: "\<lbrakk>tb_at s i = pc; in_body pc; is_iteration iter;
      run_body iter (tb_now s) pc (tb_store s) = (pc', st', cms)\<rbrakk> \<Longrightarrow>
     table_step s (map (Committed i) cms) (tb_goes i pc' (s\<lparr>tb_store := st'\<rparr>))"
| leave: "tb_at s i = Leaving c r \<Longrightarrow>
     table_step s [Answered i r] (tb_goes i Away (unlock_table i c s))"
| tick: "tb_now s \<le> t \<Longrightarrow> table_step s [] (s\<lparr>tb_now := t\<rparr>)"

inductive table_run :: "table_state \<Rightarrow> table_event list \<Rightarrow> table_state \<Rightarrow> bool" for s where
  here: "table_run s [] s"
| step: "\<lbrakk>table_run s log s'; table_step s' evs s''\<rbrakk> \<Longrightarrow> table_run s (log @ evs) s''"

definition table_start :: "time \<Rightarrow> table_state" where
  "table_start t = \<lparr>tb_store = empty_store, tb_now = t, tb_writer = None, tb_readers = {},
     tb_at = (\<lambda>_. Away)\<rparr>"

section \<open>The sequential operations\<close>

definition clock_of :: "time list \<Rightarrow> time \<Rightarrow> nat \<Rightarrow> time" where
  "clock_of rs t j = (if j < length rs then rs ! j else t)"

fun apply_call :: "iteration \<Rightarrow> time list \<Rightarrow> time \<Rightarrow> table_call \<Rightarrow> shared_store
    \<Rightarrow> table_answer \<times> shared_store" where
  "apply_call iter rs t (Do_Put key val ttl) st = (Put_Answer, store_put key val ttl t st)"
| "apply_call iter rs t (Do_Get key) st = (Get_Answer (store_get key t st), st)"
| "apply_call iter rs t (Do_Take key) st =
     (case store_take key t st of (v, st') \<Rightarrow> (Take_Answer v, st'))"
| "apply_call iter rs t Do_Sweep st =
     (case sweep_expired iter (clock_of rs t) st of (n, st') \<Rightarrow> (Sweep_Answer n, st'))"
| "apply_call iter rs t (Do_List prefix) st =
     (List_Answer (store_list_prefix iter (clock_of rs t) prefix st), st)"
| "apply_call iter rs t Do_Size st = (Size_Answer (store_size st), st)"

text \<open>The operations of a history one after the other, each with the answer it gave.\<close>

fun replay :: "table_commit list \<Rightarrow> shared_store \<Rightarrow> shared_store option" where
  "replay [] st = Some st"
| "replay (cm # cms) st =
     (let (r, st') = apply_call (cm_iter cm) (cm_readings cm) (cm_time cm) (cm_call cm) st
      in if r = cm_answer cm then replay cms st' else None)"

fun commits :: "table_event list \<Rightarrow> table_commit list" where
  "commits [] = []"
| "commits (Committed i cm # log) = cm # commits log"
| "commits (Invoked i c # log) = commits log"
| "commits (Answered i r # log) = commits log"

text \<open>The history of one thread: a call, then its effect, then its answer.\<close>

datatype call_phase = No_Call | Pending table_call | Replied table_answer | Broken

fun event_thread :: "table_event \<Rightarrow> nat" where
  "event_thread (Invoked i c) = i"
| "event_thread (Committed i cm) = i"
| "event_thread (Answered i r) = i"

fun next_phase :: "call_phase \<Rightarrow> table_event \<Rightarrow> call_phase" where
  "next_phase No_Call (Invoked i c) = Pending c"
| "next_phase (Pending c) (Committed i cm) = (if cm_call cm = c then Replied (cm_answer cm) else Broken)"
| "next_phase (Replied r) (Answered i r') = (if r' = r then No_Call else Broken)"
| "next_phase _ _ = Broken"

definition call_phase :: "nat \<Rightarrow> table_event list \<Rightarrow> call_phase" where
  "call_phase i log = foldl next_phase No_Call (filter (\<lambda>e. event_thread e = i) log)"

section \<open>The loops in parts\<close>

lemma sweep_loop_append:
  assumes "sweep_loop clk i ds = (kept, n)"
  shows "sweep_loop clk i (ds @ es) =
    (kept @ fst (sweep_loop clk (i + length ds) es), n + snd (sweep_loop clk (i + length ds) es))"
  using assms
  by (induction ds arbitrary: i kept n) (auto simp: Let_def split: prod.splits if_splits)

lemma list_prefix_loop_append:
  "list_prefix_loop prefix clk i (ds @ es) =
     list_prefix_loop prefix clk i ds @ list_prefix_loop prefix clk (i + length ds) es"
  by (induction ds arbitrary: i) auto

lemma sweep_loop_cong:
  assumes "\<And>j. j < i + length es \<Longrightarrow> clk j = clk' j"
  shows "sweep_loop clk i es = sweep_loop clk' i es"
  using assms by (induction es arbitrary: i) auto

lemma delete_visited:
  assumes "distinct (map fst (kept @ (k, en) # es))"
  shows "AList.delete k (kept @ (k, en) # es) = kept @ es"
proof -
  have "filter (\<lambda>p. k \<noteq> fst p) kept = kept" "filter (\<lambda>p. k \<noteq> fst p) es = es"
    using assms by (auto simp: filter_id_conv image_iff)
  then show ?thesis by (simp add: AList.delete_eq case_prod_unfold)
qed

lemma delete_moved: "AList.delete k (AList.update k en es) = AList.delete k es"
  by (induction es) auto

section \<open>The invariant\<close>

text \<open>
  What holds of a thread at each point: \<open>base\<close> is the table as the operations in effect left it,
  \<open>st\<close> the table in memory, \<open>ts\<close> the times of those operations and \<open>ph\<close> the phase of the thread.
\<close>

definition between :: "time list \<Rightarrow> time \<Rightarrow> time \<Rightarrow> bool" where
  "between ts t now \<longleftrightarrow> (\<forall>u \<in> set ts. u \<le> t) \<and> t \<le> now"

definition readings_ok :: "time list \<Rightarrow> time \<Rightarrow> bool" where
  "readings_ok rs now \<longleftrightarrow> (\<forall>r \<in> set rs. r \<le> now)"

fun pc_ok :: "shared_store \<Rightarrow> shared_store \<Rightarrow> time list \<Rightarrow> time \<Rightarrow> call_phase \<Rightarrow> store_pc \<Rightarrow> bool" where
  "pc_ok base st ts now ph Away = (ph = No_Call)"
| "pc_ok base st ts now ph (At_Lock c) = (ph = Pending c)"
| "pc_ok base st ts now ph (Locked c) = (ph = Pending c \<and> st = base)"
| "pc_ok base st ts now ph (Put_Timed key val ttl t) =
     (ph = Pending (Do_Put key val ttl) \<and> st = base \<and> between ts t now)"
| "pc_ok base st ts now ph (Get_Found key) =
     (ph = Pending (Do_Get key) \<and> st = base \<and> map_of (entries st) key \<noteq> None)"
| "pc_ok base st ts now ph (Get_Fresh key) =
     (\<exists>en. st = base \<and> map_of (entries st) key = Some en \<and>
        ph = Replied (Get_Answer (Some (entry_value en))))"
| "pc_ok base st ts now ph (Take_Found key) =
     (ph = Pending (Do_Take key) \<and> st = base \<and> map_of (entries st) key \<noteq> None)"
| "pc_ok base st ts now ph (Take_Fresh key t) =
     (\<exists>en. ph = Pending (Do_Take key) \<and> st = base \<and> map_of (entries st) key = Some en \<and>
        \<not> is_expired t en \<and> between ts t now)"
| "pc_ok base st ts now ph (Take_Moved key v t) =
     (\<exists>en. ph = Pending (Do_Take key) \<and> map_of (entries base) key = Some en \<and> v = entry_value en \<and>
        st = base\<lparr>entries := AList.update key (en\<lparr>entry_value := []\<rparr>) (entries base)\<rparr> \<and>
        \<not> is_expired t en \<and> between ts t now)"
| "pc_ok base st ts now ph (Sweep_At iter ks n rs) =
     (\<exists>ds es kept. ph = Pending Do_Sweep \<and> is_iteration iter \<and> iter (entries base) = ds @ es \<and>
        ks = map fst es \<and> length rs = length ds \<and> sweep_loop ((!) rs) 0 ds = (kept, n) \<and>
        st = base\<lparr>entries := kept @ es\<rparr> \<and> readings_ok rs now)"
| "pc_ok base st ts now ph (List_At iter prefix ks out rs) =
     (\<exists>ds es. ph = Pending (Do_List prefix) \<and> st = base \<and> is_iteration iter \<and>
        iter (entries base) = ds @ es \<and> ks = map fst es \<and> length rs = length ds \<and>
        out = list_prefix_loop prefix ((!) rs) 0 ds \<and> readings_ok rs now)"
| "pc_ok base st ts now ph (Leaving c r) = (ph = Replied r \<and> st = base)"
| "pc_ok base st ts now ph Dangling = False"

lemma pc_ok_outside: "pc_call pc = None \<Longrightarrow> pc_ok base st ts now ph pc = pc_ok base' st' ts' now' ph pc"
  by (cases pc) auto

lemma readings_ok_mono: "readings_ok rs now \<Longrightarrow> now \<le> now' \<Longrightarrow> readings_ok rs now'"
  by (auto simp: readings_ok_def)

lemma between_mono: "between ts t now \<Longrightarrow> now \<le> now' \<Longrightarrow> between ts t now'"
  by (auto simp: between_def)

lemma pc_ok_shared:
  "pc_ok base st ts now ph pc \<Longrightarrow> pc_call pc = Some c \<Longrightarrow> \<not> exclusive_call c \<Longrightarrow> now \<le> now' \<Longrightarrow>
     st = base \<and> pc_ok base st ts' now' ph pc"
  by (cases pc) (simp_all, auto, (blast intro: readings_ok_mono)+)

lemma pc_ok_later: "pc_ok base st ts now ph pc \<Longrightarrow> now \<le> now' \<Longrightarrow> pc_ok base st ts now' ph pc"
  by (cases pc) (simp_all, (blast intro: readings_ok_mono between_mono)+)

definition commit_ok :: "time list \<Rightarrow> time \<Rightarrow> table_commit \<Rightarrow> bool" where
  "commit_ok ts now cm \<longleftrightarrow> is_iteration (cm_iter cm) \<and> readings_ok (cm_readings cm) (cm_time cm) \<and>
     between ts (cm_time cm) now"

text \<open>One step of a body, for the thread that takes it.\<close>

definition step_ok :: "shared_store \<Rightarrow> shared_store \<Rightarrow> time list \<Rightarrow> time \<Rightarrow> call_phase \<Rightarrow> store_pc
    \<Rightarrow> store_pc \<times> shared_store \<times> table_commit list \<Rightarrow> bool" where
  "step_ok base st ts now ph pc = (\<lambda>(pc', st', cms).
     \<exists>base'. replay cms base = Some base' \<and> wf_store base' \<and>
       pc_ok base' st' (ts @ map cm_time cms) now (foldl next_phase ph (map (Committed 0) cms)) pc' \<and>
       pc_call pc' = pc_call pc \<and> length cms \<le> 1 \<and> (\<forall>cm \<in> set cms. commit_ok ts now cm) \<and>
       (\<forall>c. pc_call pc = Some c \<longrightarrow> \<not> exclusive_call c \<longrightarrow> base' = base \<and> st' = st))"

lemma step_okI:
  "replay cms base = Some base' \<Longrightarrow> wf_store base' \<Longrightarrow>
     pc_ok base' st' (ts @ map cm_time cms) now (foldl next_phase ph (map (Committed 0) cms)) pc' \<Longrightarrow>
     pc_call pc' = pc_call pc \<Longrightarrow> length cms \<le> 1 \<Longrightarrow> (\<And>cm. cm \<in> set cms \<Longrightarrow> commit_ok ts now cm) \<Longrightarrow>
     (\<And>c. pc_call pc = Some c \<Longrightarrow> \<not> exclusive_call c \<Longrightarrow> base' = base \<and> st' = st) \<Longrightarrow>
     step_ok base st ts now ph pc (pc', st', cms)"
  by (auto simp: step_ok_def)

text \<open>The bodies, point by point.\<close>

lemma locked_ok:
  assumes "pc_ok base st ts now ph (Locked c)" and "wf_store base" and "\<forall>u \<in> set ts. u \<le> now"
    and "is_iteration iter"
  shows "step_ok base st ts now ph (Locked c) (run_locked iter now c st)"
proof (cases c)
  case Do_Sweep
  with assms show ?thesis by (auto intro!: step_okI simp: readings_ok_def)
next
  case (Do_List prefix)
  with assms show ?thesis by (auto intro!: step_okI simp: readings_ok_def)
qed (use assms in \<open>auto intro!: step_okI split: option.splits
      simp: committed_def commit_ok_def readings_ok_def between_def is_iteration_def store_get_def store_take_def\<close>)

lemma put_ok:
  assumes "pc_ok base st ts now ph (Put_Timed key val ttl t)" and "wf_store base"
  shows "step_ok base st ts now ph (Put_Timed key val ttl t)
    (run_body iter now (Put_Timed key val ttl t) st)"
  using assms by (auto intro!: step_okI simp: committed_def commit_ok_def readings_ok_def is_iteration_def)

lemma get_ok:
  assumes "pc_ok base st ts now ph (Get_Found key)" and "wf_store base" and "\<forall>u \<in> set ts. u \<le> now"
  shows "step_ok base st ts now ph (Get_Found key) (run_body iter now (Get_Found key) st)"
  using assms by (auto intro!: step_okI split: option.splits
      simp: committed_def commit_ok_def readings_ok_def between_def is_iteration_def store_get_def)

lemma fresh_ok:
  assumes "pc_ok base st ts now ph (Get_Fresh key)" and "wf_store base"
  shows "step_ok base st ts now ph (Get_Fresh key) (run_body iter now (Get_Fresh key) st)"
  using assms by (auto intro!: step_okI)

lemma take_found_ok:
  assumes "pc_ok base st ts now ph (Take_Found key)" and "wf_store base" and "\<forall>u \<in> set ts. u \<le> now"
  shows "step_ok base st ts now ph (Take_Found key) (run_body iter now (Take_Found key) st)"
  using assms by (auto intro!: step_okI split: option.splits
      simp: committed_def commit_ok_def readings_ok_def between_def is_iteration_def store_take_def)

lemma take_fresh_ok:
  assumes "pc_ok base st ts now ph (Take_Fresh key t)" and "wf_store base"
  shows "step_ok base st ts now ph (Take_Fresh key t) (run_body iter now (Take_Fresh key t) st)"
  using assms by (auto intro!: step_okI [where base' = base])

lemma take_moved_ok:
  assumes "pc_ok base st ts now ph (Take_Moved key v t)" and "wf_store base"
  shows "step_ok base st ts now ph (Take_Moved key v t) (run_body iter now (Take_Moved key v t) st)"
proof -
  from assms(1) obtain en where en: "map_of (entries base) key = Some en" "\<not> is_expired t en" "v = entry_value en"
    "ph = Pending (Do_Take key)" "between ts t now"
    "st = base\<lparr>entries := AList.update key (en\<lparr>entry_value := []\<rparr>) (entries base)\<rparr>" by auto
  have take: "store_take key t base = (Some v, base\<lparr>entries := AList.delete key (entries base)\<rparr>)"
    using en by (simp add: store_take_def)
  then have "wf_store (base\<lparr>entries := AList.delete key (entries base)\<rparr>)"
    using wf_store_take [OF assms(2), of key t] by simp
  with en take show ?thesis
    by (auto intro!: step_okI simp: update_conv' delete_moved committed_def commit_ok_def readings_ok_def is_iteration_def)
qed

lemma visited_distinct:
  assumes "wf_store base" and "is_iteration iter" and "iter (entries base) = ds @ es"
    and "sweep_loop clk 0 ds = (kept, n)"
  shows "distinct (map fst (kept @ es))"
proof -
  have "distinct (map fst (iter (entries base)))"
    using assms(1) by (simp add: distinct_iteration [OF assms(2)] wf_store_def)
  then have "distinct (map fst (ds @ es))" unfolding assms(3) .
  moreover have "set kept \<subseteq> set ds" "distinct (map fst ds) \<longrightarrow> distinct (map fst kept)"
    using sweep_loop_kept [OF assms(4)] by auto
  moreover have "fst ` set kept \<inter> fst ` set es \<subseteq> fst ` set ds \<inter> fst ` set es"
    using \<open>set kept \<subseteq> set ds\<close> by (intro Int_mono image_mono order_refl)
  ultimately show ?thesis by simp
qed

lemma readings_ok_snoc: "readings_ok rs now \<Longrightarrow> readings_ok (rs @ [now]) now"
  by (auto simp: readings_ok_def)

lemma pc_ok_sweepI:
  "it (entries base) = ds @ es \<Longrightarrow> ks = map fst es \<Longrightarrow> length rs = length ds \<Longrightarrow>
     sweep_loop ((!) rs) 0 ds = (kept, n) \<Longrightarrow> st = base\<lparr>entries := kept @ es\<rparr> \<Longrightarrow>
     readings_ok rs now \<Longrightarrow> is_iteration it \<Longrightarrow> ph = Pending Do_Sweep \<Longrightarrow>
     pc_ok base st ts now ph (Sweep_At it ks n rs)"
  by fastforce

lemma pc_ok_listI:
  "it (entries base) = ds @ es \<Longrightarrow> ks = map fst es \<Longrightarrow> length rs = length ds \<Longrightarrow>
     out = list_prefix_loop prefix ((!) rs) 0 ds \<Longrightarrow> st = base \<Longrightarrow> readings_ok rs now \<Longrightarrow>
     is_iteration it \<Longrightarrow> ph = Pending (Do_List prefix) \<Longrightarrow>
     pc_ok base st ts now ph (List_At it prefix ks out rs)"
  by auto

lemma sweep_turn_ok:
  assumes ok: "pc_ok base st ts now ph (Sweep_At it (k # ks) n rs)" and wf: "wf_store base"
  shows "step_ok base st ts now ph (Sweep_At it (k # ks) n rs)
    (run_body iter now (Sweep_At it (k # ks) n rs) st)"
proof -
  from ok obtain ds es kept where at: "ph = Pending Do_Sweep" "is_iteration it"
    "it (entries base) = ds @ es" "k # ks = map fst es" "length rs = length ds"
    "sweep_loop ((!) rs) 0 ds = (kept, n)" "st = base\<lparr>entries := kept @ es\<rparr>" "readings_ok rs now"
    by auto
  obtain en es' where es: "es = (k, en) # es'" using at(4) by (cases es) auto
  have dist: "distinct (map fst (kept @ (k, en) # es'))"
    using visited_distinct [OF wf at(2,3,6)] es by simp
  have found: "map_of (entries st) k = Some en"
    unfolding at(7) es by (simp del: map_of_append add: map_of_is_SomeI [OF dist])
  have "sweep_loop ((!) (rs @ [now])) 0 ds = (kept, n)"
    using at(5,6) by (subst sweep_loop_cong [where clk' = "(!) rs"]) (auto simp: nth_append)
  from sweep_loop_append [OF this, of "[(k, en)]"]
  have turn: "sweep_loop ((!) (rs @ [now])) 0 (ds @ [(k, en)]) =
      (if is_expired now en then (kept, Suc n) else (kept @ [(k, en)], n))"
    using at(5) by (simp add: nth_append)
  have split: "it (entries base) = (ds @ [(k, en)]) @ es'" using at(3) es by simp
  have erase: "AList.delete k (kept @ (k, en) # es') = kept @ es'" by (rule delete_visited [OF dist])
  show ?thesis
  proof (cases "is_expired now en")
    case True
    then have "pc_ok base (base\<lparr>entries := kept @ es'\<rparr>) ts now ph (Sweep_At it ks (Suc n) (rs @ [now]))"
      using at es turn split by (intro pc_ok_sweepI [where ds = "ds @ [(k, en)]" and es = es']) (auto intro: readings_ok_snoc)
    with True found wf at(7) es erase show ?thesis by (auto intro!: step_okI simp del: pc_ok.simps)
  next
    case False
    then have "pc_ok base st ts now ph (Sweep_At it ks n (rs @ [now]))"
      using at es turn split by (intro pc_ok_sweepI [where ds = "ds @ [(k, en)]" and es = es']) (auto intro: readings_ok_snoc)
    with False found wf show ?thesis by (auto intro!: step_okI simp del: pc_ok.simps)
  qed
qed

lemma sweep_end_ok:
  assumes ok: "pc_ok base st ts now ph (Sweep_At it [] n rs)" and wf: "wf_store base"
    and "\<forall>u \<in> set ts. u \<le> now"
  shows "step_ok base st ts now ph (Sweep_At it [] n rs) (run_body iter now (Sweep_At it [] n rs) st)"
proof -
  from ok obtain ds kept where at: "ph = Pending Do_Sweep" "is_iteration it"
    "it (entries base) = ds" "length rs = length ds"
    "sweep_loop ((!) rs) 0 ds = (kept, n)" "st = base\<lparr>entries := kept\<rparr>" "readings_ok rs now" by auto
  have "sweep_loop (clock_of rs now) 0 ds = (kept, n)"
    using at(4,5) by (subst sweep_loop_cong [where clk' = "(!) rs"]) (auto simp: clock_of_def)
  then have sweep: "sweep_expired it (clock_of rs now) base = (n, st)"
    using at by (simp add: sweep_expired_def)
  then have "wf_store st" using wf_store_sweep [OF at(2) wf, of "clock_of rs now"] by simp
  with sweep at assms(3) show ?thesis
    by (auto intro!: step_okI simp: commit_ok_def between_def)
qed

lemma list_turn_ok:
  assumes ok: "pc_ok base st ts now ph (List_At it prefix (k # ks) out rs)" and wf: "wf_store base"
  shows "step_ok base st ts now ph (List_At it prefix (k # ks) out rs)
    (run_body iter now (List_At it prefix (k # ks) out rs) st)"
proof -
  from ok obtain ds es where at: "ph = Pending (Do_List prefix)" "st = base" "is_iteration it"
    "it (entries base) = ds @ es" "k # ks = map fst es" "length rs = length ds"
    "out = list_prefix_loop prefix ((!) rs) 0 ds" "readings_ok rs now" by auto
  obtain en es' where es: "es = (k, en) # es'" using at(5) by (cases es) auto
  have "distinct (map fst (entries base))" using wf by (simp add: wf_store_def)
  moreover have "(k, en) \<in> set (entries base)"
    using at(4) es set_iteration [OF at(3), of "entries base"] by auto
  ultimately have found: "map_of (entries st) k = Some en" using at(2) by (simp add: map_of_is_SomeI)
  have "list_prefix_loop prefix ((!) (rs @ [now])) 0 ds = out"
    using at(6,7) by (subst list_prefix_loop_cong [where clk' = "(!) rs"]) (auto simp: nth_append)
  then have turn: "list_prefix_loop prefix ((!) (rs @ [now])) 0 (ds @ [(k, en)]) =
      (if \<not> is_expired now en \<and> key_has_prefix prefix k then out @ [(k, entry_value en)] else out)"
    using at(6) by (simp add: list_prefix_loop_append nth_append)
  define out' where "out' = (if \<not> is_expired now en \<and> key_has_prefix prefix k
    then out @ [(k, entry_value en)] else out)"
  have "pc_ok base st ts now ph (List_At it prefix ks out' (rs @ [now]))"
    using at es turn unfolding out'_def
    by (intro pc_ok_listI [where ds = "ds @ [(k, en)]" and es = es']) (auto intro: readings_ok_snoc)
  then show ?thesis
    using found wf by (auto intro!: step_okI simp: out'_def simp del: pc_ok.simps split: if_splits)
qed

lemma list_end_ok:
  assumes ok: "pc_ok base st ts now ph (List_At it prefix [] out rs)" and wf: "wf_store base"
    and "\<forall>u \<in> set ts. u \<le> now"
  shows "step_ok base st ts now ph (List_At it prefix [] out rs)
    (run_body iter now (List_At it prefix [] out rs) st)"
proof -
  from ok have at: "ph = Pending (Do_List prefix)" "st = base" "is_iteration it"
    "length rs = length (it (entries base))"
    "out = list_prefix_loop prefix ((!) rs) 0 (it (entries base))" "readings_ok rs now" by auto
  have "list_prefix_loop prefix (clock_of rs now) 0 (it (entries base)) = out"
    using at(4,5) by (subst list_prefix_loop_cong [where clk' = "(!) rs"]) (auto simp: clock_of_def)
  then have "store_list_prefix it (clock_of rs now) prefix base = out"
    by (simp add: store_list_prefix_def)
  with at wf assms(3) show ?thesis by (auto intro!: step_okI simp: commit_ok_def between_def)
qed

lemma body_ok:
  assumes "pc_ok base st ts now ph pc" and "wf_store base" and "\<forall>u \<in> set ts. u \<le> now"
    and "is_iteration iter" and "in_body pc"
  shows "step_ok base st ts now ph pc (run_body iter now pc st)"
proof (cases pc)
  case (Locked c)
  with locked_ok [of base st ts now ph c iter] assms show ?thesis by simp
next
  case (Sweep_At it ks n rs)
  with sweep_turn_ok sweep_end_ok assms show ?thesis by (cases ks) auto
next
  case (List_At it prefix ks out rs)
  with list_turn_ok list_end_ok assms show ?thesis by (cases ks) auto
qed (use assms put_ok get_ok fresh_ok take_found_ok take_fresh_ok take_moved_ok in \<open>auto simp: in_body_def simp del: run_body.simps pc_ok.simps\<close>)

section \<open>All reachable states\<close>

text \<open>The mutex is held by exactly the threads that are in the table, and a writer is alone.\<close>

definition writes :: "store_pc \<Rightarrow> bool" where
  "writes pc \<longleftrightarrow> (\<exists>c. pc_call pc = Some c \<and> exclusive_call c)"

definition reads :: "store_pc \<Rightarrow> bool" where
  "reads pc \<longleftrightarrow> (\<exists>c. pc_call pc = Some c \<and> \<not> exclusive_call c)"

definition locks_ok :: "table_state \<Rightarrow> bool" where
  "locks_ok s \<longleftrightarrow>
     (\<forall>i. tb_writer s = Some i \<longleftrightarrow> writes (tb_at s i)) \<and>
     (\<forall>i. i \<in> tb_readers s \<longleftrightarrow> reads (tb_at s i)) \<and>
     (tb_writer s \<noteq> None \<longrightarrow> tb_readers s = {})"

definition history_ok :: "table_event list \<Rightarrow> time \<Rightarrow> bool" where
  "history_ok log now \<longleftrightarrow> sorted (map cm_time (commits log)) \<and>
     (\<forall>cm \<in> set (commits log). is_iteration (cm_iter cm) \<and>
        readings_ok (cm_readings cm) (cm_time cm) \<and> cm_time cm \<le> now)"

definition table_ok :: "shared_store \<Rightarrow> table_event list \<Rightarrow> table_state \<Rightarrow> bool" where
  "table_ok base log s \<longleftrightarrow>
     replay (commits log) empty_store = Some base \<and> wf_store base \<and>
     (tb_writer s = None \<longrightarrow> tb_store s = base) \<and>
     (\<forall>i. pc_ok base (tb_store s) (map cm_time (commits log)) (tb_now s) (call_phase i log) (tb_at s i))"

lemma commits_append [simp]: "commits (log @ log') = commits log @ commits log'"
  by (induction log rule: commits.induct) auto

lemma commits_committed [simp]: "commits (map (Committed i) cms) = cms"
  by (induction cms) auto

lemma replay_append:
  "replay (cms @ cms') st = Option.bind (replay cms st) (replay cms')"
  by (induction cms arbitrary: st) (auto simp: Let_def split: prod.split)

lemma call_phase_append:
  "call_phase i (log @ evs) = foldl next_phase (call_phase i log) (filter (\<lambda>e. event_thread e = i) evs)"
  by (simp add: call_phase_def)

lemma next_phase_committed: "next_phase ph (Committed i cm) = next_phase ph (Committed 0 cm)"
  by (cases ph) auto

lemma foldl_committed:
  "foldl next_phase ph (map (Committed i) cms) = foldl next_phase ph (map (Committed 0) cms)"
  by (induction cms arbitrary: ph) (simp_all add: next_phase_committed [of _ i])

lemma filter_committed:
  "filter (\<lambda>e. event_thread e = j) (map (Committed i) cms) = (if i = j then map (Committed i) cms else [])"
  by (induction cms) auto

lemma pc_call_cases: "pc_call pc = None \<or> reads pc \<or> writes pc"
  by (cases "pc_call pc") (auto simp: reads_def writes_def)

lemma reads_not_writes: "reads pc \<Longrightarrow> \<not> writes pc"
  by (auto simp: reads_def writes_def)

lemma outside_idle: "pc_call pc = None \<Longrightarrow> \<not> reads pc \<and> \<not> writes pc"
  by (auto simp: reads_def writes_def)

lemma locks_one_writer: "locks_ok s \<Longrightarrow> writes (tb_at s i) \<Longrightarrow> writes (tb_at s j) \<Longrightarrow> j = i"
  unfolding locks_ok_def by (metis option.inject)

lemma locks_no_reader: "locks_ok s \<Longrightarrow> writes (tb_at s i) \<Longrightarrow> \<not> reads (tb_at s j)"
  unfolding locks_ok_def by (metis empty_iff option.distinct(1))

lemma writer_alone:
  "locks_ok s \<Longrightarrow> writes (tb_at s i) \<Longrightarrow> j \<noteq> i \<Longrightarrow> pc_call (tb_at s j) = None"
  using pc_call_cases locks_one_writer locks_no_reader by blast

lemma tb_goes_simps [simp]:
  "tb_store (tb_goes i pc s) = tb_store s" "tb_now (tb_goes i pc s) = tb_now s"
  "tb_writer (tb_goes i pc s) = tb_writer s" "tb_readers (tb_goes i pc s) = tb_readers s"
  "tb_at (tb_goes i pc s) = (tb_at s)(i := pc)"
  by (simp_all add: tb_goes_def)

lemma lock_simps [simp]:
  "tb_store (lock_table i c s) = tb_store s" "tb_now (lock_table i c s) = tb_now s"
  "tb_at (lock_table i c s) = tb_at s"
  "tb_store (unlock_table i c s) = tb_store s" "tb_now (unlock_table i c s) = tb_now s"
  "tb_at (unlock_table i c s) = tb_at s"
  by (simp_all add: lock_table_def unlock_table_def)

lemma pc_mode_simps [simp]:
  "\<not> reads Away" "\<not> writes Away" "\<not> reads (At_Lock c)" "\<not> writes (At_Lock c)"
  "reads (Locked c) \<longleftrightarrow> \<not> exclusive_call c" "writes (Locked c) \<longleftrightarrow> exclusive_call c"
  "reads (Leaving c r) \<longleftrightarrow> \<not> exclusive_call c" "writes (Leaving c r) \<longleftrightarrow> exclusive_call c"
  by (simp_all add: reads_def writes_def)

lemma locks_ok_goes:
  "locks_ok s \<Longrightarrow> reads pc = reads (tb_at s i) \<Longrightarrow> writes pc = writes (tb_at s i) \<Longrightarrow> locks_ok (tb_goes i pc s)"
  by (simp add: locks_ok_def)

lemma locks_ok_lock:
  "locks_ok s \<Longrightarrow> tb_at s i = At_Lock c \<Longrightarrow> can_lock c s \<Longrightarrow> locks_ok (tb_goes i (Locked c) (lock_table i c s))"
  by (cases "exclusive_call c") (auto simp: locks_ok_def can_lock_def lock_table_def)

lemma locks_ok_leave:
  assumes "locks_ok s" and "tb_at s i = Leaving c r"
  shows "locks_ok (tb_goes i Away (unlock_table i c s))"
proof (cases "exclusive_call c")
  case True
  then have "writes (tb_at s i)" using assms(2) by simp
  then have "\<And>j. j \<noteq> i \<Longrightarrow> \<not> writes (tb_at s j)" "\<And>j. \<not> reads (tb_at s j)"
    using locks_one_writer [OF assms(1)] locks_no_reader [OF assms(1)] by blast+
  with True assms show ?thesis by (auto simp: locks_ok_def unlock_table_def)
next
  case False
  with assms show ?thesis by (auto simp: locks_ok_def unlock_table_def)
qed

lemma locks_ok_step:
  assumes "locks_ok s" and "table_step s evs s'"
    and "\<And>i pc iter pc' st' cms. tb_at s i = pc \<Longrightarrow> in_body pc \<Longrightarrow> is_iteration iter \<Longrightarrow>
      run_body iter (tb_now s) pc (tb_store s) = (pc', st', cms) \<Longrightarrow> pc_call pc' = pc_call pc"
  shows "locks_ok s'"
  using assms(2)
proof cases
  case (invoke i c)
  with locks_ok_goes [OF assms(1), of "At_Lock c" i] show ?thesis by simp
next
  case (lock i c)
  with locks_ok_lock [OF assms(1)] show ?thesis by blast
next
  case (run i pc iter pc' st' cms)
  with assms(3) have "pc_call pc' = pc_call (tb_at s i)" by blast
  then have "locks_ok (tb_goes i pc' s)"
    by (intro locks_ok_goes [OF assms(1)]) (simp_all add: reads_def writes_def)
  then show ?thesis unfolding run(2) by (simp add: locks_ok_def)
next
  case (leave i c r)
  with locks_ok_leave [OF assms(1)] show ?thesis by blast
next
  case (tick t)
  with assms(1) show ?thesis by (simp add: locks_ok_def)
qed

text \<open>A step of a body keeps what holds of the other threads.\<close>

lemma others_ok:
  assumes locks: "locks_ok s" and pc: "pc_call (tb_at s i) = Some c" and j: "j \<noteq> i"
    and ok: "pc_ok base (tb_store s) ts (tb_now s) ph (tb_at s j)"
    and same: "\<not> exclusive_call c \<Longrightarrow> base' = base \<and> st' = tb_store s"
  shows "pc_ok base' st' ts' (tb_now s) ph (tb_at s j)"
proof (cases "pc_call (tb_at s j)")
  case None
  then show ?thesis using ok pc_ok_outside by blast
next
  case (Some c')
  have "\<not> writes (tb_at s i)" using writer_alone [OF locks _ j] Some by auto
  then have c: "\<not> exclusive_call c" using pc by (simp add: writes_def)
  then have "reads (tb_at s i)" using pc by (simp add: reads_def)
  then have "\<not> writes (tb_at s j)" using locks_no_reader [OF locks] by blast
  then have "\<not> exclusive_call c'" using Some by (simp add: writes_def)
  with pc_ok_shared [OF ok Some] same [OF c] show ?thesis by simp
qed

lemma table_ok_step:
  assumes locks: "locks_ok s" and ok: "table_ok base log s" and hist: "history_ok log (tb_now s)"
    and step: "table_step s evs s'"
  shows "\<exists>base'. table_ok base' (log @ evs) s' \<and> locks_ok s' \<and> history_ok (log @ evs) (tb_now s')"
proof -
  let ?ts = "map cm_time (commits log)"
  have wf: "wf_store base" and rep: "replay (commits log) empty_store = Some base"
    and free: "tb_writer s = None \<Longrightarrow> tb_store s = base"
    and pcs: "\<And>i. pc_ok base (tb_store s) ?ts (tb_now s) (call_phase i log) (tb_at s i)"
    using ok by (auto simp: table_ok_def)
  have past: "\<forall>u \<in> set ?ts. u \<le> tb_now s" using hist by (auto simp: history_ok_def)
  have body: "step_ok base (tb_store s) ?ts (tb_now s) (call_phase i log) (tb_at s i)
      (run_body iter (tb_now s) (tb_at s i) (tb_store s))"
    if "in_body (tb_at s i)" "is_iteration iter" for i iter
    by (rule body_ok [OF pcs wf past that(2,1)])
  have calls: "pc_call pc' = pc_call pc"
    if "tb_at s i = pc" "in_body pc" "is_iteration iter"
      "run_body iter (tb_now s) pc (tb_store s) = (pc', st', cms)" for i pc iter pc' st' cms
    using body [of i iter] that by (auto simp: step_ok_def)
  have locks': "locks_ok s'" by (rule locks_ok_step [OF locks step]) (rule calls)
  from step have "\<exists>base'. table_ok base' (log @ evs) s' \<and> history_ok (log @ evs) (tb_now s')"
  proof cases
    case (invoke i c)
    have "pc_ok base (tb_store s) ?ts (tb_now s) (call_phase j (log @ evs)) (tb_at s' j)" for j
      using pcs [of i] pcs [of j] invoke by (auto simp: call_phase_append)
    then have "table_ok base (log @ evs) s'" using invoke rep wf free by (simp add: table_ok_def)
    then show ?thesis using invoke hist by (auto simp: history_ok_def)
  next
    case (lock i c)
    then have "tb_store s = base" using free by (simp add: can_lock_def)
    then have "pc_ok base (tb_store s) ?ts (tb_now s) (call_phase j log) (tb_at s' j)" for j
      using pcs [of i] pcs [of j] lock by auto
    then have "table_ok base (log @ evs) s'"
      using lock rep wf \<open>tb_store s = base\<close> by (simp add: table_ok_def)
    then show ?thesis using lock hist by auto
  next
    case (run i pc iter pc' st' cms)
    obtain c where c: "pc_call (tb_at s i) = Some c" using run by (auto simp: in_body_def)
    from body [of i iter] run obtain base' where b: "replay cms base = Some base'" "wf_store base'"
      "pc_ok base' st' (?ts @ map cm_time cms) (tb_now s)
        (foldl next_phase (call_phase i log) (map (Committed 0) cms)) pc'"
      "length cms \<le> 1" "\<forall>cm \<in> set cms. commit_ok ?ts (tb_now s) cm"
      "\<not> exclusive_call c \<longrightarrow> base' = base \<and> st' = tb_store s"
      using c by (auto simp: step_ok_def)
    have "pc_ok base' st' (?ts @ map cm_time cms) (tb_now s) (call_phase j (log @ evs)) (tb_at s' j)" for j
    proof (cases "j = i")
      case True
      then show ?thesis using b(3) run
        by (simp add: call_phase_append filter_committed foldl_committed [of _ i])
    next
      case False
      then have "pc_ok base' st' (?ts @ map cm_time cms) (tb_now s) (call_phase j log) (tb_at s j)"
        using others_ok [OF locks c _ pcs] b(6) by blast
      then show ?thesis using False run by (simp add: call_phase_append filter_committed)
    qed
    moreover have "tb_writer s = None \<longrightarrow> st' = base'"
      using locks c b(6) free by (auto simp: locks_ok_def writes_def)
    ultimately have "table_ok base' (log @ evs) s'"
      using run rep b(1,2) by (simp add: table_ok_def replay_append)
    moreover have "history_ok (log @ evs) (tb_now s')"
      using b(4,5) hist run by (cases cms) (auto simp: history_ok_def commit_ok_def between_def sorted_append)
    ultimately show ?thesis by blast
  next
    case (leave i c r)
    have "tb_store s = base" using pcs [of i] leave by simp
    moreover have "pc_ok base (tb_store s) ?ts (tb_now s) (call_phase j (log @ evs)) (tb_at s' j)" for j
      using pcs [of i] pcs [of j] leave by (auto simp: call_phase_append)
    ultimately have "table_ok base (log @ evs) s'" using leave rep wf by (simp add: table_ok_def)
    then show ?thesis using leave hist by (auto simp: history_ok_def)
  next
    case (tick t)
    have "pc_ok base (tb_store s) ?ts t (call_phase j log) (tb_at s j)" for j
      by (rule pc_ok_later [OF pcs tick(3)])
    then have "table_ok base (log @ evs) s'" using tick rep wf free by (simp add: table_ok_def)
    then show ?thesis using tick hist by (fastforce simp: history_ok_def)
  qed
  with locks' show ?thesis by blast
qed

lemma table_run_ok:
  assumes "table_run (table_start t) log s"
  shows "\<exists>base. table_ok base log s \<and> locks_ok s \<and> history_ok log (tb_now s)"
  using assms
proof (induction rule: table_run.induct)
  case here
  show ?case
    by (auto simp: table_ok_def locks_ok_def history_ok_def table_start_def call_phase_def)
next
  case (step log s' evs s'')
  then show ?case using table_ok_step by blast
qed

section \<open>Linearizability\<close>

lemma phase_not_broken: "pc_ok base st ts now ph pc \<Longrightarrow> ph \<noteq> Broken"
  by (cases pc) auto

lemma linearizable_core:
  assumes "table_run (table_start t) log s"
  shows "(\<forall>i. call_phase i log \<noteq> Broken) \<and> history_ok log (tb_now s) \<and>
    (\<exists>st. replay (commits log) empty_store = Some st \<and> (tb_writer s = None \<longrightarrow> tb_store s = st))"
proof -
  obtain base where ok: "table_ok base log s" "history_ok log (tb_now s)"
    using table_run_ok [OF assms] by blast
  then have "call_phase i log \<noteq> Broken" for i
    using phase_not_broken unfolding table_ok_def by blast
  with ok show ?thesis by (auto simp: table_ok_def)
qed

lemma in_table_core:
  assumes "table_run (table_start t) log s"
  shows "tb_at s i \<noteq> Dangling \<and> (writes (tb_at s i) \<longrightarrow> (\<forall>j. j \<noteq> i \<longrightarrow> pc_call (tb_at s j) = None))"
proof -
  obtain base where ok: "table_ok base log s" "locks_ok s"
    using table_run_ok [OF assms] by blast
  have "tb_at s i \<noteq> Dangling"
  proof
    assume "tb_at s i = Dangling"
    moreover have "pc_ok base (tb_store s) (map cm_time (commits log)) (tb_now s) (call_phase i log) (tb_at s i)"
      using ok(1) by (simp add: table_ok_def)
    ultimately show False by simp
  qed
  then show ?thesis using writer_alone [OF ok(2)] by blast
qed

text \<open>The commands of a history that the map with deadlines knows, and their answers.\<close>

definition spec_command :: "table_commit \<Rightarrow> (time \<times> (iteration \<times> (nat \<Rightarrow> time)) store_cmd) option" where
  "spec_command cm = map_option (Pair (cm_time cm))
     (case cm_call cm of
        Do_Put key val ttl \<Rightarrow> Some (Cmd_Put key val ttl)
      | Do_Get key \<Rightarrow> Some (Cmd_Get key)
      | Do_Take key \<Rightarrow> Some (Cmd_Take key)
      | Do_Sweep \<Rightarrow> Some (Cmd_Sweep (cm_iter cm, clock_of (cm_readings cm) (cm_time cm)))
      | _ \<Rightarrow> None)"

fun spec_answer :: "table_answer \<Rightarrow> bytes option" where
  "spec_answer (Get_Answer r) = r"
| "spec_answer (Take_Answer r) = r"
| "spec_answer _ = None"

definition spec_commands :: "table_commit list \<Rightarrow> (time \<times> (iteration \<times> (nat \<Rightarrow> time)) store_cmd) list" where
  "spec_commands cms = List.map_filter spec_command cms"

definition spec_answers :: "table_commit list \<Rightarrow> ((iteration \<times> (nat \<Rightarrow> time)) store_cmd \<times> bytes option) list" where
  "spec_answers cms = List.map_filter
     (\<lambda>cm. map_option (\<lambda>p. (snd p, spec_answer (cm_answer cm))) (spec_command cm)) cms"

lemma spec_lists_simps [simp]:
  "spec_commands [] = []" "spec_answers [] = []"
  "spec_commands (cm # cms) = (case spec_command cm of None \<Rightarrow> [] | Some p \<Rightarrow> [p]) @ spec_commands cms"
  "spec_answers (cm # cms) = (case spec_command cm of None \<Rightarrow> []
     | Some p \<Rightarrow> [(snd p, spec_answer (cm_answer cm))]) @ spec_answers cms"
  by (auto simp: spec_commands_def spec_answers_def List.map_filter_def split: option.split)

lemma shared_stp_simps:
  "shared.stp t (Cmd_Put key val ttl) st = (None, store_put key val ttl t st)"
  "shared.stp t (Cmd_Get key) st = (store_get key t st, st)"
  "shared.stp t (Cmd_Take key) st = store_take key t st"
  "shared.stp t (Cmd_Sweep i) st = (None, snd (sweep_expired (fst i) (snd i) st))"
  by (simp_all add: shared.stp_def store_step_def shared_get_def shared_sweep_def)

lemma spec_answer_of:
  "Put_Answer = a \<Longrightarrow> spec_answer a = None" "Get_Answer r = a \<Longrightarrow> spec_answer a = r"
  "Take_Answer r = a \<Longrightarrow> spec_answer a = r" "Sweep_Answer n = a \<Longrightarrow> spec_answer a = None"
  by auto

lemma replay_steps:
  "replay cms st = Some st' \<Longrightarrow> run_steps shared.stp (spec_commands cms) st = (spec_answers cms, st')"
proof (induction cms arbitrary: st)
  case Nil
  then show ?case by simp
next
  case (Cons cm cms)
  then show ?case
    by (cases "cm_call cm")
      (auto simp: spec_command_def shared_stp_simps spec_answer_of Let_def split: prod.splits if_splits)
qed

lemma spec_commands_timed:
  "sorted (map cm_time cms) \<Longrightarrow> (\<forall>cm \<in> set cms. t \<le> cm_time cm) \<Longrightarrow> timed t (spec_commands cms)"
proof (induction cms arbitrary: t)
  case Nil
  then show ?case by simp
next
  case (Cons cm cms)
  then have "timed t (spec_commands cms)" "timed (cm_time cm) (spec_commands cms)" by simp_all
  with Cons.prems show ?case by (auto simp: spec_command_def split: option.split)
qed

lemma clock_of_le: "readings_ok rs t \<Longrightarrow> clock_of rs t j \<le> t"
  by (auto simp: clock_of_def readings_ok_def)

lemma spec_commands_ok:
  assumes "\<forall>cm \<in> set cms. is_iteration (cm_iter cm) \<and> readings_ok (cm_readings cm) (cm_time cm)"
  shows "\<forall>p \<in> set (spec_commands cms). cmd_ok (\<lambda>_ _ _. True) (\<lambda>_. True) shared_sweep_ok p"
  using assms
proof (induction cms)
  case Nil
  then show ?case by simp
next
  case (Cons cm cms)
  then show ?case
    by (cases "cm_call cm") (auto simp: spec_command_def cmd_ok_def shared_sweep_ok_def clock_of_le)
qed

lemma store_abs_empty [simp]: "store_abs empty_store = Map.empty"
  by (simp add: store_abs_def empty_store_def fun_eq_iff)

lemma concurrent_spec_core:
  assumes "table_run (table_start t) log s"
  shows "spec_answers (commits log) = fst (run_steps spec_step (spec_commands (commits log)) Map.empty)"
proof -
  obtain st where rep: "replay (commits log) empty_store = Some st"
    and hist: "history_ok log (tb_now s)"
    using linearizable_core [OF assms] by blast
  obtain t0 where t0: "\<forall>cm \<in> set (commits log). t0 \<le> cm_time cm"
    using hist by (cases "commits log") (auto simp: history_ok_def)
  have "spec_answers (commits log) = fst (run_steps shared.stp (spec_commands (commits log)) empty_store)"
    by (simp add: replay_steps [OF rep])
  also have "\<dots> = fst (run_steps spec_step (spec_commands (commits log)) Map.empty)"
    using shared.run_refines [OF shared_sim [OF wf_store_empty]
        spec_commands_timed [OF _ t0] spec_commands_ok] hist
    by (simp add: history_ok_def)
  finally show ?thesis .
qed

section \<open>Every call can return\<close>

lemma table_run_trans:
  "table_run s2 log2 s3 \<Longrightarrow> table_run s1 log1 s2 \<Longrightarrow> table_run s1 (log1 @ log2) s3"
  by (induction rule: table_run.induct) (auto simp flip: append_assoc intro: table_run.step)

lemma table_step_run: "table_step s evs s' \<Longrightarrow> table_run s evs s'"
  using table_run.step [OF table_run.here] by fastforce

text \<open>The steps that a thread has before it in the table, while it has the mutex.\<close>

fun pc_work :: "shared_store \<Rightarrow> store_pc \<Rightarrow> nat" where
  "pc_work st (Locked c) = 4 + length (entries st)"
| "pc_work st (Put_Timed key val ttl t) = 1"
| "pc_work st (Get_Found key) = 2"
| "pc_work st (Get_Fresh key) = 1"
| "pc_work st (Take_Found key) = 3"
| "pc_work st (Take_Fresh key t) = 2"
| "pc_work st (Take_Moved key v t) = 1"
| "pc_work st (Sweep_At it ks n rs) = 1 + length ks"
| "pc_work st (List_At it prefix ks out rs) = 1 + length ks"
| "pc_work st pc = 0"

lemma run_body_works:
  assumes "run_body id now pc st = (pc', st', cms)" and "in_body pc" and "pc' \<noteq> Dangling"
  shows "pc_work st' pc' < pc_work st pc"
proof (cases pc)
  case (Locked c)
  with assms show ?thesis by (cases c) (auto split: option.splits)
next
  case (Sweep_At it ks n rs)
  with assms show ?thesis by (cases ks) (auto split: option.splits if_splits)
next
  case (List_At it prefix ks out rs)
  with assms show ?thesis by (cases ks) (auto split: option.splits if_splits)
qed (use assms in \<open>auto simp: in_body_def split: option.splits if_splits\<close>)

lemma is_iteration_id: "is_iteration id"
  by (simp add: is_iteration_def)

lemma holder_returns:
  assumes "table_run (table_start t) log s" and "pc_call (tb_at s i) \<noteq> None"
  shows "\<exists>log' s' r. table_run s log' s' \<and> tb_at s' = (tb_at s)(i := Away) \<and> Answered i r \<in> set log'"
  using assms
proof (induction "pc_work (tb_store s) (tb_at s i)" arbitrary: log s rule: less_induct)
  case less
  show ?case
  proof (cases "in_body (tb_at s i)")
    case True
    obtain pc' st' cms where body: "run_body id (tb_now s) (tb_at s i) (tb_store s) = (pc', st', cms)"
      by (metis prod_cases3)
    let ?s = "tb_goes i pc' (s\<lparr>tb_store := st'\<rparr>)"
    have step: "table_step s (map (Committed i) cms) ?s"
      by (rule table_step.run [OF refl True is_iteration_id body])
    note run = table_run.step [OF less.prems(1) step]
    have pc': "pc' \<noteq> Dangling" using in_table_core [OF run, of i] by simp
    obtain base where "table_ok base log s" "history_ok log (tb_now s)" "locks_ok s"
      using table_run_ok [OF less.prems(1)] by blast
    then have "step_ok base (tb_store s) (map cm_time (commits log)) (tb_now s) (call_phase i log)
        (tb_at s i) (run_body id (tb_now s) (tb_at s i) (tb_store s))"
      using True by (intro body_ok) (auto simp: table_ok_def history_ok_def is_iteration_id)
    then have "pc_call pc' \<noteq> None" using body less.prems(2) by (auto simp: step_ok_def)
    with less.hyps [OF _ run] run_body_works [OF body True pc']
    obtain log' s' r where "table_run ?s log' s'" "tb_at s' = (tb_at ?s)(i := Away)" "Answered i r \<in> set log'"
      by auto
    with table_run_trans [OF _ table_step_run [OF step]] show ?thesis
      by (metis UnI2 fun_upd_upd set_append tb_goes_simps(5) table_state.select_convs(5) table_state.surjective table_state.update_convs(1))
  next
    case False
    then obtain c r where at: "tb_at s i = Leaving c r" using less.prems(2) by (auto simp: in_body_def)
    show ?thesis
      using table_step_run [OF table_step.leave [OF at]]
      by (intro exI [of _ "[Answered i r]"] exI [of _ "tb_goes i Away (unlock_table i c s)"]) auto
  qed
qed

lemma threads_finite:
  "table_run (table_start t) log s \<Longrightarrow> finite {i. tb_at s i \<noteq> Away}"
proof (induction rule: table_run.induct)
  case here
  then show ?case by (simp add: table_start_def)
next
  case (step log s' evs s'')
  have "\<exists>i. \<forall>j. j \<noteq> i \<longrightarrow> tb_at s'' j = tb_at s' j"
    using step.hyps(2) by cases fastforce+
  then obtain i where "\<forall>j. j \<noteq> i \<longrightarrow> tb_at s'' j = tb_at s' j" by blast
  then have "{j. tb_at s'' j \<noteq> Away} \<subseteq> insert i {j. tb_at s' j \<noteq> Away}" by auto
  with step.IH show ?case by (meson finite.insertI finite_subset)
qed

text \<open>The holders of the mutex can all leave, and the threads before the lock stay there.\<close>

lemma table_empties:
  assumes "table_run (table_start t) log s"
  shows "\<exists>log' s'. table_run s log' s' \<and> (\<forall>j. pc_call (tb_at s' j) = None) \<and>
    (\<forall>j. pc_call (tb_at s j) = None \<longrightarrow> tb_at s' j = tb_at s j)"
  using assms
proof (induction "card {j. pc_call (tb_at s j) \<noteq> None}" arbitrary: log s rule: less_induct)
  case less
  show ?case
  proof (cases "\<forall>j. pc_call (tb_at s j) = None")
    case True
    then show ?thesis using table_run.here by blast
  next
    case False
    then obtain i where i: "pc_call (tb_at s i) \<noteq> None" by blast
    from holder_returns [OF less.prems i] obtain log1 s1 where
      run: "table_run s log1 s1" and at: "tb_at s1 = (tb_at s)(i := Away)" by blast
    have "{j. pc_call (tb_at s j) \<noteq> None} \<subseteq> {j. tb_at s j \<noteq> Away}" by auto
    then have "finite {j. pc_call (tb_at s j) \<noteq> None}"
      using threads_finite [OF less.prems] by (rule finite_subset)
    moreover have "{j. pc_call (tb_at s1 j) \<noteq> None} \<subset> {j. pc_call (tb_at s j) \<noteq> None}"
      using i by (auto simp: at)
    ultimately have "card {j. pc_call (tb_at s1 j) \<noteq> None} < card {j. pc_call (tb_at s j) \<noteq> None}"
      by (rule psubset_card_mono)
    from less.hyps [OF this table_run_trans [OF run less.prems]] obtain log2 s2 where
      "table_run s1 log2 s2" "\<forall>j. pc_call (tb_at s2 j) = None"
      "\<forall>j. pc_call (tb_at s1 j) = None \<longrightarrow> tb_at s2 j = tb_at s1 j" by blast
    with table_run_trans [OF _ run] i show ?thesis by (metis at fun_upd_other)
  qed
qed

lemma call_returns_core:
  assumes run: "table_run (table_start t) log s" and at: "tb_at s i \<noteq> Away"
  shows "\<exists>log' s' r. table_run s log' s' \<and> Answered i r \<in> set log'"
proof (cases "pc_call (tb_at s i)")
  case (Some c)
  then show ?thesis using holder_returns [OF run, of i] by blast
next
  case None
  then obtain c where c: "tb_at s i = At_Lock c"
    using at in_table_core [OF run, of i] by (cases "tb_at s i") auto
  obtain log1 s1 where s1: "table_run s log1 s1" "\<forall>j. pc_call (tb_at s1 j) = None" "tb_at s1 i = At_Lock c"
    using table_empties [OF run] None c by metis
  note run1 = table_run_trans [OF s1(1) run]
  have "locks_ok s1" using table_run_ok [OF run1] by blast
  then have "can_lock c s1"
    using s1(2) unfolding can_lock_def locks_ok_def by (metis all_not_in_conv not_Some_eq outside_idle)
  then have lock: "table_step s1 [] (tb_goes i (Locked c) (lock_table i c s1))"
    by (rule table_step.lock [OF s1(3)])
  obtain log2 s2 r where s2: "table_run (tb_goes i (Locked c) (lock_table i c s1)) log2 s2" "Answered i r \<in> set log2"
    using holder_returns [OF table_run.step [OF run1 lock], of i] by auto
  from table_run_trans [OF s2(1) table_run.step [OF s1(1) lock]] s2(2) show ?thesis
    by (metis UnI2 set_append)
qed

section \<open>Single use\<close>

lemma spec_takes_at_most_puts:
  "length (filter (took key) (fst (run_steps spec_step cs m))) \<le>
     length (filter (\<lambda>p. puts key (snd p)) cs) + (if m key = None then 0 else 1)"
proof (induction cs arbitrary: m)
  case Nil
  then show ?case by simp
next
  case (Cons p cs)
  obtain t c where p: "p = (t, c)" by force
  obtain r m1 where st: "spec_step t c m = (r, m1)" by force
  have "(if took key (c, r) then 1 else 0) + (if m1 key = None then 0 else 1) \<le>
      (if puts key c then 1 else 0) + (if m key = None then 0 else (1 :: nat))"
    using st by (cases c) (auto simp: spec_look_def bind_eq_Some_conv split: if_splits)
  with Cons.IH [of m1] show ?case
    by (auto simp: p st split_def Let_def split: if_splits)
qed

definition cm_puts :: "string \<Rightarrow> table_commit \<Rightarrow> bool" where
  "cm_puts key cm = (case cm_call cm of Do_Put k v ttl \<Rightarrow> k = key | _ \<Rightarrow> False)"

definition cm_took :: "string \<Rightarrow> table_commit \<Rightarrow> bool" where
  "cm_took key cm =
     (case cm_call cm of Do_Take k \<Rightarrow> k = key \<and> cm_answer cm \<noteq> Take_Answer None | _ \<Rightarrow> False)"

lemma spec_puts_count:
  "length (filter (\<lambda>p. puts key (snd p)) (spec_commands cms)) = length (filter (cm_puts key) cms)"
proof (induction cms)
  case Nil
  then show ?case by simp
next
  case (Cons cm cms)
  then show ?case by (cases "cm_call cm") (auto simp: spec_command_def cm_puts_def)
qed

lemma spec_takes_count:
  "replay cms st \<noteq> None \<Longrightarrow>
     length (filter (took key) (spec_answers cms)) = length (filter (cm_took key) cms)"
proof (induction cms arbitrary: st)
  case Nil
  then show ?case by simp
next
  case (Cons cm cms)
  let ?r = "apply_call (cm_iter cm) (cm_readings cm) (cm_time cm) (cm_call cm) st"
  have "replay cms (snd ?r) \<noteq> None" "cm_answer cm = fst ?r"
    using Cons.prems by (auto simp: Let_def split: prod.splits if_splits)
  with Cons.IH [of "snd ?r"] show ?case
    by (cases "cm_call cm") (auto simp: spec_command_def cm_took_def split: prod.splits)
qed

lemma concurrent_single_use_core:
  assumes "table_run (table_start t) log s"
  shows "length (filter (cm_took key) (commits log)) \<le> length (filter (cm_puts key) (commits log))"
proof -
  have "replay (commits log) empty_store \<noteq> None" using linearizable_core [OF assms] by blast
  from spec_takes_count [OF this, of key] show ?thesis
    using spec_takes_at_most_puts [of key "spec_commands (commits log)" Map.empty]
    by (simp add: concurrent_spec_core [OF assms] spec_puts_count)
qed

end
