(* ===== verification/Store_Wire.thy ===== *)
theory Store_Wire
  imports Security
begin

text \<open>
  The binary format of the internal protocol between Login/World and the store hosted by Master,
  \<open>include/store/store_wire.hpp\<close>: the operation codes, one encoder per message (each signed
  with an HMAC over everything before it) and \<open>decode_and_verify\<close>, which checks the signature
  before it parses. Integers travel in host byte order.
\<close>

section \<open>Operation codes\<close>

datatype store_op =
    Op_Put | Op_Get | Op_Take | Op_ListPrefix
  | Op_Ok | Op_Value | Op_NotFound | Op_Err | Op_List

fun op_code :: "store_op \<Rightarrow> u16" where
  "op_code Op_Put = 1"
| "op_code Op_Get = 2"
| "op_code Op_Take = 3"
| "op_code Op_ListPrefix = 4"
| "op_code Op_Ok = 100"
| "op_code Op_Value = 101"
| "op_code Op_NotFound = 102"
| "op_code Op_Err = 103"
| "op_code Op_List = 104"

text \<open>
  \<open>static_cast<Op>\<close> of a code outside the enumeration matches no case of the
  \<open>switch\<close>es, which then reach the \<open>return std::nullopt\<close> after them.
\<close>

definition op_of_code :: "u16 \<Rightarrow> store_op option" where
  "op_of_code c =
     (if c = 1 then Some Op_Put else if c = 2 then Some Op_Get else if c = 3 then Some Op_Take
      else if c = 4 then Some Op_ListPrefix else if c = 100 then Some Op_Ok
      else if c = 101 then Some Op_Value else if c = 102 then Some Op_NotFound
      else if c = 103 then Some Op_Err else if c = 104 then Some Op_List else None)"

lemma op_of_code_code [simp]: "op_of_code (op_code op) = Some op"
  by (cases op) (simp_all add: op_of_code_def)

lemma op_of_code_Some: "op_of_code c = Some op \<longleftrightarrow> c = op_code op"
  by (cases op) (auto simp: op_of_code_def)

section \<open>Encoders\<close>

text \<open>The tail of every encoder: sign what has been written, append the signature.\<close>

definition sign_and_take :: "openssl \<Rightarrow> bytes \<Rightarrow> (byte_writer \<Rightarrow> byte_writer) list \<Rightarrow> bytes result" where
  "sign_and_take E hmac_key ops =
     (let w = write_all ops
      in bind_result (hmac_sha256 E hmac_key w) (\<lambda>mac. Inr (writer_bytes mac w)))"

definition encode_put :: "endian \<Rightarrow> openssl \<Rightarrow> bytes \<Rightarrow> string \<Rightarrow> bytes \<Rightarrow> u32 \<Rightarrow> bytes result" where
  "encode_put e E hmac_key key val ttl_seconds =
     sign_and_take E hmac_key
       [writer_u16 e (op_code Op_Put),
        writer_u16 e (word_of_nat (length key)), writer_str key,
        writer_u32 e (word_of_nat (length val)), writer_bytes val,
        writer_u32 e ttl_seconds]"

definition encode_get_or_take :: "endian \<Rightarrow> openssl \<Rightarrow> store_op \<Rightarrow> bytes \<Rightarrow> string \<Rightarrow> bytes result" where
  "encode_get_or_take e E op hmac_key key =
     sign_and_take E hmac_key
       [writer_u16 e (op_code op),
        writer_u16 e (word_of_nat (length key)), writer_str key,
        writer_u32 e 0,
        writer_u32 e 0]"

definition encode_ok :: "endian \<Rightarrow> openssl \<Rightarrow> bytes \<Rightarrow> bytes result" where
  "encode_ok e E hmac_key = sign_and_take E hmac_key [writer_u16 e (op_code Op_Ok)]"

definition encode_not_found :: "endian \<Rightarrow> openssl \<Rightarrow> bytes \<Rightarrow> bytes result" where
  "encode_not_found e E hmac_key = sign_and_take E hmac_key [writer_u16 e (op_code Op_NotFound)]"

definition encode_value :: "endian \<Rightarrow> openssl \<Rightarrow> bytes \<Rightarrow> bytes \<Rightarrow> bytes result" where
  "encode_value e E hmac_key val =
     sign_and_take E hmac_key
       [writer_u16 e (op_code Op_Value),
        writer_u32 e (word_of_nat (length val)), writer_bytes val]"

definition encode_list_prefix :: "endian \<Rightarrow> openssl \<Rightarrow> bytes \<Rightarrow> string \<Rightarrow> bytes result" where
  "encode_list_prefix e E hmac_key prefix = encode_get_or_take e E Op_ListPrefix hmac_key prefix"

type_synonym store_list_entry = "string \<times> bytes"

definition encode_list :: "endian \<Rightarrow> openssl \<Rightarrow> bytes \<Rightarrow> store_list_entry list \<Rightarrow> bytes result" where
  "encode_list e E hmac_key es =
     sign_and_take E hmac_key
       ([writer_u16 e (op_code Op_List), writer_u32 e (word_of_nat (length es))] @
        concat (map (\<lambda>(k, v).
          [writer_u16 e (word_of_nat (length k)), writer_str k,
           writer_u32 e (word_of_nat (length v)), writer_bytes v]) es))"

section \<open>Decoder\<close>

record store_decoded =
  d_op :: store_op
  d_key :: string
  d_value :: bytes
  d_ttl_seconds :: u32
  d_entries :: "store_list_entry list"

definition decoded_init :: "store_op \<Rightarrow> store_decoded" where
  "decoded_init op =
     \<lparr> d_op = op, d_key = [], d_value = [], d_ttl_seconds = 0, d_entries = [] \<rparr>"

definition reader_list_entry :: "endian \<Rightarrow> byte_reader \<Rightarrow> (store_list_entry \<times> byte_reader) option" where
  "reader_list_entry e r =
     do { (key, r) \<leftarrow> reader_str16 e r;
          (val, r) \<leftarrow> reader_bytes32 e r;
          Some ((key, val), r) }"

text \<open>The \<open>switch\<close> over the operation, on the reader after the operation code.\<close>

definition decode_fields :: "endian \<Rightarrow> store_op \<Rightarrow> byte_reader \<Rightarrow> store_decoded option" where
  "decode_fields e op r =
     (let d = decoded_init op in
      case op of
        Op_Put \<Rightarrow>
          do { (key, r) \<leftarrow> reader_str16 e r;
               (val, r) \<leftarrow> reader_bytes32 e r;
               (ttl, r) \<leftarrow> reader_u32 e r;
               Some (d\<lparr>d_key := key, d_value := val, d_ttl_seconds := ttl\<rparr>) }
      | Op_Get \<Rightarrow> do { (key, r) \<leftarrow> reader_str16 e r; Some (d\<lparr>d_key := key\<rparr>) }
      | Op_Take \<Rightarrow> do { (key, r) \<leftarrow> reader_str16 e r; Some (d\<lparr>d_key := key\<rparr>) }
      | Op_ListPrefix \<Rightarrow> do { (key, r) \<leftarrow> reader_str16 e r; Some (d\<lparr>d_key := key\<rparr>) }
      | Op_Value \<Rightarrow> do { (val, r) \<leftarrow> reader_bytes32 e r; Some (d\<lparr>d_value := val\<rparr>) }
      | Op_List \<Rightarrow>
          do { (count, r) \<leftarrow> reader_u32 e r;
               if unat count > 100000 then None
               else do { (es, r) \<leftarrow> reader_many (reader_list_entry e) (unat count) r;
                         Some (d\<lparr>d_entries := es\<rparr>) } }
      | Op_Ok \<Rightarrow> Some d
      | Op_NotFound \<Rightarrow> Some d
      | Op_Err \<Rightarrow> Some d)"

definition decode_body :: "endian \<Rightarrow> bytes \<Rightarrow> store_decoded option" where
  "decode_body e body =
     do { (opcode, r) \<leftarrow> reader_u16 e body;
          op \<leftarrow> op_of_code opcode;
          decode_fields e op r }"

definition decode_and_verify :: "endian \<Rightarrow> openssl \<Rightarrow> bytes \<Rightarrow> bytes \<Rightarrow> store_decoded option result" where
  "decode_and_verify e E hmac_key msg =
     (if length msg < kHmacSize + 2 then Inr None
      else
        let body = take (length msg - kHmacSize) msg;
            received_mac = drop (length msg - kHmacSize) msg
        in bind_result (hmac_sha256 E hmac_key body) (\<lambda>expected_mac.
             if \<not> constant_time_equal E received_mac expected_mac then Inr None
             else Inr (decode_body e body)))"

section \<open>Round trips\<close>

definition enc_list_entry :: "endian \<Rightarrow> store_list_entry \<Rightarrow> bytes" where
  "enc_list_entry e p = enc_str16 e (fst p) @ enc_bytes32 e (snd p)"

interpretation list_entry: prefix_codec "enc_list_entry e" "reader_list_entry e"
    "\<lambda>p. length (fst p) < 65536 \<and> length (snd p) < 4294967296" for e
  by unfold_locales
    (auto simp: reader_list_entry_def enc_list_entry_def bind_eq_Some_conv codec_laws)

lemmas [codec_laws] = list_entry.dec_iff list_entry.many_iff

lemma decode_and_verify_signed:
  assumes "openssl_documented E" and "hmac_sha256 E hmac_key body = Inr mac"
    and "length body \<ge> 2"
  shows "decode_and_verify e E hmac_key (body @ mac) = Inr (decode_body e body)"
  using assms length_hmac [OF assms(2)]
  by (simp add: decode_and_verify_def constant_time_equal_iff)

lemma sign_and_take_Inr:
  "sign_and_take E hmac_key ops = Inr msg \<longleftrightarrow>
     (\<exists>mac. hmac_sha256 E hmac_key (write_all ops) = Inr mac \<and> msg = write_all ops @ mac)"
  by (auto simp: sign_and_take_def Let_def result_simps writer_bytes_def)

lemma decode_signed:
  assumes "openssl_documented E" and "sign_and_take E hmac_key ops = Inr msg"
    and "length (write_all ops) \<ge> 2"
  shows "decode_and_verify e E hmac_key msg = Inr (decode_body e (write_all ops))"
  using assms decode_and_verify_signed by (auto simp: sign_and_take_Inr)

text \<open>What each encoder writes before the signature, as fields.\<close>

lemma body_put:
  "write_all [writer_u16 e (op_code Op_Put), writer_u16 e (word_of_nat (length key)), writer_str key,
     writer_u32 e (word_of_nat (length val)), writer_bytes val, writer_u32 e ttl] =
   mem_of_u16 e (op_code Op_Put) @ enc_str16 e key @ enc_bytes32 e val @ mem_of_u32 e ttl"
  by (simp add: wire_simps del: op_code.simps)

lemma body_get_or_take:
  "write_all [writer_u16 e (op_code op), writer_u16 e (word_of_nat (length key)), writer_str key,
     writer_u32 e 0, writer_u32 e 0] =
   mem_of_u16 e (op_code op) @ enc_str16 e key @ mem_of_u32 e 0 @ mem_of_u32 e 0"
  by (simp add: wire_simps del: op_code.simps)

lemma body_value:
  "write_all [writer_u16 e (op_code Op_Value), writer_u32 e (word_of_nat (length val)),
     writer_bytes val] =
   mem_of_u16 e (op_code Op_Value) @ enc_bytes32 e val"
  by (simp add: wire_simps del: op_code.simps)

lemma body_list:
  "write_all (writer_u16 e (op_code Op_List) # writer_u32 e (word_of_nat (length es)) #
     concat (map (\<lambda>(k, v).
       [writer_u16 e (word_of_nat (length k)), writer_str k,
        writer_u32 e (word_of_nat (length v)), writer_bytes v]) es)) =
   mem_of_u16 e (op_code Op_List) @ mem_of_u32 e (word_of_nat (length es)) @
     concat (map (enc_list_entry e) es)"
proof -
  have "fold (\<lambda>f. f) (concat (map (\<lambda>(k, v).
       [writer_u16 e (word_of_nat (length k)), writer_str k,
        writer_u32 e (word_of_nat (length v)), writer_bytes v]) es)) w =
      w @ concat (map (enc_list_entry e) es)" for w
    by (induction es arbitrary: w)
      (auto simp: enc_list_entry_def enc_str16_def enc_bytes32_def writer_simps)
  then show ?thesis
    by (simp add: write_all_def writer_u16_def writer_u32_def del: op_code.simps)
qed

lemmas body_simps = body_put body_get_or_take body_value body_list

lemma put_roundtrip:
  assumes "openssl_documented E" and "encode_put e E hk key val ttl = Inr msg"
    and "length key < 65536" and "length val < 4294967296"
  shows "decode_and_verify e E hk msg =
    Inr (Some ((decoded_init Op_Put)\<lparr>d_key := key, d_value := val, d_ttl_seconds := ttl\<rparr>))"
  using decode_signed [OF assms(1) assms(2) [unfolded encode_put_def], of e] assms(3,4)
  by (simp add: body_put decode_body_def decode_fields_def del: op_code.simps)

lemma get_or_take_roundtrip:
  assumes "openssl_documented E" and "encode_get_or_take e E op hk key = Inr msg"
    and "op \<in> {Op_Get, Op_Take, Op_ListPrefix}" and "length key < 65536"
  shows "decode_and_verify e E hk msg = Inr (Some ((decoded_init op)\<lparr>d_key := key\<rparr>))"
  using decode_signed [OF assms(1) assms(2) [unfolded encode_get_or_take_def], of e] assms(3,4)
  by (auto simp: body_get_or_take decode_body_def decode_fields_def simp del: op_code.simps)

lemma ok_roundtrip:
  assumes "openssl_documented E" and "encode_ok e E hk = Inr msg"
  shows "decode_and_verify e E hk msg = Inr (Some (decoded_init Op_Ok))"
  using decode_signed [OF assms(1) assms(2) [unfolded encode_ok_def], of e]
  by (simp add: writer_simps decode_body_def decode_fields_def del: op_code.simps)

lemma not_found_roundtrip:
  assumes "openssl_documented E" and "encode_not_found e E hk = Inr msg"
  shows "decode_and_verify e E hk msg = Inr (Some (decoded_init Op_NotFound))"
  using decode_signed [OF assms(1) assms(2) [unfolded encode_not_found_def], of e]
  by (simp add: writer_simps decode_body_def decode_fields_def del: op_code.simps)

lemma value_roundtrip:
  assumes "openssl_documented E" and "encode_value e E hk val = Inr msg"
    and "length val < 4294967296"
  shows "decode_and_verify e E hk msg = Inr (Some ((decoded_init Op_Value)\<lparr>d_value := val\<rparr>))"
  using decode_signed [OF assms(1) assms(2) [unfolded encode_value_def], of e] assms(3)
  by (simp add: body_value decode_body_def decode_fields_def del: op_code.simps)

definition list_fits :: "store_list_entry list \<Rightarrow> bool" where
  "list_fits es \<longleftrightarrow> length es \<le> 100000 \<and>
     (\<forall>p \<in> set es. length (fst p) < 65536 \<and> length (snd p) < 4294967296)"

lemma list_roundtrip:
  assumes "openssl_documented E" and "encode_list e E hk es = Inr msg" and "list_fits es"
  shows "decode_and_verify e E hk msg = Inr (Some ((decoded_init Op_List)\<lparr>d_entries := es\<rparr>))"
proof -
  have "reader_many (reader_list_entry e) (length es) (concat (map (enc_list_entry e) es)) =
      Some (es, [])"
    using assms(3) by (simp add: list_entry.many_iff list_fits_def)
  then show ?thesis
    using decode_signed [OF assms(1) assms(2) [unfolded encode_list_def], of e] assms(3)
    by (simp add: body_list decode_body_def decode_fields_def list_fits_def del: op_code.simps)
qed

lemmas store_roundtrips =
  put_roundtrip get_or_take_roundtrip ok_roundtrip not_found_roundtrip value_roundtrip
  list_roundtrip

section \<open>What an accepted message is\<close>

text \<open>Nothing is parsed before its signature has been checked, over every byte before it.\<close>

lemma accepted_is_signed:
  assumes "openssl_documented E" and "decode_and_verify e E hk msg = Inr (Some d)"
  shows "\<exists>body mac. msg = body @ mac \<and> hmac_sha256 E hk body = Inr mac \<and> decode_body e body = Some d"
proof -
  let ?n = "length msg - kHmacSize"
  obtain mac where mac: "hmac_sha256 E hk (take ?n msg) = Inr mac"
      and eq: "constant_time_equal E (drop ?n msg) mac"
      and d: "decode_body e (take ?n msg) = Some d"
    using assms(2)
    by (auto simp: decode_and_verify_def Let_def result_simps split: if_splits)
  have "msg = take ?n msg @ mac"
    using eq constant_time_equal_iff [OF assms(1)] by (metis append_take_drop_id)
  with mac d show ?thesis by blast
qed

text \<open>
  The exact bodies the decoder accepts: an operation code, then the fields of that operation;
  what follows the last field is free.
\<close>

lemma decode_body_iff:
  "decode_body e body = Some d \<longleftrightarrow>
     (\<exists>op r. body = mem_of_u16 e (op_code op) @ r \<and> decode_fields e op r = Some d)"
  by (auto simp: decode_body_def bind_eq_Some_conv codec_laws op_of_code_Some simp del: op_code.simps)

lemma decode_fields_op: "decode_fields e op r = Some d \<Longrightarrow> d_op d = op"
  by (cases op) (auto simp: decode_fields_def decoded_init_def bind_eq_Some_conv split: if_splits)

lemma decode_fields_Put:
  "decode_fields e Op_Put r = Some d \<longleftrightarrow>
     (\<exists>key val ttl rest.
        r = enc_str16 e key @ enc_bytes32 e val @ mem_of_u32 e ttl @ rest \<and>
        length key < 65536 \<and> length val < 4294967296 \<and>
        d = (decoded_init Op_Put)\<lparr>d_key := key, d_value := val, d_ttl_seconds := ttl\<rparr>)"
    (is "?dec \<longleftrightarrow> ?msg")
proof
  show "?dec \<Longrightarrow> ?msg" by (auto simp: decode_fields_def bind_eq_Some_conv codec_laws)
  show "?msg \<Longrightarrow> ?dec" by (auto simp: decode_fields_def)
qed

lemma decode_fields_key:
  "op \<in> {Op_Get, Op_Take, Op_ListPrefix} \<Longrightarrow>
     decode_fields e op r = Some d \<longleftrightarrow>
       (\<exists>key rest. r = enc_str16 e key @ rest \<and> length key < 65536 \<and>
          d = (decoded_init op)\<lparr>d_key := key\<rparr>)"
  by (auto simp: decode_fields_def bind_eq_Some_conv codec_laws) blast+

lemma decode_fields_Value:
  "decode_fields e Op_Value r = Some d \<longleftrightarrow>
     (\<exists>val rest. r = enc_bytes32 e val @ rest \<and> length val < 4294967296 \<and>
        d = (decoded_init Op_Value)\<lparr>d_value := val\<rparr>)"
  by (auto simp: decode_fields_def bind_eq_Some_conv codec_laws)

lemma decode_fields_List:
  "decode_fields e Op_List r = Some d \<longleftrightarrow>
     (\<exists>es rest. r = mem_of_u32 e (word_of_nat (length es)) @ concat (map (enc_list_entry e) es) @ rest \<and>
        list_fits es \<and> d = (decoded_init Op_List)\<lparr>d_entries := es\<rparr>)"
    (is "?dec \<longleftrightarrow> ?msg")
proof
  assume ?dec
  then obtain count es rest where
      "r = mem_of_u32 e count @ concat (map (enc_list_entry e) es) @ rest"
      "length es = unat count" "unat count \<le> 100000" "list_fits es"
      "d = (decoded_init Op_List)\<lparr>d_entries := es\<rparr>"
    by (auto simp: decode_fields_def bind_eq_Some_conv codec_laws list_fits_def split: if_splits)
  then show ?msg by (intro exI [of _ es] exI [of _ rest]) simp
next
  show "?msg \<Longrightarrow> ?dec"
    by (auto simp: decode_fields_def list_entry.many_enc list_fits_def)
qed

lemmas decode_fields_laws =
  decode_fields_Put decode_fields_key decode_fields_Value decode_fields_List

end
