(* ===== verification/Client_Protocol.thy ===== *)
theory Client_Protocol
  imports Byte_IO
begin

text \<open>
  The messages between a game client and the servers: \<open>include/net/login_protocol.hpp\<close>
  (the SRP6a exchange with Login) and \<open>include/net/master_protocol.hpp\<close> (the redirection
  Master answers with). The main result is that a login message is accepted exactly when it
  starts with the encoding of a message that fits the field widths.
\<close>

section \<open>Login messages\<close>

datatype login_op =
    ClientHello | ClientProof
  | ServerChallenge | ServerProof | ServerError | WorldList

fun login_op_code :: "login_op \<Rightarrow> u16" where
  "login_op_code ClientHello = 1"
| "login_op_code ClientProof = 2"
| "login_op_code ServerChallenge = 100"
| "login_op_code ServerProof = 101"
| "login_op_code ServerError = 102"
| "login_op_code WorldList = 103"

definition login_op_of_code :: "u16 \<Rightarrow> login_op option" where
  "login_op_of_code c =
     (if c = 1 then Some ClientHello else if c = 2 then Some ClientProof
      else if c = 100 then Some ServerChallenge else if c = 101 then Some ServerProof
      else if c = 102 then Some ServerError else if c = 103 then Some WorldList else None)"

lemma login_op_of_code_Some: "login_op_of_code c = Some op \<longleftrightarrow> c = login_op_code op"
  by (cases op) (auto simp: login_op_of_code_def)

record world_entry =
  we_name :: string
  we_host :: string
  we_port :: u16
  we_population :: u32

definition encode_client_hello :: "endian \<Rightarrow> string \<Rightarrow> string \<Rightarrow> bytes" where
  "encode_client_hello e ticket username =
     write_all
       [writer_u16 e (login_op_code ClientHello),
        writer_u16 e (word_of_nat (length ticket)), writer_str ticket,
        writer_u16 e (word_of_nat (length username)), writer_str username]"

definition encode_client_proof :: "endian \<Rightarrow> bytes \<Rightarrow> bytes \<Rightarrow> bytes" where
  "encode_client_proof e A M1 =
     write_all
       [writer_u16 e (login_op_code ClientProof),
        writer_u32 e (word_of_nat (length A)), writer_bytes A,
        writer_bytes M1]"

definition encode_server_challenge :: "endian \<Rightarrow> bytes \<Rightarrow> bytes \<Rightarrow> bytes" where
  "encode_server_challenge e salt B =
     write_all
       [writer_u16 e (login_op_code ServerChallenge),
        writer_u16 e (word_of_nat (length salt)), writer_bytes salt,
        writer_u32 e (word_of_nat (length B)), writer_bytes B]"

definition encode_server_proof :: "endian \<Rightarrow> bytes \<Rightarrow> string \<Rightarrow> bytes" where
  "encode_server_proof e M2 session_token =
     write_all
       [writer_u16 e (login_op_code ServerProof),
        writer_bytes M2,
        writer_u16 e (word_of_nat (length session_token)), writer_str session_token]"

definition encode_login_error :: "endian \<Rightarrow> bytes" where
  "encode_login_error e = write_all [writer_u16 e (login_op_code ServerError)]"

definition encode_world_list :: "endian \<Rightarrow> world_entry list \<Rightarrow> bytes" where
  "encode_world_list e worlds =
     write_all
       ([writer_u16 e (login_op_code WorldList),
         writer_u32 e (word_of_nat (length worlds))] @
        concat (map (\<lambda>wd.
          [writer_u16 e (word_of_nat (length (we_name wd))), writer_str (we_name wd),
           writer_u16 e (word_of_nat (length (we_host wd))), writer_str (we_host wd),
           writer_u16 e (we_port wd),
           writer_u32 e (we_population wd)]) worlds))"

record login_decoded =
  l_op :: login_op
  l_ticket :: string
  l_username :: string
  l_A :: bytes
  l_M1 :: bytes
  l_salt :: bytes
  l_B :: bytes
  l_M2 :: bytes
  l_session_token :: string
  l_worlds :: "world_entry list"

text \<open>The value-initialised \<open>Decoded d\<close>: empty strings, zeroed arrays.\<close>

definition login_decoded_init :: "login_op \<Rightarrow> login_decoded" where
  "login_decoded_init op =
     \<lparr> l_op = op, l_ticket = [], l_username = [], l_A = [], l_M1 = replicate 32 0,
       l_salt = [], l_B = [], l_M2 = replicate 32 0, l_session_token = [], l_worlds = [] \<rparr>"

definition reader_world_entry :: "endian \<Rightarrow> byte_reader \<Rightarrow> (world_entry \<times> byte_reader) option" where
  "reader_world_entry e r =
     do { (name, r) \<leftarrow> reader_str16 e r;
          (host, r) \<leftarrow> reader_str16 e r;
          (port, r) \<leftarrow> reader_u16 e r;
          (pop, r) \<leftarrow> reader_u32 e r;
          Some (\<lparr>we_name = name, we_host = host, we_port = port, we_population = pop\<rparr>, r) }"

definition login_fields :: "endian \<Rightarrow> login_op \<Rightarrow> byte_reader \<Rightarrow> login_decoded option" where
  "login_fields e op r =
     (let d = login_decoded_init op in
      case op of
        ClientHello \<Rightarrow>
          do { (t, r) \<leftarrow> reader_str16 e r;
               (u, r) \<leftarrow> reader_str16 e r;
               Some (d\<lparr>l_ticket := t, l_username := u\<rparr>) }
      | ClientProof \<Rightarrow>
          do { (a, r) \<leftarrow> reader_bytes32 e r;
               (m1, r) \<leftarrow> reader_bytes 32 r;
               Some (d\<lparr>l_A := a, l_M1 := m1\<rparr>) }
      | ServerChallenge \<Rightarrow>
          do { (s, r) \<leftarrow> reader_bytes16 e r;
               (b, r) \<leftarrow> reader_bytes32 e r;
               Some (d\<lparr>l_salt := s, l_B := b\<rparr>) }
      | ServerProof \<Rightarrow>
          do { (m2, r) \<leftarrow> reader_bytes 32 r;
               (t, r) \<leftarrow> reader_str16 e r;
               Some (d\<lparr>l_M2 := m2, l_session_token := t\<rparr>) }
      | ServerError \<Rightarrow> Some d
      | WorldList \<Rightarrow>
          do { (count, r) \<leftarrow> reader_u32 e r;
               if unat count > 10000 then None
               else do { (ws, r) \<leftarrow> reader_many (reader_world_entry e) (unat count) r;
                         Some (d\<lparr>l_worlds := ws\<rparr>) } })"

definition login_decode :: "endian \<Rightarrow> bytes \<Rightarrow> login_decoded option" where
  "login_decode e msg =
     do { (opcode, r) \<leftarrow> reader_u16 e msg;
          op \<leftarrow> login_op_of_code opcode;
          login_fields e op r }"

subsection \<open>Messages, and what is accepted\<close>

definition enc_world_entry :: "endian \<Rightarrow> world_entry \<Rightarrow> bytes" where
  "enc_world_entry e wd =
     enc_str16 e (we_name wd) @ enc_str16 e (we_host wd) @ mem_of_u16 e (we_port wd) @
       mem_of_u32 e (we_population wd)"

definition world_entry_fits :: "world_entry \<Rightarrow> bool" where
  "world_entry_fits wd \<longleftrightarrow> length (we_name wd) < 65536 \<and> length (we_host wd) < 65536"

interpretation world_entry: prefix_codec "enc_world_entry e" "reader_world_entry e" world_entry_fits
  for e
proof unfold_locales
  fix bs x r
  show "reader_world_entry e bs = Some (x, r) \<longleftrightarrow> world_entry_fits x \<and> bs = enc_world_entry e x @ r"
    by (cases x) (auto simp: reader_world_entry_def enc_world_entry_def world_entry_fits_def
        bind_eq_Some_conv codec_laws)
qed

text \<open>The messages of the protocol, each with the encoder of the code.\<close>

datatype login_msg =
    MHello string string
  | MProof bytes bytes
  | MChallenge bytes bytes
  | MServerProof bytes string
  | MError
  | MWorlds "world_entry list"

fun encode_login_msg :: "endian \<Rightarrow> login_msg \<Rightarrow> bytes" where
  "encode_login_msg e (MHello t u) = encode_client_hello e t u"
| "encode_login_msg e (MProof A M1) = encode_client_proof e A M1"
| "encode_login_msg e (MChallenge s B) = encode_server_challenge e s B"
| "encode_login_msg e (MServerProof M2 t) = encode_server_proof e M2 t"
| "encode_login_msg e MError = encode_login_error e"
| "encode_login_msg e (MWorlds ws) = encode_world_list e ws"

fun login_msg_fits :: "login_msg \<Rightarrow> bool" where
  "login_msg_fits (MHello t u) \<longleftrightarrow> length t < 65536 \<and> length u < 65536"
| "login_msg_fits (MProof A M1) \<longleftrightarrow> length A < 4294967296 \<and> length M1 = 32"
| "login_msg_fits (MChallenge s B) \<longleftrightarrow> length s < 65536 \<and> length B < 4294967296"
| "login_msg_fits (MServerProof M2 t) \<longleftrightarrow> length M2 = 32 \<and> length t < 65536"
| "login_msg_fits MError \<longleftrightarrow> True"
| "login_msg_fits (MWorlds ws) \<longleftrightarrow> length ws \<le> 10000 \<and> (\<forall>w \<in> set ws. world_entry_fits w)"

fun decoded_login_msg :: "login_msg \<Rightarrow> login_decoded" where
  "decoded_login_msg (MHello t u) = (login_decoded_init ClientHello)\<lparr>l_ticket := t, l_username := u\<rparr>"
| "decoded_login_msg (MProof A M1) = (login_decoded_init ClientProof)\<lparr>l_A := A, l_M1 := M1\<rparr>"
| "decoded_login_msg (MChallenge s B) = (login_decoded_init ServerChallenge)\<lparr>l_salt := s, l_B := B\<rparr>"
| "decoded_login_msg (MServerProof M2 t) =
     (login_decoded_init ServerProof)\<lparr>l_M2 := M2, l_session_token := t\<rparr>"
| "decoded_login_msg MError = login_decoded_init ServerError"
| "decoded_login_msg (MWorlds ws) = (login_decoded_init WorldList)\<lparr>l_worlds := ws\<rparr>"

lemma body_world_list:
  "encode_world_list e ws =
     mem_of_u16 e (login_op_code WorldList) @ mem_of_u32 e (word_of_nat (length ws)) @
       concat (map (enc_world_entry e) ws)"
proof -
  have "fold (\<lambda>f. f) (concat (map (\<lambda>wd.
       [writer_u16 e (word_of_nat (length (we_name wd))), writer_str (we_name wd),
        writer_u16 e (word_of_nat (length (we_host wd))), writer_str (we_host wd),
        writer_u16 e (we_port wd), writer_u32 e (we_population wd)]) ws)) w =
      w @ concat (map (enc_world_entry e) ws)" for w
    by (induction ws arbitrary: w) (auto simp: enc_world_entry_def enc_str16_def writer_simps)
  then show ?thesis
    by (simp add: encode_world_list_def write_all_def writer_u16_def writer_u32_def
        del: login_op_code.simps)
qed

lemma login_bodies:
  "encode_client_hello e t u = mem_of_u16 e (login_op_code ClientHello) @ enc_str16 e t @ enc_str16 e u"
  "encode_client_proof e A M1 = mem_of_u16 e (login_op_code ClientProof) @ enc_bytes32 e A @ M1"
  "encode_server_challenge e s B =
     mem_of_u16 e (login_op_code ServerChallenge) @ enc_bytes16 e s @ enc_bytes32 e B"
  "encode_server_proof e M2 t = mem_of_u16 e (login_op_code ServerProof) @ M2 @ enc_str16 e t"
  "encode_login_error e = mem_of_u16 e (login_op_code ServerError)"
  by (simp_all add: encode_client_hello_def encode_client_proof_def encode_server_challenge_def
      encode_server_proof_def encode_login_error_def wire_simps del: login_op_code.simps)

lemma login_decode_encode:
  assumes "login_msg_fits m"
  shows "login_decode e (encode_login_msg e m @ rest) = Some (decoded_login_msg m)"
proof (cases m)
  case (MProof A M1)
  with assms have "reader_bytes 32 (M1 @ rest) = Some (M1, rest)"
    by (simp add: field_laws)
  with MProof assms show ?thesis
    by (simp add: login_bodies login_decode_def login_op_of_code_def login_fields_def)
next
  case (MServerProof M2 t)
  with assms have "reader_bytes 32 (M2 @ enc_str16 e t @ rest) = Some (M2, enc_str16 e t @ rest)"
    by (simp add: field_laws)
  with MServerProof assms show ?thesis
    by (simp add: login_bodies login_decode_def login_op_of_code_def login_fields_def)
qed (use assms in \<open>auto simp: login_bodies body_world_list login_decode_def login_op_of_code_def
      login_fields_def world_entry.many_enc\<close>)

lemma login_decode_only_encodings:
  assumes "login_decode e bs = Some d"
  shows "\<exists>m rest. login_msg_fits m \<and> bs = encode_login_msg e m @ rest \<and> d = decoded_login_msg m"
proof -
  obtain op r where bs: "bs = mem_of_u16 e (login_op_code op) @ r"
      and d: "login_fields e op r = Some d"
    using assms by (auto simp: login_decode_def bind_eq_Some_conv codec_laws login_op_of_code_Some)
  show ?thesis
  proof (cases op)
    case ClientHello
    then obtain t u rest where "r = enc_str16 e t @ enc_str16 e u @ rest"
        "login_msg_fits (MHello t u)" "d = decoded_login_msg (MHello t u)"
      using d by (auto simp: login_fields_def bind_eq_Some_conv codec_laws)
    then show ?thesis
      using ClientHello bs by (intro exI [of _ "MHello t u"] exI [of _ rest]) (simp add: login_bodies)
  next
    case ClientProof
    then obtain A M1 rest where "r = enc_bytes32 e A @ M1 @ rest"
        "login_msg_fits (MProof A M1)" "d = decoded_login_msg (MProof A M1)"
      using d by (auto simp: login_fields_def bind_eq_Some_conv codec_laws)
    then show ?thesis
      using ClientProof bs by (intro exI [of _ "MProof A M1"] exI [of _ rest]) (simp add: login_bodies)
  next
    case ServerChallenge
    then obtain s B rest where "r = enc_bytes16 e s @ enc_bytes32 e B @ rest"
        "login_msg_fits (MChallenge s B)" "d = decoded_login_msg (MChallenge s B)"
      using d by (auto simp: login_fields_def bind_eq_Some_conv codec_laws)
    then show ?thesis
      using ServerChallenge bs
      by (intro exI [of _ "MChallenge s B"] exI [of _ rest]) (simp add: login_bodies)
  next
    case ServerProof
    then obtain M2 t rest where "r = M2 @ enc_str16 e t @ rest"
        "login_msg_fits (MServerProof M2 t)" "d = decoded_login_msg (MServerProof M2 t)"
      using d by (auto simp: login_fields_def bind_eq_Some_conv codec_laws)
    then show ?thesis
      using ServerProof bs
      by (intro exI [of _ "MServerProof M2 t"] exI [of _ rest]) (simp add: login_bodies)
  next
    case ServerError
    then show ?thesis
      using d bs by (intro exI [of _ MError] exI [of _ r]) (simp add: login_fields_def login_bodies)
  next
    case WorldList
    then obtain count ws rest where "r = mem_of_u32 e count @ concat (map (enc_world_entry e) ws) @ rest"
        "length ws = unat count" "login_msg_fits (MWorlds ws)" "d = decoded_login_msg (MWorlds ws)"
      using d by (auto simp: login_fields_def bind_eq_Some_conv codec_laws world_entry.many_iff
          split: if_splits)
    then show ?thesis
      using WorldList bs
      by (intro exI [of _ "MWorlds ws"] exI [of _ rest]) (simp add: body_world_list)
  qed
qed

section \<open>Master messages\<close>

record redirect =
  r_ticket :: string
  r_login_host :: string
  r_login_port :: u16

definition encode_redirect :: "endian \<Rightarrow> string \<Rightarrow> string \<Rightarrow> u16 \<Rightarrow> bytes" where
  "encode_redirect e ticket login_host login_port =
     write_all
       [writer_u16 e (word_of_nat (length ticket)), writer_str ticket,
        writer_u16 e (word_of_nat (length login_host)), writer_str login_host,
        writer_u16 e login_port]"

definition decode_redirect :: "endian \<Rightarrow> bytes \<Rightarrow> redirect option" where
  "decode_redirect e msg =
     do { (ticket, r) \<leftarrow> reader_str16 e msg;
          (host, r) \<leftarrow> reader_str16 e r;
          (port, r) \<leftarrow> reader_u16 e r;
          Some \<lparr>r_ticket = ticket, r_login_host = host, r_login_port = port\<rparr> }"

definition encode_master_error :: "endian \<Rightarrow> bytes" where
  "encode_master_error e = write_all [writer_u16 e 0xFFFF]"

definition is_error :: "endian \<Rightarrow> bytes \<Rightarrow> bool" where
  "is_error e msg = (case reader_u16 e msg of Some (v, r) \<Rightarrow> v = 0xFFFF | None \<Rightarrow> False)"

lemma body_redirect:
  "encode_redirect e t h p = enc_str16 e t @ enc_str16 e h @ mem_of_u16 e p"
  by (simp add: encode_redirect_def wire_simps)

lemma decode_encode_redirect:
  "length t < 65536 \<Longrightarrow> length h < 65536 \<Longrightarrow>
     decode_redirect e (encode_redirect e t h p) = Some \<lparr>r_ticket = t, r_login_host = h, r_login_port = p\<rparr>"
  by (simp add: body_redirect decode_redirect_def)

text \<open>
  A client tells a redirection from an error by the first two bytes, which in a redirection are
  the length of the ticket: they differ for every ticket shorter than 65535 bytes.
\<close>

lemma u16_of_nat_max:
  assumes "n < 65536"
  shows "(word_of_nat n :: u16) = 0xFFFF \<longleftrightarrow> n = 65535"
proof
  assume "(word_of_nat n :: u16) = 0xFFFF"
  then have "unat (word_of_nat n :: u16) = unat (0xFFFF :: u16)" by (rule arg_cong)
  then show "n = 65535" using assms by simp
qed simp

lemma is_error_redirect:
  "length t < 65536 \<Longrightarrow> is_error e (encode_redirect e t h p) \<longleftrightarrow> length t = 65535"
  by (simp add: body_redirect enc_str16_def is_error_def u16_of_nat_max)

lemma is_error_error: "is_error e (encode_master_error e)"
  by (simp add: encode_master_error_def writer_simps is_error_def)

end
