(* ===== verification/Session.thy ===== *)
theory Session
  imports Byte_IO
begin

text \<open>
  One TCP session, \<open>include/session.hpp\<close>: the length-prefixed framing of \<open>send\<close> and
  \<open>read_frame\<close>, and the life cycle \<open>run\<close> over a handler that meets the \<open>StreamHandler\<close>
  concept of \<open>include/handler_concept.hpp\<close>. The network is a parameter: the bytes the peer
  delivers before its end of file, which idle timers fire first, and which writes fail. The main
  results are the exactness of the framing and that \<open>run\<close> over a byte stream is the handler
  applied to the framed messages, one after the other.
\<close>

section \<open>The connection a handler sees\<close>

text \<open>
  The outcome of an \<open>async_write\<close>: complete, or an error after some of its bytes were
  sent. A write without a recorded outcome succeeds.
\<close>

datatype write_outcome = Write_Ok | Write_Fails nat

record conn =
  conn_open :: bool
  sent :: bytes
  write_outcomes :: "write_outcome list"

definition fresh_conn :: conn where
  "fresh_conn = \<lparr> conn_open = True, sent = [], write_outcomes = [] \<rparr>"

definition session_close :: "conn \<Rightarrow> conn" where
  "session_close c = c\<lparr>conn_open := False\<rparr>"

text \<open>The header of a message (its length in network order) followed by the message.\<close>

definition frame :: "endian \<Rightarrow> bytes \<Rightarrow> bytes" where
  "frame e payload = mem_of_u32 e (to_network e (word_of_nat (length payload))) @ payload"

definition session_send :: "endian \<Rightarrow> bytes \<Rightarrow> conn \<Rightarrow> conn" where
  "session_send e payload c =
     (if \<not> conn_open c then session_close c
      else case write_outcomes c of
             [] \<Rightarrow> c\<lparr>sent := sent c @ frame e payload\<rparr>
           | Write_Ok # ws \<Rightarrow> c\<lparr>sent := sent c @ frame e payload, write_outcomes := ws\<rparr>
           | Write_Fails n # ws \<Rightarrow>
               session_close (c\<lparr>sent := sent c @ take n (frame e payload), write_outcomes := ws\<rparr>))"

text \<open>
  \<open>inp\<close> is what the peer still delivers before the end of the stream: \<open>async_read\<close>
  reports an error when the stream ends before the bytes it asks for.
\<close>

definition read_frame :: "endian \<Rightarrow> nat \<Rightarrow> bytes \<Rightarrow> (bytes \<times> bytes) option" where
  "read_frame e max_frame_bytes inp =
     (if length inp < kFrameHeaderSize then None
      else
        let len = from_network e (u32_of_mem e (take kFrameHeaderSize inp));
            rest = drop kFrameHeaderSize inp
        in if len = 0 \<or> unat len > max_frame_bytes then None
           else if length rest < unat len then None
           else Some (take (unat len) rest, drop (unat len) rest))"

section \<open>Handlers and the life of a session\<close>

text \<open>
  What a handler provides. A call returns the exception it threw, if any, with the state as it
  was left at that point: effects before a throw are kept.
\<close>

record 'h handler =
  on_connect :: "'h \<Rightarrow> conn \<Rightarrow> exn option \<times> 'h \<times> conn"
  on_message :: "bytes \<Rightarrow> 'h \<Rightarrow> conn \<Rightarrow> exn option \<times> 'h \<times> conn"
  on_disconnect :: "'h \<Rightarrow> 'h"

lemma read_frame_shorter:
  "read_frame e m inp = Some (p, rest) \<Longrightarrow> length rest < length inp"
  by (auto simp: read_frame_def Let_def kFrameHeaderSize_def split: if_splits)

text \<open>
  The loop of \<open>run\<close>: \<open>idle_wins k\<close> says that in its \<open>k\<close>-th turn the idle timer expires
  before a frame is complete. A read on a closed socket fails at once.
\<close>

function run_loop :: "endian \<Rightarrow> nat \<Rightarrow> 'h handler \<Rightarrow> (nat \<Rightarrow> bool) \<Rightarrow> nat \<Rightarrow> bytes \<Rightarrow> 'h \<Rightarrow> conn
    \<Rightarrow> 'h \<times> conn" where
  "run_loop e max_frame_bytes H idle_wins k inp h c =
     (if idle_wins k then (h, c)
      else if \<not> conn_open c then (h, c)
      else case read_frame e max_frame_bytes inp of
             None \<Rightarrow> (h, c)
           | Some (payload, rest) \<Rightarrow>
               (case on_message H payload h c of
                  (Some ex, h', c') \<Rightarrow> (h', c')
                | (None, h', c') \<Rightarrow>
                    run_loop e max_frame_bytes H idle_wins (Suc k) rest h' c'))"
  by pat_completeness auto
termination
  by (relation "measure (\<lambda>(e, m, H, i, k, inp, h, c). length inp)") (auto dest: read_frame_shorter)

declare run_loop.simps [simp del]

definition session_run :: "endian \<Rightarrow> nat \<Rightarrow> 'h handler \<Rightarrow> (nat \<Rightarrow> bool) \<Rightarrow> bytes \<Rightarrow> 'h \<Rightarrow> conn
    \<Rightarrow> 'h \<times> conn" where
  "session_run e max_frame_bytes H idle_wins inp h c =
     (let (h, c) =
        (case on_connect H h c of
           (Some ex, h', c') \<Rightarrow> (h', c')
         | (None, h', c') \<Rightarrow> run_loop e max_frame_bytes H idle_wins 0 inp h' c')
      in (on_disconnect H h, session_close c))"

section \<open>Framing is exact\<close>

lemma byteswap32_involution [simp]: "byteswap32 (byteswap32 v) = v"
proof -
  have "mem_of_u32 Little_Endian (byteswap32 w) = mem_of_u32 Big_Endian w" for w
    using mem_of_to_network [of Little_Endian w] by (simp add: to_network_def)
  moreover have "rev (mem_of_u32 Big_Endian w) = mem_of_u32 Little_Endian w" for w
    by (simp add: mem_of_u32_def Let_def)
  ultimately have "mem_of_u32 Little_Endian (byteswap32 (byteswap32 v)) = mem_of_u32 Little_Endian v"
    by (metis rev_rev_ident)
  then show ?thesis by (metis u32_of_mem_mem_of_u32)
qed

lemma network_inverse [simp]: "from_network e (to_network e v) = v" "to_network e (from_network e v) = v"
  by (simp_all add: from_network_def to_network_def split: endian.split)

definition frame_fits :: "nat \<Rightarrow> bytes \<Rightarrow> bool" where
  "frame_fits m p \<longleftrightarrow> p \<noteq> [] \<and> length p \<le> m \<and> length p < 4294967296"

interpretation frames: prefix_codec "frame e" "read_frame e m" "frame_fits m" for e m
proof unfold_locales
  fix bs x r
  show "read_frame e m bs = Some (x, r) \<longleftrightarrow> frame_fits m x \<and> bs = frame e x @ r"
  proof
    assume L: "read_frame e m bs = Some (x, r)"
    let ?len = "from_network e (u32_of_mem e (take 4 bs))"
    from L have len: "4 \<le> length bs" "?len \<noteq> 0" "unat ?len \<le> m" "unat ?len \<le> length bs - 4"
        and x: "x = take (unat ?len) (drop 4 bs)" and r: "r = drop (unat ?len) (drop 4 bs)"
      by (auto simp: read_frame_def kFrameHeaderSize_def Let_def split: if_splits)
    have lx: "length x = unat ?len" using x len by simp
    have "mem_of_u32 e (to_network e ?len) = take 4 bs"
      using len by (simp add: mem_of_u32_u32_of_mem)
    moreover have "take 4 bs @ x @ r = bs"
      unfolding x r append_take_drop_id ..
    moreover have "frame_fits m x"
      using lx len unat_u32_less [of ?len] by (auto simp: frame_fits_def unat_eq_zero)
    ultimately show "frame_fits m x \<and> bs = frame e x @ r"
      using lx by (simp add: frame_def)
  next
    assume R: "frame_fits m x \<and> bs = frame e x @ r"
    then have len: "unat (word_of_nat (length x) :: u32) = length x"
      by (simp add: frame_fits_def)
    have "(word_of_nat (length x) :: u32) \<noteq> 0"
    proof
      assume "(word_of_nat (length x) :: u32) = 0"
      with len have "length x = 0" by (metis unsigned_0)
      with R show False by (simp add: frame_fits_def)
    qed
    with R len show "read_frame e m bs = Some (x, r)"
      by (simp add: read_frame_def frame_def kFrameHeaderSize_def frame_fits_def)
  qed
qed

text \<open>The frame does not depend on the byte order of the host that builds it.\<close>

lemma frame_host_independent: "frame e p = frame e' p"
  by (simp add: frame_def mem_of_to_network [of e] mem_of_to_network [of e'])

lemma length_frame [simp]: "length (frame e p) = 4 + length p"
  by (simp add: frame_def)

lemma read_frame_empty_message: "read_frame e m (frame e' [] @ rest) = None"
proof -
  have "read_frame e m (frame e [] @ rest) = None"
    by (simp add: read_frame_def frame_def kFrameHeaderSize_def)
  then show ?thesis using frame_host_independent by metis
qed

section \<open>A session is its handler applied to the messages\<close>

fun feed :: "'h handler \<Rightarrow> bytes list \<Rightarrow> 'h \<Rightarrow> conn \<Rightarrow> 'h \<times> conn" where
  "feed H [] h c = (h, c)"
| "feed H (p # ps) h c =
     (if \<not> conn_open c then (h, c)
      else case on_message H p h c of
             (Some ex, h', c') \<Rightarrow> (h', c')
           | (None, h', c') \<Rightarrow> feed H ps h' c')"

lemma run_loop_feed:
  assumes "\<And>k. \<not> idle_wins k" and "\<forall>p \<in> set ps. frame_fits m p" and "read_frame e m rest = None"
  shows "run_loop e m H idle_wins k (concat (map (frame e) ps) @ rest) h c = feed H ps h c"
  using assms(2)
proof (induction ps arbitrary: k h c)
  case Nil
  then show ?case using assms(1,3) by (simp add: run_loop.simps)
next
  case (Cons p ps)
  then show ?case
    using assms(1)
    by (simp add: run_loop.simps [of _ _ _ _ k] frames.dec_enc split: prod.split option.split)
qed

lemma run_loop_single:
  assumes "\<And>k. \<not> idle_wins k" and "frame_fits m p"
  shows "run_loop e m H idle_wins k (frame e p) h c = feed H [p] h c"
proof -
  have "read_frame e m [] = None"
    by (simp add: read_frame_def kFrameHeaderSize_def)
  then have "run_loop e m H idle_wins k (concat (map (frame e) [p]) @ []) h c = feed H [p] h c"
    using assms by (intro run_loop_feed) auto
  then show ?thesis by simp
qed

lemma session_run_closes: "\<not> conn_open (snd (session_run e m H idle_wins inp h c))"
  by (simp add: session_run_def session_close_def Let_def split: prod.split)

end
