(* ===== verification/Server_Role.thy ===== *)
theory Server_Role
  imports Prelude
begin

text \<open>
  The compile-time configuration of each server role, \<open>include/server_role.hpp\<close>: the
  specialisations \<open>ServerConfig<Role>\<close> as functions of the role, and \<open>to_string\<close>.
\<close>

datatype server_role = Master | Login | World | Internal

fun role_to_string :: "server_role \<Rightarrow> string" where
  "role_to_string Master = ''Master''"
| "role_to_string Login = ''Login''"
| "role_to_string World = ''World''"
| "role_to_string Internal = ''Internal''"

fun max_connections :: "server_role \<Rightarrow> nat" where
  "max_connections Master = 64"
| "max_connections Login = 8192"
| "max_connections World = 20000"
| "max_connections Internal = 256"

fun read_buffer_bytes :: "server_role \<Rightarrow> nat" where
  "read_buffer_bytes Master = 4096"
| "read_buffer_bytes Login = 2048"
| "read_buffer_bytes World = 8192"
| "read_buffer_bytes Internal = 4096"

text \<open>\<open>0\<close> stands for \<open>hardware_concurrency()\<close>.\<close>

fun io_threads :: "server_role \<Rightarrow> nat" where
  "io_threads Master = 1"
| "io_threads Login = 0"
| "io_threads World = 0"
| "io_threads Internal = 1"

fun idle_timeout_seconds :: "server_role \<Rightarrow> nat" where
  "idle_timeout_seconds Master = 120"
| "idle_timeout_seconds Login = 30"
| "idle_timeout_seconds World = 300"
| "idle_timeout_seconds Internal = 10"

text \<open>The number of worker threads the constructor of \<open>Server\<close> settles on.\<close>

definition thread_count :: "server_role \<Rightarrow> nat \<Rightarrow> nat" where
  "thread_count role hardware_concurrency =
     (if io_threads role \<noteq> 0 then io_threads role else max 1 hardware_concurrency)"

lemma thread_count_pos: "0 < thread_count role hw"
  by (cases role) (simp_all add: thread_count_def)

end
