(* ===== verification/Store_RPC.thy ===== *)
theory Store_RPC
  imports Shared_Store Store_Wire Session Server_Role
begin

text \<open>
  The store over the network: \<open>StoreHandler\<close> (\<open>include/store/store_handler.hpp\<close>), which
  serves it on Master's internal port, and \<open>StoreClient\<close> (\<open>include/store/store_client.hpp\<close>),
  which Login and World use, with one short connection per call. The main result is that the
  client, through the wire format, the framing and the session of the server, meets the same
  contract as the store in memory.
\<close>

section \<open>StoreHandler\<close>

text \<open>
  The handler's state: the store, and the clock as the sequence of its readings with the number
  of readings taken so far.
\<close>

record store_server =
  sv_store :: shared_store
  sv_clock :: "nat \<Rightarrow> time"
  sv_ticks :: nat

definition sv_now :: "store_server \<Rightarrow> time" where
  "sv_now sv = sv_clock sv (sv_ticks sv)"

definition sv_tick :: "nat \<Rightarrow> store_server \<Rightarrow> store_server" where
  "sv_tick n sv = sv\<lparr>sv_ticks := sv_ticks sv + n\<rparr>"

text \<open>\<open>co_await session.send(encode_...(hmac_key_, ...))\<close>: the encoder may throw.\<close>

definition reply_with :: "endian \<Rightarrow> bytes result \<Rightarrow> 'h \<Rightarrow> conn \<Rightarrow> exn option \<times> 'h \<times> conn" where
  "reply_with e r h c =
     (case r of Inl ex \<Rightarrow> (Some ex, h, c) | Inr msg \<Rightarrow> (None, h, session_send e msg c))"

definition store_on_message :: "endian \<Rightarrow> openssl \<Rightarrow> bytes \<Rightarrow> iteration \<Rightarrow> bytes
    \<Rightarrow> store_server \<Rightarrow> conn \<Rightarrow> exn option \<times> store_server \<times> conn" where
  "store_on_message e E hmac_key iter payload sv c =
     (case decode_and_verify e E hmac_key payload of
        Inl ex \<Rightarrow> (Some ex, sv, c)
      | Inr None \<Rightarrow> (None, sv, c)
      | Inr (Some d) \<Rightarrow>
          (case d_op d of
             Op_Put \<Rightarrow>
               reply_with e (encode_ok e E hmac_key)
                 (sv_tick 1 (sv\<lparr>sv_store :=
                    store_put (d_key d) (d_value d) (uint (d_ttl_seconds d)) (sv_now sv) (sv_store sv)\<rparr>)) c
           | Op_Get \<Rightarrow>
               (case store_get (d_key d) (sv_now sv) (sv_store sv) of
                  Some v \<Rightarrow> reply_with e (encode_value e E hmac_key v) (sv_tick 1 sv) c
                | None \<Rightarrow> reply_with e (encode_not_found e E hmac_key) (sv_tick 1 sv) c)
           | Op_Take \<Rightarrow>
               (case store_take (d_key d) (sv_now sv) (sv_store sv) of
                  (Some v, s) \<Rightarrow>
                    reply_with e (encode_value e E hmac_key v) (sv_tick 1 (sv\<lparr>sv_store := s\<rparr>)) c
                | (None, s) \<Rightarrow>
                    reply_with e (encode_not_found e E hmac_key) (sv_tick 1 (sv\<lparr>sv_store := s\<rparr>)) c)
           | Op_ListPrefix \<Rightarrow>
               reply_with e
                 (encode_list e E hmac_key
                   (store_list_prefix iter (\<lambda>j. sv_clock sv (sv_ticks sv + j)) (d_key d) (sv_store sv)))
                 (sv_tick (store_size (sv_store sv)) sv) c
           | _ \<Rightarrow> (None, sv, c)))"

lemma reply_with_state: "reply_with e r h c = (ex, h', c') \<Longrightarrow> h' = h"
  by (auto simp: reply_with_def split: sum.splits)

lemma store_signed_core:
  assumes "openssl_documented E" and step: "store_on_message e E hk iter msg sv c = (ex, sv', c')"
    and changed: "sv' \<noteq> sv \<or> c' \<noteq> c"
  shows "\<exists>body mac d. msg = body @ mac \<and> hmac_sha256 E hk body = Inr mac \<and> decode_body e body = Some d \<and>
    (sv_store sv' \<noteq> sv_store sv \<longrightarrow>
       d_op d = Op_Put \<and> sv_store sv' =
         store_put (d_key d) (d_value d) (uint (d_ttl_seconds d)) (sv_now sv) (sv_store sv) \<or>
       d_op d = Op_Take \<and> sv_store sv' = snd (store_take (d_key d) (sv_now sv) (sv_store sv)))"
proof -
  from step changed obtain d where d: "decode_and_verify e E hk msg = Inr (Some d)"
    by (auto simp: store_on_message_def split: sum.splits option.splits)
  have "sv_store sv' \<noteq> sv_store sv \<longrightarrow>
       d_op d = Op_Put \<and> sv_store sv' =
         store_put (d_key d) (d_value d) (uint (d_ttl_seconds d)) (sv_now sv) (sv_store sv) \<or>
       d_op d = Op_Take \<and> sv_store sv' = snd (store_take (d_key d) (sv_now sv) (sv_store sv))"
    using step
    by (cases "d_op d")
      (auto simp: store_on_message_def d sv_tick_def dest!: reply_with_state split: option.splits prod.splits)
  with accepted_is_signed [OF assms(1) d] show ?thesis by blast
qed

definition store_handler :: "endian \<Rightarrow> openssl \<Rightarrow> bytes \<Rightarrow> iteration \<Rightarrow> store_server handler" where
  "store_handler e E hmac_key iter =
     \<lparr> on_connect = (\<lambda>sv c. (None, sv, c)),
       on_message = store_on_message e E hmac_key iter,
       on_disconnect = (\<lambda>sv. sv) \<rparr>"

text \<open>
  One connection to the internal server: the bytes the client sends before it closes, and the
  bytes it is sent back.
\<close>

definition store_serve :: "endian \<Rightarrow> openssl \<Rightarrow> bytes \<Rightarrow> iteration \<Rightarrow> bytes \<Rightarrow> store_server
    \<Rightarrow> bytes \<times> store_server" where
  "store_serve e E hmac_key iter inp sv =
     (let (sv', c) = session_run e (read_buffer_bytes Internal) (store_handler e E hmac_key iter)
                       (\<lambda>_. False) inp sv fresh_conn
      in (sent c, sv'))"

section \<open>StoreClient\<close>

text \<open>
  The network between a client and whatever listens at the other end (\<open>'w\<close>): whether the
  name resolves and the connection opens, the outcome of the write, and what the peer answers
  to the bytes that reached it.
\<close>

record 'w network =
  net_resolves :: bool
  net_connects :: bool
  net_write :: write_outcome
  net_exchange :: "bytes \<Rightarrow> 'w \<Rightarrow> bytes \<times> 'w"

definition kMaxResponseBytes :: nat where
  "kMaxResponseBytes = 1048576"

definition roundtrip :: "endian \<Rightarrow> openssl \<Rightarrow> bytes \<Rightarrow> 'w network \<Rightarrow> bytes \<Rightarrow> 'w
    \<Rightarrow> store_decoded option result \<times> 'w" where
  "roundtrip e E hmac_key net request w =
     (if \<not> net_resolves net then (Inr None, w)
      else if \<not> net_connects net then (Inr None, w)
      else case net_write net of
             Write_Fails n \<Rightarrow> (Inr None, snd (net_exchange net (take n (frame e request)) w))
           | Write_Ok \<Rightarrow>
               (let (inp, w') = net_exchange net (frame e request) w
                in case read_frame e kMaxResponseBytes inp of
                     None \<Rightarrow> (Inr None, w')
                   | Some (body, rest) \<Rightarrow> (decode_and_verify e E hmac_key body, w')))"

definition client_put :: "endian \<Rightarrow> openssl \<Rightarrow> bytes \<Rightarrow> 'w network \<Rightarrow> string \<Rightarrow> bytes \<Rightarrow> int \<Rightarrow> 'w
    \<Rightarrow> bool result \<times> 'w" where
  "client_put e E hmac_key net key val ttl w =
     (case encode_put e E hmac_key key val (word_of_int ttl) of
        Inl ex \<Rightarrow> (Inl ex, w)
      | Inr req \<Rightarrow>
          (let (r, w') = roundtrip e E hmac_key net req w
           in (bind_result r (\<lambda>resp.
                 Inr (case resp of None \<Rightarrow> False | Some d \<Rightarrow> d_op d = Op_Ok)), w')))"

definition get_or_take :: "endian \<Rightarrow> openssl \<Rightarrow> bytes \<Rightarrow> 'w network \<Rightarrow> store_op \<Rightarrow> string \<Rightarrow> 'w
    \<Rightarrow> bytes option result \<times> 'w" where
  "get_or_take e E hmac_key net op key w =
     (case encode_get_or_take e E op hmac_key key of
        Inl ex \<Rightarrow> (Inl ex, w)
      | Inr req \<Rightarrow>
          (let (r, w') = roundtrip e E hmac_key net req w
           in (bind_result r (\<lambda>resp.
                 Inr (case resp of
                        None \<Rightarrow> None
                      | Some d \<Rightarrow> if d_op d \<noteq> Op_Value then None else Some (d_value d))), w')))"

definition client_get :: "endian \<Rightarrow> openssl \<Rightarrow> bytes \<Rightarrow> 'w network \<Rightarrow> string \<Rightarrow> 'w
    \<Rightarrow> bytes option result \<times> 'w" where
  "client_get e E hmac_key net key w = get_or_take e E hmac_key net Op_Get key w"

definition client_take :: "endian \<Rightarrow> openssl \<Rightarrow> bytes \<Rightarrow> 'w network \<Rightarrow> string \<Rightarrow> 'w
    \<Rightarrow> bytes option result \<times> 'w" where
  "client_take e E hmac_key net key w = get_or_take e E hmac_key net Op_Take key w"

definition client_list_prefix :: "endian \<Rightarrow> openssl \<Rightarrow> bytes \<Rightarrow> 'w network \<Rightarrow> string \<Rightarrow> 'w
    \<Rightarrow> store_list_entry list result \<times> 'w" where
  "client_list_prefix e E hmac_key net prefix w =
     (case encode_list_prefix e E hmac_key prefix of
        Inl ex \<Rightarrow> (Inl ex, w)
      | Inr req \<Rightarrow>
          (let (r, w') = roundtrip e E hmac_key net req w
           in (bind_result r (\<lambda>resp.
                 Inr (case resp of
                        None \<Rightarrow> []
                      | Some d \<Rightarrow> if d_op d \<noteq> Op_List then [] else d_entries d)), w')))"

section \<open>A call reaches the store\<close>

text \<open>The loopback: a working network whose other end is the internal server of Master.\<close>

definition loopback :: "endian \<Rightarrow> openssl \<Rightarrow> bytes \<Rightarrow> iteration \<Rightarrow> store_server network" where
  "loopback e E hmac_key iter =
     \<lparr> net_resolves = True, net_connects = True, net_write = Write_Ok,
       net_exchange = store_serve e E hmac_key iter \<rparr>"

lemma length_sign_and_take:
  "sign_and_take E hk ops = Inr msg \<Longrightarrow> length msg = length (write_all ops) + 32"
  by (auto simp: sign_and_take_Inr length_hmac kHmacSize_def)

lemma length_messages:
  "encode_put e E hk key val ttl = Inr msg \<Longrightarrow> length msg = 44 + length key + length val"
  "encode_get_or_take e E op hk key = Inr msg \<Longrightarrow> length msg = 44 + length key"
  "encode_ok e E hk = Inr msg \<Longrightarrow> length msg = 34"
  "encode_not_found e E hk = Inr msg \<Longrightarrow> length msg = 34"
  "encode_value e E hk val = Inr msg \<Longrightarrow> length msg = 38 + length val"
  by (auto simp: encode_put_def encode_get_or_take_def encode_ok_def encode_not_found_def
      encode_value_def writer_simps dest!: length_sign_and_take simp del: op_code.simps)

lemma sign_and_take_available: "hmac_available E hk \<Longrightarrow> \<exists>msg. sign_and_take E hk ops = Inr msg"
  by (auto simp: sign_and_take_Inr elim: hmac_availableE)

lemma encoders_available:
  assumes "hmac_available E hk"
  shows "\<exists>msg. encode_put e E hk key val ttl = Inr msg"
    and "\<exists>msg. encode_get_or_take e E op hk key = Inr msg"
    and "\<exists>msg. encode_ok e E hk = Inr msg"
    and "\<exists>msg. encode_not_found e E hk = Inr msg"
    and "\<exists>msg. encode_value e E hk val = Inr msg"
    and "\<exists>msg. encode_list e E hk es = Inr msg"
  unfolding encode_put_def encode_get_or_take_def encode_ok_def encode_not_found_def
    encode_value_def encode_list_def
  by (rule sign_and_take_available [OF assms])+

text \<open>The server answers one well-framed request with what its handler sends.\<close>

lemma store_serve_one:
  assumes "frame_fits (read_buffer_bytes Internal) req"
  shows "store_serve e E hk iter (frame e req) sv =
    (case store_on_message e E hk iter req sv fresh_conn of (ex, sv', c') \<Rightarrow> (sent c', sv'))"
  using assms
  by (simp add: store_serve_def session_run_def store_handler_def run_loop_single fresh_conn_def
      session_close_def split: prod.split option.split)

lemma roundtrip_loopback:
  assumes "frame_fits (read_buffer_bytes Internal) req"
    and "store_on_message e E hk iter req sv fresh_conn = (None, sv', session_send e resp fresh_conn)"
    and "frame_fits kMaxResponseBytes resp"
  shows "roundtrip e E hk (loopback e E hk iter) req sv = (decode_and_verify e E hk resp, sv')"
proof -
  have "sent (session_send e resp fresh_conn) = frame e resp"
    by (simp add: session_send_def fresh_conn_def)
  then show ?thesis
    using assms frames.dec_enc [OF assms(3), of e "[]"]
    by (simp add: roundtrip_def loopback_def store_serve_one [OF assms(1)])
qed

text \<open>What the server supports: the sizes that fit its receive buffer and its reply limit.\<close>

definition rpc_put_ok :: "string \<Rightarrow> bytes \<Rightarrow> int \<Rightarrow> bool" where
  "rpc_put_ok key val ttl \<longleftrightarrow> 44 + length key + length val \<le> 4096 \<and> 0 \<le> ttl \<and> ttl < 4294967296"

definition rpc_key_ok :: "string \<Rightarrow> bool" where
  "rpc_key_ok key \<longleftrightarrow> 44 + length key \<le> 4096"

definition rpc_value_ok :: "bytes \<Rightarrow> bool" where
  "rpc_value_ok v \<longleftrightarrow> 38 + length v \<le> kMaxResponseBytes"

definition crypto_ok :: "openssl \<Rightarrow> bytes \<Rightarrow> bool" where
  "crypto_ok E hk \<longleftrightarrow> openssl_documented E \<and> hmac_available E hk"

lemma frame_fitsI: "0 < length p \<Longrightarrow> length p \<le> m \<Longrightarrow> length p < 4294967296 \<Longrightarrow> frame_fits m p"
  by (auto simp: frame_fits_def)

lemma client_put_loopback:
  assumes "crypto_ok E hk" and "rpc_put_ok key val ttl"
  shows "client_put e E hk (loopback e E hk iter) key val ttl sv =
    (Inr True, sv_tick 1 (sv\<lparr>sv_store := store_put key val ttl (sv_now sv) (sv_store sv)\<rparr>))"
proof -
  let ?sv = "sv_tick 1 (sv\<lparr>sv_store := store_put key val ttl (sv_now sv) (sv_store sv)\<rparr>)"
  from assms(1) have doc: "openssl_documented E" and av: "hmac_available E hk"
    by (simp_all add: crypto_ok_def)
  obtain req where req: "encode_put e E hk key val (word_of_int ttl) = Inr req"
    using encoders_available(1) [OF av] by blast
  obtain resp where resp: "encode_ok e E hk = Inr resp"
    using encoders_available(3) [OF av] by blast
  have ttl: "uint (word_of_int ttl :: u32) = ttl"
    using assms(2) by (simp add: rpc_put_ok_def uint_word_of_int)
  have "store_on_message e E hk iter req sv fresh_conn = (None, ?sv, session_send e resp fresh_conn)"
    using put_roundtrip [OF doc req] assms(2)
    by (simp add: store_on_message_def rpc_put_ok_def resp reply_with_def ttl decoded_init_def)
  then have "roundtrip e E hk (loopback e E hk iter) req sv = (decode_and_verify e E hk resp, ?sv)"
    using assms(2) length_messages(1) [OF req] length_messages(3) [OF resp]
    by (intro roundtrip_loopback frame_fitsI) (auto simp: rpc_put_ok_def kMaxResponseBytes_def)
  then show ?thesis
    by (simp add: client_put_def req ok_roundtrip [OF doc resp] decoded_init_def)
qed

text \<open>\<open>Get\<close> and \<open>Take\<close> return their result in the same two messages.\<close>

lemma get_or_take_loopback:
  assumes "crypto_ok E hk" and "rpc_key_ok key" and "op \<in> {Op_Get, Op_Take}"
    and handler: "\<And>req. decode_and_verify e E hk req = Inr (Some ((decoded_init op)\<lparr>d_key := key\<rparr>)) \<Longrightarrow>
      store_on_message e E hk iter req sv fresh_conn =
        (case res of
           Some v \<Rightarrow> reply_with e (encode_value e E hk v) sv' fresh_conn
         | None \<Rightarrow> reply_with e (encode_not_found e E hk) sv' fresh_conn)"
    and fits: "\<And>v. res = Some v \<Longrightarrow> rpc_value_ok v"
  shows "get_or_take e E hk (loopback e E hk iter) op key sv = (Inr res, sv')"
proof -
  from assms(1) have doc: "openssl_documented E" and av: "hmac_available E hk"
    by (simp_all add: crypto_ok_def)
  obtain req where req: "encode_get_or_take e E op hk key = Inr req"
    using encoders_available(2) [OF av] by blast
  have dec: "decode_and_verify e E hk req = Inr (Some ((decoded_init op)\<lparr>d_key := key\<rparr>))"
    using assms(2,3) by (intro get_or_take_roundtrip [OF doc req]) (auto simp: rpc_key_ok_def)
  have fit: "frame_fits (read_buffer_bytes Internal) req"
    using assms(2) length_messages(2) [OF req] by (intro frame_fitsI) (auto simp: rpc_key_ok_def)
  show ?thesis
  proof (cases res)
    case None
    obtain resp where resp: "encode_not_found e E hk = Inr resp"
      using encoders_available(4) [OF av] by blast
    have "roundtrip e E hk (loopback e E hk iter) req sv = (decode_and_verify e E hk resp, sv')"
      using handler [OF dec] length_messages(4) [OF resp]
      by (intro roundtrip_loopback [OF fit] frame_fitsI)
        (auto simp: None resp reply_with_def kMaxResponseBytes_def)
    then show ?thesis
      by (simp add: get_or_take_def req not_found_roundtrip [OF doc resp] decoded_init_def None)
  next
    case (Some v)
    obtain resp where resp: "encode_value e E hk v = Inr resp"
      using encoders_available(5) [OF av] by blast
    have "roundtrip e E hk (loopback e E hk iter) req sv = (decode_and_verify e E hk resp, sv')"
      using handler [OF dec] length_messages(5) [OF resp] fits [OF Some]
      by (intro roundtrip_loopback [OF fit] frame_fitsI)
        (auto simp: Some resp reply_with_def rpc_value_ok_def kMaxResponseBytes_def)
    moreover have "length v < 4294967296"
      using fits [OF Some] by (simp add: rpc_value_ok_def kMaxResponseBytes_def)
    ultimately show ?thesis
      by (simp add: get_or_take_def req value_roundtrip [OF doc resp] decoded_init_def Some)
  qed
qed

lemma client_get_loopback:
  assumes "crypto_ok E hk" and "rpc_key_ok key"
    and "\<And>v. live (sv_now sv) (sv_store sv) key = Some v \<Longrightarrow> rpc_value_ok v"
  shows "client_get e E hk (loopback e E hk iter) key sv =
    (Inr (live (sv_now sv) (sv_store sv) key), sv_tick 1 sv)"
  unfolding client_get_def
  by (rule get_or_take_loopback [OF assms(1,2)])
    (auto simp: store_on_message_def decoded_init_def store_get_live assms(3) split: option.split)

lemma client_take_loopback:
  assumes "crypto_ok E hk" and "rpc_key_ok key"
    and "\<And>v. live (sv_now sv) (sv_store sv) key = Some v \<Longrightarrow> rpc_value_ok v"
  shows "client_take e E hk (loopback e E hk iter) key sv =
    (Inr (live (sv_now sv) (sv_store sv) key),
     sv_tick 1 (sv\<lparr>sv_store := snd (store_take key (sv_now sv) (sv_store sv))\<rparr>))"
  unfolding client_take_def
  by (rule get_or_take_loopback [OF assms(1,2)])
    (auto simp: store_on_message_def decoded_init_def assms(3) split_def
      simp flip: fst_store_take split: option.split)

text \<open>
  A request larger than the server's receive buffer: the session ends without an answer, and
  the call fails without effect.
\<close>

lemma store_serve_oversize:
  assumes "read_buffer_bytes Internal < length req" and "length req < 4294967296"
  shows "store_serve e E hk iter (frame e req) sv = ([], sv)"
proof -
  have "read_frame e (read_buffer_bytes Internal) (frame e req) = None"
  proof (rule ccontr)
    assume "read_frame e (read_buffer_bytes Internal) (frame e req) \<noteq> None"
    then obtain x r where "read_frame e (read_buffer_bytes Internal) (frame e req) = Some (x, r)"
      by fastforce
    then have x: "frame_fits (read_buffer_bytes Internal) x" "frame e req = frame e x @ r"
      by (simp_all only: frames.dec_iff)
    have "frame_fits (length req) req" "frame_fits (length req) x"
      using assms x(1) by (auto simp: frame_fits_def)
    then have "x = req" using frames.enc_prefix_free [of "length req" req x e "[]" r] x(2) by simp
    with x(1) assms(1) show False by (simp add: frame_fits_def)
  qed
  then show ?thesis
    by (simp add: store_serve_def session_run_def store_handler_def run_loop.simps fresh_conn_def
        session_close_def)
qed

lemma roundtrip_oversize:
  assumes "read_buffer_bytes Internal < length req" and "length req < 4294967296"
  shows "roundtrip e E hk (loopback e E hk iter) req sv = (Inr None, sv)"
  using store_serve_oversize [OF assms]
  by (simp add: roundtrip_def loopback_def read_frame_def kFrameHeaderSize_def)

lemma client_take_oversize:
  assumes "crypto_ok E hk" and "\<not> rpc_key_ok key" and "length key < 65536"
  shows "client_take e E hk (loopback e E hk iter) key sv = (Inr None, sv)"
proof -
  obtain req where req: "encode_get_or_take e E Op_Take hk key = Inr req"
    using encoders_available(2) assms(1) unfolding crypto_ok_def by metis
  then show ?thesis
    using assms(2,3) length_messages(2) [OF req] roundtrip_oversize [of req e E hk iter sv]
    by (simp add: client_take_def get_or_take_def rpc_key_ok_def)
qed

lemma client_put_oversize:
  assumes "crypto_ok E hk" and "4096 < 44 + length key + length val"
    and "length key + length val < 1000000"
  shows "client_put e E hk (loopback e E hk iter) key val ttl sv = (Inr False, sv)"
proof -
  obtain req where req: "encode_put e E hk key val (word_of_int ttl) = Inr req"
    using encoders_available(1) assms(1) unfolding crypto_ok_def by metis
  then show ?thesis
    using assms(2,3) length_messages(1) [OF req] roundtrip_oversize [of req e E hk iter sv]
    by (simp add: client_put_def)
qed

text \<open>Listing leaves the store alone, whatever becomes of the answer.\<close>

lemma client_list_prefix_same:
  assumes "crypto_ok E hk" and "rpc_key_ok prefix"
    and "client_list_prefix e E hk (loopback e E hk iter) prefix sv = (res, sv')"
  shows "sv' = sv_tick (store_size (sv_store sv)) sv"
proof -
  from assms(1) have doc: "openssl_documented E" and av: "hmac_available E hk"
    by (simp_all add: crypto_ok_def)
  obtain req where req: "encode_get_or_take e E Op_ListPrefix hk prefix = Inr req"
    using encoders_available(2) [OF av] by blast
  have dec: "decode_and_verify e E hk req = Inr (Some ((decoded_init Op_ListPrefix)\<lparr>d_key := prefix\<rparr>))"
    using assms(2) by (intro get_or_take_roundtrip [OF doc req]) (auto simp: rpc_key_ok_def)
  have "frame_fits (read_buffer_bytes Internal) req"
    using assms(2) length_messages(2) [OF req] by (intro frame_fitsI) (auto simp: rpc_key_ok_def)
  from store_serve_one [OF this, of e E hk iter sv]
  have "snd (store_serve e E hk iter (frame e req) sv) = sv_tick (store_size (sv_store sv)) sv"
    using dec
    by (simp add: store_on_message_def decoded_init_def reply_with_def split: prod.splits sum.splits)
  then show ?thesis
    using assms(3) req
    by (auto simp: client_list_prefix_def encode_list_prefix_def roundtrip_def loopback_def
        split: prod.splits option.splits)
qed

definition list_bytes :: "store_list_entry list \<Rightarrow> nat" where
  "list_bytes es = 38 + (\<Sum>p\<leftarrow>es. 6 + length (fst p) + length (snd p))"

lemma length_encode_list:
  assumes "encode_list e E hk es = Inr msg"
  shows "length msg = list_bytes es"
proof -
  have "length (concat (map (enc_list_entry e) es)) = (\<Sum>p\<leftarrow>es. 6 + length (fst p) + length (snd p))"
    by (induction es) (simp_all add: enc_list_entry_def)
  then show ?thesis
    using length_sign_and_take [OF assms [unfolded encode_list_def]]
    by (simp add: body_list list_bytes_def del: op_code.simps)
qed

lemma client_list_prefix_loopback:
  assumes "crypto_ok E hk" and "rpc_key_ok prefix"
    and "es = store_list_prefix iter (\<lambda>j. sv_clock sv (sv_ticks sv + j)) prefix (sv_store sv)"
    and "list_fits es" and "list_bytes es \<le> kMaxResponseBytes"
  shows "client_list_prefix e E hk (loopback e E hk iter) prefix sv =
    (Inr es, sv_tick (store_size (sv_store sv)) sv)"
proof -
  let ?sv = "sv_tick (store_size (sv_store sv)) sv"
  from assms(1) have doc: "openssl_documented E" and av: "hmac_available E hk"
    by (simp_all add: crypto_ok_def)
  obtain req where req: "encode_get_or_take e E Op_ListPrefix hk prefix = Inr req"
    using encoders_available(2) [OF av] by blast
  obtain resp where resp: "encode_list e E hk es = Inr resp"
    using encoders_available(6) [OF av] by blast
  have "decode_and_verify e E hk req = Inr (Some ((decoded_init Op_ListPrefix)\<lparr>d_key := prefix\<rparr>))"
    using assms(2) by (intro get_or_take_roundtrip [OF doc req]) (auto simp: rpc_key_ok_def)
  then have "store_on_message e E hk iter req sv fresh_conn = (None, ?sv, session_send e resp fresh_conn)"
    using resp by (simp add: store_on_message_def decoded_init_def reply_with_def assms(3))
  then have "roundtrip e E hk (loopback e E hk iter) req sv = (decode_and_verify e E hk resp, ?sv)"
    using assms(2,5) length_messages(2) [OF req] length_encode_list [OF resp]
    by (intro roundtrip_loopback frame_fitsI)
      (auto simp: rpc_key_ok_def list_bytes_def kMaxResponseBytes_def)
  then show ?thesis
    using list_roundtrip [OF doc resp assms(4)]
    by (simp add: client_list_prefix_def encode_list_prefix_def req decoded_init_def)
qed

section \<open>The remote store meets the contract\<close>

text \<open>
  The operations a client process performs at time \<open>t\<close>, each a full connection to the
  internal server holding the store \<open>s\<close>.
\<close>

definition server_at :: "time \<Rightarrow> shared_store \<Rightarrow> store_server" where
  "server_at t s = \<lparr> sv_store = s, sv_clock = (\<lambda>_. t), sv_ticks = 0 \<rparr>"

definition remote_put :: "endian \<Rightarrow> openssl \<Rightarrow> bytes \<Rightarrow> iteration \<Rightarrow> string \<Rightarrow> bytes \<Rightarrow> int \<Rightarrow> time
    \<Rightarrow> shared_store \<Rightarrow> shared_store" where
  "remote_put e E hk iter key val ttl t s =
     sv_store (snd (client_put e E hk (loopback e E hk iter) key val ttl (server_at t s)))"

definition remote_result :: "bytes option result \<times> store_server \<Rightarrow> bytes option \<times> shared_store" where
  "remote_result p =
     (case p of (Inl ex, sv) \<Rightarrow> (None, sv_store sv) | (Inr r, sv) \<Rightarrow> (r, sv_store sv))"

definition remote_get :: "endian \<Rightarrow> openssl \<Rightarrow> bytes \<Rightarrow> iteration \<Rightarrow> string \<Rightarrow> time \<Rightarrow> shared_store
    \<Rightarrow> bytes option \<times> shared_store" where
  "remote_get e E hk iter key t s =
     remote_result (client_get e E hk (loopback e E hk iter) key (server_at t s))"

definition remote_take :: "endian \<Rightarrow> openssl \<Rightarrow> bytes \<Rightarrow> iteration \<Rightarrow> string \<Rightarrow> time \<Rightarrow> shared_store
    \<Rightarrow> bytes option \<times> shared_store" where
  "remote_take e E hk iter key t s =
     remote_result (client_take e E hk (loopback e E hk iter) key (server_at t s))"

definition values_ok :: "shared_store \<Rightarrow> bool" where
  "values_ok s \<longleftrightarrow> all_values rpc_value_ok s"

definition remote_inv :: "openssl \<Rightarrow> bytes \<Rightarrow> shared_store \<Rightarrow> bool" where
  "remote_inv E hk s \<longleftrightarrow> crypto_ok E hk \<and> wf_store s \<and> values_ok s"

lemma live_value_ok: "values_ok s \<Longrightarrow> live t s key = Some v \<Longrightarrow> rpc_value_ok v"
  by (simp add: values_ok_def all_values_live)

lemma values_ok_put: "values_ok s \<Longrightarrow> rpc_value_ok v \<Longrightarrow> values_ok (store_put key v ttl t s)"
  by (simp add: values_ok_def all_values_put)

lemma values_ok_take: "values_ok s \<Longrightarrow> values_ok (snd (store_take key t s))"
  by (simp add: values_ok_def all_values_take)

lemma values_ok_sweep: "is_iteration iter \<Longrightarrow> values_ok s \<Longrightarrow> values_ok (snd (sweep_expired iter clk s))"
  by (simp add: values_ok_def all_values_sweep)

lemma server_at_simps [simp]: "sv_store (server_at t s) = s" "sv_now (server_at t s) = t"
  by (simp_all add: server_at_def sv_now_def)

lemma sv_store_tick [simp]: "sv_store (sv_tick n sv) = sv_store sv"
  by (simp add: sv_tick_def)

lemma remote_ops:
  assumes "remote_inv E hk s"
  shows "rpc_put_ok key v ttl \<Longrightarrow> remote_put e E hk iter key v ttl t s = store_put key v ttl t s"
    and "rpc_key_ok key \<Longrightarrow> remote_get e E hk iter key t s = (live t s key, s)"
    and "rpc_key_ok key \<Longrightarrow>
      remote_take e E hk iter key t s = (live t s key, snd (store_take key t s))"
proof -
  have ok: "crypto_ok E hk"
      "\<And>v. live (sv_now (server_at t s)) (sv_store (server_at t s)) key = Some v \<Longrightarrow> rpc_value_ok v"
    using assms live_value_ok by (auto simp: remote_inv_def)
  note loopbacks = client_get_loopback [of E hk key "server_at t s" e iter]
    client_take_loopback [of E hk key "server_at t s" e iter]
  show "rpc_put_ok key v ttl \<Longrightarrow> remote_put e E hk iter key v ttl t s = store_put key v ttl t s"
    by (simp add: remote_put_def client_put_loopback ok(1))
  show "rpc_key_ok key \<Longrightarrow> remote_get e E hk iter key t s = (live t s key, s)"
    using loopbacks(1) ok by (simp add: remote_get_def remote_result_def)
  show "rpc_key_ok key \<Longrightarrow>
      remote_take e E hk iter key t s = (live t s key, snd (store_take key t s))"
    using loopbacks(2) ok by (simp add: remote_take_def remote_result_def)
qed

interpretation remote: expiring_store "remote_put e E hk iter" "remote_get e E hk iter"
    "remote_take e E hk iter" shared_sweep live "remote_inv E hk" rpc_put_ok rpc_key_ok shared_sweep_ok
  for e E hk iter
proof unfold_locales
  fix s key v ttl t
  assume "remote_inv E hk s" "rpc_put_ok key v ttl"
  moreover from this have "rpc_value_ok v"
    by (simp add: rpc_put_ok_def rpc_value_ok_def kMaxResponseBytes_def)
  ultimately show "remote_inv E hk (remote_put e E hk iter key v ttl t s)"
    by (simp add: remote_ops) (simp add: remote_inv_def values_ok_put)
next
  fix s key t
  assume "remote_inv E hk s" "rpc_key_ok key"
  then show "remote_inv E hk (snd (remote_take e E hk iter key t s))"
    by (simp add: remote_ops) (simp add: remote_inv_def values_ok_take)
next
  fix s and i :: "iteration \<times> (nat \<Rightarrow> time)" and t
  assume "remote_inv E hk s" "shared_sweep_ok i t"
  then show "remote_inv E hk (shared_sweep i t s)"
    by (simp add: remote_inv_def shared.sweep_inv) (simp add: shared_sweep_def shared_sweep_ok_def values_ok_sweep)
next
  fix s and i :: "iteration \<times> (nat \<Rightarrow> time)" and t t' :: time
  assume "remote_inv E hk s" "shared_sweep_ok i t" "t \<le> t'"
  then show "live t' (shared_sweep i t s) = live t' s"
    by (simp add: remote_inv_def shared.sweep_look)
qed (simp_all add: remote_ops live_put live_take live_antimono)

end
