(* ===== verification/Accounts.thy ===== *)
theory Accounts
  imports Srp6
begin

text \<open>
  Accounts: the interface \<open>AccountRepository\<close> (\<open>include/accounts/account_repository.hpp\<close>),
  its SQLite implementation (\<open>include/accounts/sqlite_account_repository.hpp\<close>, one connection
  per thread) and the tool that registers an account (\<open>tools/create_account.cpp\<close>). SQLite is
  a parameter: a record of its calls on the state of the database, with what the code relies on
  as \<open>sqlite_documented\<close>. The locale \<open>accounts\<close> is the contract of the interface.
\<close>

section \<open>The interface\<close>

record account_record =
  ac_username :: string
  ac_salt :: bytes
  ac_verifier :: bytes

text \<open>Both operations are called on some thread and may throw.\<close>

record 'r account_repository =
  acc_find :: "nat \<Rightarrow> string \<Rightarrow> 'r \<Rightarrow> account_record option result \<times> 'r"
  acc_create :: "nat \<Rightarrow> account_record \<Rightarrow> 'r \<Rightarrow> bool result \<times> 'r"

section \<open>SQLite as a parameter\<close>

datatype sql_value = SQL_Text string | SQL_Blob bytes | SQL_Int int

definition SQLITE_OK :: int where "SQLITE_OK = 0"
definition SQLITE_ROW :: int where "SQLITE_ROW = 100"
definition SQLITE_DONE :: int where "SQLITE_DONE = 101"

text \<open>
  \<open>open_v2\<close> yields its code and whether it set a handle, \<open>exec\<close> its code and error message,
  \<open>step\<close> (of a freshly prepared statement, with its bound parameters) its code and the columns
  of the row it stands on.
\<close>

record 'db sqlite =
  sqlite3_open_v2 :: "string \<Rightarrow> 'db \<Rightarrow> int \<times> bool \<times> 'db"
  sqlite3_exec :: "string \<Rightarrow> 'db \<Rightarrow> int \<times> string option \<times> 'db"
  sqlite3_prepare_v2 :: "string \<Rightarrow> 'db \<Rightarrow> int"
  sqlite3_step :: "string \<Rightarrow> sql_value list \<Rightarrow> 'db \<Rightarrow> int \<times> (nat \<Rightarrow> bytes) \<times> 'db"
  sqlite3_errmsg :: "'db \<Rightarrow> string"

definition sql_create_table :: string where
  "sql_create_table =
     ''CREATE TABLE IF NOT EXISTS accounts ('' @
     ''username TEXT PRIMARY KEY,'' @
     ''salt BLOB NOT NULL,'' @
     ''verifier BLOB NOT NULL,'' @
     ''created_at INTEGER NOT NULL)''"

definition sql_find :: string where
  "sql_find = ''SELECT salt, verifier FROM accounts WHERE username = ?1''"

definition sql_create :: string where
  "sql_create =
     ''INSERT INTO accounts (username, salt, verifier, created_at) VALUES (?1, ?2, ?3, ?4)''"

definition sql_journal :: string where
  "sql_journal = ''PRAGMA journal_mode=WAL''"

section \<open>SqliteAccountRepository\<close>

text \<open>The database, shared by every connection, and the threads that have opened theirs.\<close>

record 'db repo =
  db_path :: string
  rp_db :: 'db
  rp_open :: "nat set"

definition repo_exec :: "'db sqlite \<Rightarrow> string \<Rightarrow> 'db \<Rightarrow> unit result \<times> 'db" where
  "repo_exec Q sql db =
     (case sqlite3_exec Q sql db of
        (rc, err, db') \<Rightarrow>
          if rc \<noteq> SQLITE_OK
          then (Inl (Runtime_Error (''sqlite3_exec: '' @
                  (case err of Some m \<Rightarrow> m | None \<Rightarrow> ''erreur inconnue''))), db')
          else (Inr (), db'))"

definition repo_open :: "'db sqlite \<Rightarrow> string \<Rightarrow> 'db \<Rightarrow> unit result \<times> 'db" where
  "repo_open Q path db =
     (case sqlite3_open_v2 Q path db of
        (rc, handle, db') \<Rightarrow>
          if rc \<noteq> SQLITE_OK \<or> \<not> handle
          then (Inl (Runtime_Error (''sqlite3_open_v2 a echoue pour '' @ path)), db')
          else repo_exec Q sql_journal db')"

text \<open>A \<open>thread_local\<close> whose initialiser throws is initialised again by the next call.\<close>

definition connection :: "'db sqlite \<Rightarrow> nat \<Rightarrow> 'db repo \<Rightarrow> unit result \<times> 'db repo" where
  "connection Q th r =
     (if th \<in> rp_open r then (Inr (), r)
      else case repo_open Q (db_path r) (rp_db r) of
             (Inl ex, db') \<Rightarrow> (Inl ex, r\<lparr>rp_db := db'\<rparr>)
           | (Inr _, db') \<Rightarrow> (Inr (), r\<lparr>rp_db := db', rp_open := insert th (rp_open r)\<rparr>))"

text \<open>The constructor: the object exists when it returns.\<close>

definition new_repo :: "'db sqlite \<Rightarrow> nat \<Rightarrow> string \<Rightarrow> 'db \<Rightarrow> unit result \<times> 'db repo" where
  "new_repo Q th path db =
     (case connection Q th \<lparr>db_path = path, rp_db = db, rp_open = {}\<rparr> of
        (Inl ex, r) \<Rightarrow> (Inl ex, r)
      | (Inr _, r) \<Rightarrow>
          (case repo_exec Q sql_create_table (rp_db r) of
             (res, db') \<Rightarrow> (res, r\<lparr>rp_db := db'\<rparr>)))"

definition repo_find :: "'db sqlite \<Rightarrow> nat \<Rightarrow> string \<Rightarrow> 'db repo
    \<Rightarrow> account_record option result \<times> 'db repo" where
  "repo_find Q th username r =
     (case connection Q th r of
        (Inl ex, r') \<Rightarrow> (Inl ex, r')
      | (Inr _, r') \<Rightarrow>
          if sqlite3_prepare_v2 Q sql_find (rp_db r') \<noteq> SQLITE_OK
          then (Inl (Runtime_Error (''sqlite prepare (find): '' @ sqlite3_errmsg Q (rp_db r'))), r')
          else
            case sqlite3_step Q sql_find [SQL_Text username] (rp_db r') of
              (rc, column, db') \<Rightarrow>
                if rc \<noteq> SQLITE_ROW then (Inr None, r'\<lparr>rp_db := db'\<rparr>)
                else (Inr (Some \<lparr>ac_username = username, ac_salt = column 0,
                                 ac_verifier = column 1\<rparr>), r'\<lparr>rp_db := db'\<rparr>))"

text \<open>\<open>now\<close> is the date of creation, in seconds of the system clock.\<close>

definition repo_create :: "'db sqlite \<Rightarrow> int \<Rightarrow> nat \<Rightarrow> account_record \<Rightarrow> 'db repo
    \<Rightarrow> bool result \<times> 'db repo" where
  "repo_create Q now th rec r =
     (case connection Q th r of
        (Inl ex, r') \<Rightarrow> (Inl ex, r')
      | (Inr _, r') \<Rightarrow>
          if sqlite3_prepare_v2 Q sql_create (rp_db r') \<noteq> SQLITE_OK
          then (Inl (Runtime_Error (''sqlite prepare (create): '' @ sqlite3_errmsg Q (rp_db r'))), r')
          else
            case sqlite3_step Q sql_create
                   [SQL_Text (ac_username rec), SQL_Blob (ac_salt rec), SQL_Blob (ac_verifier rec),
                    SQL_Int now] (rp_db r') of
              (rc, column, db') \<Rightarrow> (Inr (rc = SQLITE_DONE), r'\<lparr>rp_db := db'\<rparr>))"

definition sqlite_account_repository :: "'db sqlite \<Rightarrow> int \<Rightarrow> 'db repo account_repository" where
  "sqlite_account_repository Q now =
     \<lparr> acc_find = repo_find Q, acc_create = repo_create Q now \<rparr>"

section \<open>The registration tool\<close>

text \<open>
  \<open>main\<close> of \<open>create_account\<close>: the arguments after the program's name, the salt
  \<open>RAND_bytes\<close> yields and the date give the exit code and the database left behind.
\<close>

definition create_account :: "openssl \<Rightarrow> bn_lib \<Rightarrow> 'db sqlite \<Rightarrow> bytes option \<Rightarrow> int
    \<Rightarrow> string list \<Rightarrow> 'db \<Rightarrow> int \<times> 'db" where
  "create_account E L Q rnd now args db =
     (case args of
        [path, username, password] \<Rightarrow>
          (case new_repo Q 0 path db of
             (Inl ex, r) \<Rightarrow> (1, rp_db r)
           | (Inr _, r) \<Rightarrow>
               (case compute_verifier E L rnd username password of
                  Inl ex \<Rightarrow> (1, rp_db r)
                | Inr reg \<Rightarrow>
                    (case repo_create Q now 0 \<lparr>ac_username = username, ac_salt = reg_salt reg,
                            ac_verifier = reg_verifier reg\<rparr> r of
                       (Inl ex, r') \<Rightarrow> (1, rp_db r')
                     | (Inr created, r') \<Rightarrow> (if created then 0 else 1, rp_db r'))))
      | _ \<Rightarrow> (1, db))"

section \<open>What the code relies on\<close>

text \<open>
  The rows of the table as a map from usernames to salt and verifier. SQLite documents the
  result codes: a step that returns neither \<open>SQLITE_ROW\<close> nor \<open>SQLITE_DONE\<close> failed (busy,
  full, constraint, \<dots>) and left the table as it was. Text with a NUL character and empty blobs
  (a null pointer to \<open>sqlite3_bind_blob\<close>) are outside the documented use.
\<close>

type_synonym account_rows = "string \<rightharpoonup> bytes \<times> bytes"

definition text_ok :: "string \<Rightarrow> bool" where
  "text_ok u \<longleftrightarrow> CHR 0x00 \<notin> set u"

definition record_ok :: "account_record \<Rightarrow> bool" where
  "record_ok a \<longleftrightarrow> text_ok (ac_username a) \<and> ac_salt a \<noteq> [] \<and> ac_verifier a \<noteq> []"

definition select_documented :: "'db sqlite \<Rightarrow> ('db \<Rightarrow> account_rows) \<Rightarrow> bool" where
  "select_documented Q rows \<longleftrightarrow>
     (\<forall>u db rc col db'. text_ok u \<longrightarrow> sqlite3_step Q sql_find [SQL_Text u] db = (rc, col, db') \<longrightarrow>
        rows db' = rows db \<and> (rc = SQLITE_ROW \<longrightarrow> rows db u = Some (col 0, col 1)) \<and>
        (rc = SQLITE_DONE \<longrightarrow> rows db u = None))"

definition insert_documented :: "'db sqlite \<Rightarrow> ('db \<Rightarrow> account_rows) \<Rightarrow> bool" where
  "insert_documented Q rows \<longleftrightarrow>
     (\<forall>u s v n db rc col db'. text_ok u \<longrightarrow> s \<noteq> [] \<longrightarrow> v \<noteq> [] \<longrightarrow>
        sqlite3_step Q sql_create [SQL_Text u, SQL_Blob s, SQL_Blob v, SQL_Int n] db = (rc, col, db') \<longrightarrow>
        (if rc = SQLITE_DONE then rows db u = None \<and> rows db' = (rows db)(u \<mapsto> (s, v))
         else rows db' = rows db))"

definition opening_documented :: "'db sqlite \<Rightarrow> ('db \<Rightarrow> account_rows) \<Rightarrow> bool" where
  "opening_documented Q rows \<longleftrightarrow>
     (\<forall>path db. rows (snd (snd (sqlite3_open_v2 Q path db))) = rows db) \<and>
     (\<forall>db. \<forall>sql \<in> {sql_journal, sql_create_table}. rows (snd (snd (sqlite3_exec Q sql db))) = rows db)"

definition sqlite_documented :: "'db sqlite \<Rightarrow> ('db \<Rightarrow> account_rows) \<Rightarrow> bool" where
  "sqlite_documented Q rows \<longleftrightarrow>
     select_documented Q rows \<and> insert_documented Q rows \<and> opening_documented Q rows"

text \<open>
  The operating condition of the database (\<open>up\<close>): the file opens, the statements compile and
  no step fails for another reason than a violated constraint (\<open>SQLITE_CONSTRAINT\<close>, 19).
\<close>

definition sqlite_available :: "'db sqlite \<Rightarrow> ('db \<Rightarrow> account_rows) \<Rightarrow> ('db \<Rightarrow> bool) \<Rightarrow> bool" where
  "sqlite_available Q rows up \<longleftrightarrow>
     (\<forall>path db rc h db'. up db \<longrightarrow> sqlite3_open_v2 Q path db = (rc, h, db') \<longrightarrow>
        rc = SQLITE_OK \<and> h \<and> up db') \<and>
     (\<forall>sql db rc err db'. up db \<longrightarrow> sqlite3_exec Q sql db = (rc, err, db') \<longrightarrow>
        rc = SQLITE_OK \<and> up db') \<and>
     (\<forall>sql db. up db \<longrightarrow> sqlite3_prepare_v2 Q sql db = SQLITE_OK) \<and>
     (\<forall>sql ps db rc col db'. up db \<longrightarrow> sqlite3_step Q sql ps db = (rc, col, db') \<longrightarrow>
        up db' \<and>
        (sql = sql_find \<longrightarrow> rc = SQLITE_ROW \<or> rc = SQLITE_DONE) \<and>
        (sql = sql_create \<longrightarrow> rc = SQLITE_DONE \<or>
           rc = 19 \<and> (\<forall>u s v n. ps = [SQL_Text u, SQL_Blob s, SQL_Blob v, SQL_Int n] \<longrightarrow> rows db u \<noteq> None)))"

section \<open>The contract of the interface\<close>

text \<open>
  Commands of any number of threads, in the order in which they reach the database.
\<close>

datatype account_cmd = Cmd_Find string | Cmd_Create account_record

datatype account_reply = Found "account_record option result" | Created "bool result"

fun cmd_fits :: "account_cmd \<Rightarrow> bool" where
  "cmd_fits (Cmd_Find u) = text_ok u"
| "cmd_fits (Cmd_Create a) = record_ok a"

fun account_step :: "'r account_repository \<Rightarrow> nat \<times> account_cmd \<Rightarrow> 'r \<Rightarrow> account_reply \<times> 'r" where
  "account_step R (th, Cmd_Find u) r = (let (x, r') = acc_find R th u r in (Found x, r'))"
| "account_step R (th, Cmd_Create a) r = (let (x, r') = acc_create R th a r in (Created x, r'))"

fun run_accounts :: "'r account_repository \<Rightarrow> (nat \<times> account_cmd) list \<Rightarrow> 'r
    \<Rightarrow> (account_cmd \<times> account_reply) list \<times> 'r" where
  "run_accounts R [] r = ([], r)"
| "run_accounts R (tc # tcs) r =
     (let (x, r1) = account_step R tc r; (xs, r2) = run_accounts R tcs r1 in ((snd tc, x) # xs, r2))"

text \<open>The event that \<open>u\<close> was registered, and the answers to look-ups of \<open>u\<close>.\<close>

definition registered :: "string \<Rightarrow> account_cmd \<times> account_reply \<Rightarrow> bool" where
  "registered u p \<longleftrightarrow> (\<exists>a. ac_username a = u \<and> p = (Cmd_Create a, Created (Inr True)))"

definition row_of :: "account_record \<Rightarrow> bytes \<times> bytes" where
  "row_of a = (ac_salt a, ac_verifier a)"

locale accounts =
  fixes R :: "'r account_repository"
    and rows :: "'r \<Rightarrow> account_rows"
    and inv :: "'r \<Rightarrow> bool"
  assumes find_step: "\<lbrakk>inv r; text_ok u; acc_find R th u r = (res, r')\<rbrakk> \<Longrightarrow>
      inv r' \<and> rows r' = rows r \<and>
      (\<forall>a. res = Inr (Some a) \<longrightarrow> ac_username a = u \<and> rows r u = Some (row_of a))"
    and create_step: "\<lbrakk>inv r; record_ok rec; acc_create R th rec r = (cres, r')\<rbrakk> \<Longrightarrow>
      inv r' \<and>
      (if cres = Inr True
       then rows r (ac_username rec) = None \<and> rows r' = (rows r)(ac_username rec \<mapsto> row_of rec)
       else rows r' = rows r)"
begin

lemma rows_only_grow:
  "inv r \<Longrightarrow> cmd_fits c \<Longrightarrow> account_step R (th, c) r = (x, r') \<Longrightarrow> inv r' \<and> rows r \<subseteq>\<^sub>m rows r'"
proof (cases c)
  case (Cmd_Find u)
  assume "inv r" "cmd_fits c" "account_step R (th, c) r = (x, r')"
  then show ?thesis
    using find_step [of r u th] by (auto simp: Cmd_Find map_le_def split: prod.splits)
next
  case (Cmd_Create a)
  assume st: "inv r" "cmd_fits c" "account_step R (th, c) r = (x, r')"
  then obtain res where "acc_create R th a r = (res, r')"
    by (auto simp: Cmd_Create split: prod.splits)
  from create_step [OF _ _ this] st show ?thesis
    by (auto simp: Cmd_Create map_le_def dom_def split: if_splits)
qed

text \<open>A registration is a successful \<open>create\<close>.\<close>

lemma registered_step:
  assumes "inv r" and "cmd_fits c" and "account_step R (th, c) r = (x, r')" and "registered u (c, x)"
  shows "rows r u = None \<and> rows r' u \<noteq> None"
proof -
  obtain a where a: "ac_username a = u" "c = Cmd_Create a" "x = Created (Inr True)"
    using assms(4) by (auto simp: registered_def)
  then have "acc_create R th a r = (Inr True, r')"
    using assms(3) by (auto split: prod.splits)
  from create_step [OF assms(1) _ this] show ?thesis
    using assms(2) a by simp
qed

lemma run_rows_only_grow:
  "inv r \<Longrightarrow> \<forall>tc \<in> set tcs. cmd_fits (snd tc) \<Longrightarrow> run_accounts R tcs r = (xs, r') \<Longrightarrow>
     inv r' \<and> rows r \<subseteq>\<^sub>m rows r'"
proof (induction tcs arbitrary: r xs)
  case Nil
  then show ?case by simp
next
  case (Cons tc tcs)
  obtain th c where tc: "tc = (th, c)" by force
  obtain x r1 where st: "account_step R tc r = (x, r1)" by force
  obtain ys where "run_accounts R tcs r1 = (ys, r')" using Cons.prems st by (auto split: prod.splits)
  moreover have "inv r1 \<and> rows r \<subseteq>\<^sub>m rows r1"
    using rows_only_grow [of r c th x r1] Cons.prems st by (simp add: tc)
  ultimately show ?case
    using Cons.IH [of r1 ys] Cons.prems by (auto intro: map_le_trans)
qed

text \<open>A username that is taken is never registered again.\<close>

lemma taken_never_registered:
  "inv r \<Longrightarrow> \<forall>tc \<in> set tcs. cmd_fits (snd tc) \<Longrightarrow> rows r u \<noteq> None \<Longrightarrow>
     filter (registered u) (fst (run_accounts R tcs r)) = []"
proof (induction tcs arbitrary: r)
  case Nil
  then show ?case by simp
next
  case (Cons tc tcs)
  obtain th c where tc: "tc = (th, c)" by force
  obtain x r1 where st: "account_step R tc r = (x, r1)" by force
  have "\<not> registered u (c, x)"
    using registered_step [of r c th x r1 u] st Cons.prems by (auto simp: tc)
  moreover have "inv r1 \<and> rows r \<subseteq>\<^sub>m rows r1"
    using rows_only_grow [of r c th x r1] Cons.prems st by (simp add: tc)
  moreover from this have "rows r1 u \<noteq> None"
    using Cons.prems(3) by (fastforce simp: map_le_def dom_def)
  ultimately show ?case
    using Cons.IH [of r1] Cons.prems st by (auto simp: tc split: prod.split)
qed

lemma registered_once:
  "inv r \<Longrightarrow> \<forall>tc \<in> set tcs. cmd_fits (snd tc) \<Longrightarrow>
     length (filter (registered u) (fst (run_accounts R tcs r))) \<le> 1"
proof (induction tcs arbitrary: r)
  case Nil
  then show ?case by simp
next
  case (Cons tc tcs)
  obtain th c where tc: "tc = (th, c)" by force
  obtain x r1 where st: "account_step R tc r = (x, r1)" by force
  have inv1: "inv r1" using rows_only_grow [of r c th x r1] Cons.prems st by (simp add: tc)
  show ?case
  proof (cases "registered u (c, x)")
    case True
    then have "rows r1 u \<noteq> None"
      using registered_step [of r c th x r1 u] st Cons.prems by (simp add: tc)
    then have "filter (registered u) (fst (run_accounts R tcs r1)) = []"
      using Cons.prems inv1 by (intro taken_never_registered) auto
    then show ?thesis using True st by (auto simp: tc split: prod.split)
  next
    case False
    then show ?thesis using Cons.IH [of r1] Cons.prems inv1 st by (auto simp: tc split: prod.split)
  qed
qed

text \<open>After a registration, a look-up on any thread yields that record or nothing.\<close>

lemma find_after_create:
  assumes "inv r" and "record_ok a" and "acc_create R th a r = (Inr True, r1)"
    and "\<forall>tc \<in> set tcs. cmd_fits (snd tc)" and "run_accounts R tcs r1 = (xs, r2)"
    and "acc_find R th' (ac_username a) r2 = (Inr (Some b), r3)"
  shows "b = a"
proof -
  have r1: "inv r1" "rows r1 (ac_username a) = Some (row_of a)"
    using create_step [OF assms(1-3)] by auto
  then have "inv r2" "rows r2 (ac_username a) = Some (row_of a)"
    using run_rows_only_grow [OF r1(1) assms(4,5)] by (auto simp: map_le_def dom_def)
  then have "ac_username b = ac_username a" "row_of b = row_of a"
    using find_step [of r2, OF _ _ assms(6)] assms(2) by (auto simp: record_ok_def)
  then show "b = a" by (auto simp: row_of_def intro: account_record.equality)
qed

end

text \<open>Where the database is available, the answers are complete.\<close>

locale available_accounts = accounts +
  assumes find_complete: "\<lbrakk>inv r; text_ok u\<rbrakk> \<Longrightarrow>
      \<exists>ao. fst (acc_find R th u r) = Inr ao \<and> (ao = None \<longleftrightarrow> rows r u = None)"
    and create_complete: "\<lbrakk>inv r; record_ok a\<rbrakk> \<Longrightarrow>
      fst (acc_create R th a r) = Inr (rows r (ac_username a) = None)"
begin

lemma find_exact:
  assumes "inv r" and "text_ok u"
  shows "fst (acc_find R th u r) =
    Inr (map_option (\<lambda>(s, v). \<lparr>ac_username = u, ac_salt = s, ac_verifier = v\<rparr>) (rows r u))"
proof -
  obtain res r' where f: "acc_find R th u r = (res, r')" by force
  obtain ao where ao: "res = Inr ao" "ao = None \<longleftrightarrow> rows r u = None"
    using find_complete [OF assms, of th] f by auto
  show ?thesis
  proof (cases ao)
    case None
    then show ?thesis using ao f by simp
  next
    case (Some a)
    then have "ac_username a = u" "rows r u = Some (row_of a)"
      using find_step [OF assms f] ao by auto
    then show ?thesis
      using ao f Some by (simp add: row_of_def)
  qed
qed

lemma create_exact:
  assumes "inv r" and "record_ok a"
  shows "\<exists>r1. acc_create R th a r = (Inr (rows r (ac_username a) = None), r1) \<and> inv r1 \<and>
    rows r1 = (if rows r (ac_username a) = None then (rows r)(ac_username a \<mapsto> row_of a) else rows r)"
proof -
  obtain r1 where c: "acc_create R th a r = (Inr (rows r (ac_username a) = None), r1)"
    using create_complete [OF assms, of th] by (cases "acc_create R th a r") auto
  from create_step [OF assms c] c show ?thesis by (auto split: if_splits)
qed

end

section \<open>SQLite meets the contract\<close>

definition repo_rows :: "('db \<Rightarrow> account_rows) \<Rightarrow> 'db repo \<Rightarrow> account_rows" where
  "repo_rows rows r = rows (rp_db r)"

definition repo_up :: "'db sqlite \<Rightarrow> ('db \<Rightarrow> account_rows) \<Rightarrow> ('db \<Rightarrow> bool) \<Rightarrow> 'db repo \<Rightarrow> bool" where
  "repo_up Q rows up r \<longleftrightarrow> sqlite_documented Q rows \<and> sqlite_available Q rows up \<and> up (rp_db r)"

lemma connection_rows:
  assumes "sqlite_documented Q rows" and "connection Q th r = (res, r')"
  shows "repo_rows rows r' = repo_rows rows r"
proof -
  have "rows (snd (snd (sqlite3_open_v2 Q path db))) = rows db"
    "rows (snd (snd (sqlite3_exec Q sql_journal db))) = rows db" for path db
    using assms(1) by (simp_all add: sqlite_documented_def opening_documented_def)
  then have "rows (snd (repo_open Q path db)) = rows db" for path db
    by (simp add: repo_open_def repo_exec_def split: prod.split) (metis snd_conv)
  from this [of "db_path r" "rp_db r"] show ?thesis
    using assms(2)
    by (auto simp: connection_def repo_rows_def split: if_splits prod.splits sum.splits)
qed

lemma connection_up:
  assumes "repo_up Q rows up r"
  shows "\<exists>r'. connection Q th r = (Inr (), r') \<and> up (rp_db r')"
proof -
  have "up db \<Longrightarrow> fst (sqlite3_open_v2 Q path db) = SQLITE_OK \<and>
      fst (snd (sqlite3_open_v2 Q path db)) \<and> up (snd (snd (sqlite3_open_v2 Q path db)))"
    "up db \<Longrightarrow> fst (sqlite3_exec Q sql db) = SQLITE_OK \<and> up (snd (snd (sqlite3_exec Q sql db)))"
    for path sql db
    using assms unfolding repo_up_def sqlite_available_def by (metis prod.collapse)+
  then have "up db \<Longrightarrow> \<exists>db'. repo_open Q path db = (Inr (), db') \<and> up db'" for path db
    by (simp add: repo_open_def repo_exec_def split: prod.split) (metis fst_conv snd_conv)
  from this [of "rp_db r" "db_path r"] show ?thesis
    using assms by (auto simp: connection_def repo_up_def)
qed

lemma insert_use:
  assumes "sqlite_documented Q rows" and "record_ok a"
    and "sqlite3_step Q sql_create [SQL_Text (ac_username a), SQL_Blob (ac_salt a),
      SQL_Blob (ac_verifier a), SQL_Int now] db = (rc, col, db')"
  shows "if rc = SQLITE_DONE
    then rows db (ac_username a) = None \<and> rows db' = (rows db)(ac_username a \<mapsto> row_of a)
    else rows db' = rows db"
  using assms unfolding sqlite_documented_def insert_documented_def record_ok_def row_of_def by blast

lemma repo_find_step:
  assumes doc: "sqlite_documented Q rows" and "text_ok u"
    and find: "repo_find Q th u r = (res, r')"
  shows "repo_rows rows r' = repo_rows rows r \<and>
    (\<forall>a. res = Inr (Some a) \<longrightarrow> ac_username a = u \<and> repo_rows rows r u = Some (row_of a))"
proof -
  obtain cres r1 where c: "connection Q th r = (cres, r1)" by force
  obtain rc col db where st: "sqlite3_step Q sql_find [SQL_Text u] (rp_db r1) = (rc, col, db)"
    by (metis prod_cases3)
  have "rows db = rows (rp_db r1) \<and> (rc = SQLITE_ROW \<longrightarrow> rows (rp_db r1) u = Some (col 0, col 1))"
    using doc assms(2) st unfolding sqlite_documented_def select_documented_def by blast
  then show ?thesis
    using connection_rows [OF doc c] find c st
    by (auto simp: repo_find_def repo_rows_def row_of_def split: sum.splits if_splits)
qed

lemma repo_create_step:
  assumes doc: "sqlite_documented Q rows" and "record_ok a"
    and create: "repo_create Q now th a r = (res, r')"
  shows "if res = Inr True
    then repo_rows rows r (ac_username a) = None \<and>
      repo_rows rows r' = (repo_rows rows r)(ac_username a \<mapsto> row_of a)
    else repo_rows rows r' = repo_rows rows r"
proof -
  obtain cres r1 where c: "connection Q th r = (cres, r1)" by force
  let ?ps = "[SQL_Text (ac_username a), SQL_Blob (ac_salt a), SQL_Blob (ac_verifier a), SQL_Int now]"
  obtain rc col db where st: "sqlite3_step Q sql_create ?ps (rp_db r1) = (rc, col, db)"
    by (metis prod_cases3)
  show ?thesis
    using insert_use [OF doc assms(2) st] connection_rows [OF doc c] create c st
    by (auto simp: repo_create_def repo_rows_def split: sum.splits if_splits)
qed

lemma repo_find_up:
  assumes "repo_up Q rows up r" and "text_ok u"
  shows "\<exists>ao r'. repo_find Q th u r = (Inr ao, r') \<and> up (rp_db r') \<and>
    (ao = None \<longleftrightarrow> repo_rows rows r u = None)"
proof -
  obtain r1 where c: "connection Q th r = (Inr (), r1)" and up: "up (rp_db r1)"
    using connection_up [OF assms(1)] by blast
  obtain rc col db where st: "sqlite3_step Q sql_find [SQL_Text u] (rp_db r1) = (rc, col, db)"
    by (metis prod_cases3)
  have "sqlite3_prepare_v2 Q sql_find (rp_db r1) = SQLITE_OK" "up db" "rc = SQLITE_ROW \<or> rc = SQLITE_DONE"
    using assms(1) up st unfolding repo_up_def sqlite_available_def by blast+
  moreover have "(rc = SQLITE_ROW \<longrightarrow> rows (rp_db r1) u \<noteq> None) \<and>
      (rc = SQLITE_DONE \<longrightarrow> rows (rp_db r1) u = None)"
    using assms st unfolding repo_up_def sqlite_documented_def select_documented_def by blast
  moreover have "rows (rp_db r1) = repo_rows rows r"
    using connection_rows [OF _ c, of rows] assms(1) by (simp add: repo_up_def repo_rows_def)
  ultimately show ?thesis
    using c st by (auto simp: repo_find_def SQLITE_ROW_def SQLITE_DONE_def)
qed

lemma repo_create_up:
  assumes "repo_up Q rows up r" and "record_ok a"
  shows "\<exists>r'. repo_create Q now th a r = (Inr (repo_rows rows r (ac_username a) = None), r') \<and>
    up (rp_db r')"
proof -
  obtain r1 where c: "connection Q th r = (Inr (), r1)" and up: "up (rp_db r1)"
    using connection_up [OF assms(1)] by blast
  let ?ps = "[SQL_Text (ac_username a), SQL_Blob (ac_salt a), SQL_Blob (ac_verifier a), SQL_Int now]"
  obtain rc col db where st: "sqlite3_step Q sql_create ?ps (rp_db r1) = (rc, col, db)"
    by (metis prod_cases3)
  have "sqlite3_prepare_v2 Q sql_create (rp_db r1) = SQLITE_OK" "up db"
      "rc = SQLITE_DONE \<or> rc = 19 \<and> rows (rp_db r1) (ac_username a) \<noteq> None"
    using assms(1) up st unfolding repo_up_def sqlite_available_def by blast+
  moreover have "rc = SQLITE_DONE \<longrightarrow> rows (rp_db r1) (ac_username a) = None"
    using insert_use [OF _ assms(2) st, of rows] assms(1) by (auto simp: repo_up_def)
  moreover have "rows (rp_db r1) = repo_rows rows r"
    using connection_rows [OF _ c, of rows] assms(1) by (simp add: repo_up_def repo_rows_def)
  ultimately show ?thesis
    using c st by (auto simp: repo_create_def SQLITE_DONE_def)
qed

interpretation sqlite_accounts: accounts "sqlite_account_repository Q now" "repo_rows rows"
    "\<lambda>r. sqlite_documented Q rows"
  for Q now rows
proof unfold_locales
  fix r r' :: "'a repo" and u th res
  assume doc: "sqlite_documented Q rows" and u: "text_ok u"
    and "acc_find (sqlite_account_repository Q now) th u r = (res, r')"
  then have "repo_find Q th u r = (res, r')" by (simp add: sqlite_account_repository_def)
  from repo_find_step [OF doc u this] doc
  show "sqlite_documented Q rows \<and> repo_rows rows r' = repo_rows rows r \<and>
      (\<forall>a. res = Inr (Some a) \<longrightarrow> ac_username a = u \<and> repo_rows rows r u = Some (row_of a))"
    by blast
next
  fix r r' :: "'a repo" and a th res
  assume doc: "sqlite_documented Q rows" and a: "record_ok a"
    and "acc_create (sqlite_account_repository Q now) th a r = (res, r')"
  then have "repo_create Q now th a r = (res, r')" by (simp add: sqlite_account_repository_def)
  from repo_create_step [OF doc a this] doc
  show "sqlite_documented Q rows \<and>
      (if res = Inr True
       then repo_rows rows r (ac_username a) = None \<and>
         repo_rows rows r' = (repo_rows rows r)(ac_username a \<mapsto> row_of a)
       else repo_rows rows r' = repo_rows rows r)"
    by blast
qed

interpretation sqlite_available: available_accounts "sqlite_account_repository Q now"
    "repo_rows rows" "repo_up Q rows up"
  for Q now rows up
proof unfold_locales
  fix r u th res r'
  assume r: "repo_up Q rows up r" "text_ok u"
    and "acc_find (sqlite_account_repository Q now) th u r = (res, r')"
  then have f: "repo_find Q th u r = (res, r')" by (simp add: sqlite_account_repository_def)
  then show "repo_up Q rows up r' \<and> repo_rows rows r' = repo_rows rows r \<and>
      (\<forall>a. res = Inr (Some a) \<longrightarrow> ac_username a = u \<and> repo_rows rows r u = Some (row_of a))"
    using repo_find_step [OF _ r(2) f] repo_find_up [OF r, of th] r(1)
    by (auto simp: repo_up_def)
next
  fix r a th res r'
  assume r: "repo_up Q rows up r" "record_ok a"
    and "acc_create (sqlite_account_repository Q now) th a r = (res, r')"
  then have f: "repo_create Q now th a r = (res, r')" by (simp add: sqlite_account_repository_def)
  have "repo_up Q rows up r'"
    using repo_create_up [OF r, of now th] r(1) f by (auto simp: repo_up_def)
  moreover have "sqlite_documented Q rows" using r(1) by (simp add: repo_up_def)
  note repo_create_step [OF this r(2) f]
  ultimately show "repo_up Q rows up r' \<and>
      (if res = Inr True
       then repo_rows rows r (ac_username a) = None \<and>
         repo_rows rows r' = (repo_rows rows r)(ac_username a \<mapsto> row_of a)
       else repo_rows rows r' = repo_rows rows r)"
    by blast
next
  fix r u th
  assume "repo_up Q rows up r" "text_ok u"
  from repo_find_up [OF this, of th]
  show "\<exists>ao. fst (acc_find (sqlite_account_repository Q now) th u r) = Inr ao \<and>
      (ao = None \<longleftrightarrow> repo_rows rows r u = None)"
    by (auto simp: sqlite_account_repository_def)
next
  fix r a th
  assume "repo_up Q rows up r" "record_ok a"
  from repo_create_up [OF this, of now th]
  show "fst (acc_create (sqlite_account_repository Q now) th a r) =
      Inr (repo_rows rows r (ac_username a) = None)"
    by (auto simp: sqlite_account_repository_def)
qed

section \<open>The registration tool writes one row\<close>

lemma new_repo_rows:
  assumes "sqlite_documented Q rows" and "new_repo Q th path db = (res, r)"
  shows "repo_rows rows r = rows db"
proof -
  obtain cres r1 where c: "connection Q th \<lparr>db_path = path, rp_db = db, rp_open = {}\<rparr> = (cres, r1)"
    by force
  have "rows (snd (snd (sqlite3_exec Q sql_create_table d))) = rows d" for d
    using assms(1) by (simp add: sqlite_documented_def opening_documented_def)
  then have "rows (snd (repo_exec Q sql_create_table d)) = rows d" for d
    by (simp add: repo_exec_def split: prod.split) (metis snd_conv)
  from this [of "rp_db r1"] show ?thesis
    using connection_rows [OF assms(1) c] assms(2) c
    by (auto simp: new_repo_def repo_rows_def split: sum.splits prod.splits)
qed

lemma create_account_core:
  assumes doc: "sqlite_documented Q rows" and L: "bn_documented L"
    and ok: "text_ok user" "length salt = 16"
    and run: "create_account E L Q (Some salt) now [path, user, pw] db = (0, db')"
  shows "\<exists>reg. compute_verifier_with_salt E L user pw salt = Inr reg \<and> rows db user = None \<and>
    rows db' = (rows db)(user \<mapsto> (reg_salt reg, reg_verifier reg))"
proof -
  obtain r where r: "new_repo Q 0 path db = (Inr (), r)"
    using run by (auto simp: create_account_def split: prod.splits sum.splits)
  obtain reg where reg: "compute_verifier_with_salt E L user pw salt = Inr reg"
    using run r ok(2)
    by (auto simp: create_account_def compute_verifier_def random_bytes_def split: sum.splits)
  let ?a = "\<lparr>ac_username = user, ac_salt = reg_salt reg, ac_verifier = reg_verifier reg\<rparr>"
  obtain r' where c: "repo_create Q now 0 ?a r = (Inr True, r')" and db': "db' = rp_db r'"
    using run r reg ok(2)
    by (auto simp: create_account_def compute_verifier_def random_bytes_def
        split: prod.splits sum.splits if_splits)
  have "reg_salt reg = salt" "reg_verifier reg \<noteq> []"
    using compute_verifier_closed [OF L reg] length_be_pad [of 256]
    by (auto simp: kNBytes_def simp del: length_be_pad dest: arg_cong [where f = length])
  then have "record_ok ?a" using ok by (auto simp: record_ok_def)
  from repo_create_step [OF doc this c] new_repo_rows [OF doc r] reg show ?thesis
    by (simp add: repo_rows_def row_of_def db')
qed

section \<open>A concrete database for the witnesses\<close>

text \<open>The rows as a list, and whether another process holds the file locked.\<close>

type_synonym demo_db = "(string \<times> bytes \<times> bytes) list \<times> bool"

fun demo_step :: "string \<Rightarrow> sql_value list \<Rightarrow> demo_db \<Rightarrow> int \<times> (nat \<Rightarrow> bytes) \<times> demo_db" where
  "demo_step sql ps (rs, locked) =
     (if locked then (5, \<lambda>_. [], (rs, locked))
      else if sql = sql_create then
        (case ps of
           [SQL_Text u, SQL_Blob s, SQL_Blob v, SQL_Int n] \<Rightarrow>
             if map_of rs u = None then (SQLITE_DONE, \<lambda>_. [], ((u, s, v) # rs, locked))
             else (19, \<lambda>_. [], (rs, locked))
         | _ \<Rightarrow> (19, \<lambda>_. [], (rs, locked)))
      else
        (case ps of
           [SQL_Text u] \<Rightarrow>
             (case map_of rs u of
                Some (s, v) \<Rightarrow> (SQLITE_ROW, \<lambda>i. if i = 0 then s else v, (rs, locked))
              | None \<Rightarrow> (SQLITE_DONE, \<lambda>_. [], (rs, locked)))
         | _ \<Rightarrow> (SQLITE_DONE, \<lambda>_. [], (rs, locked))))"

definition demo_sqlite :: "demo_db sqlite" where
  "demo_sqlite =
     \<lparr> sqlite3_open_v2 = (\<lambda>path db. (0, True, db)), sqlite3_exec = (\<lambda>sql db. (0, None, db)),
       sqlite3_prepare_v2 = (\<lambda>sql db. 0), sqlite3_step = demo_step,
       sqlite3_errmsg = (\<lambda>db. ''not an error'') \<rparr>"

definition demo_rows :: "demo_db \<Rightarrow> account_rows" where
  "demo_rows db = map_of (fst db)"

definition demo_up :: "demo_db \<Rightarrow> bool" where
  "demo_up db \<longleftrightarrow> \<not> snd db"

lemma sql_find_not_create [simp]: "sql_find \<noteq> sql_create" "sql_create \<noteq> sql_find"
  by (simp_all add: sql_find_def sql_create_def)

lemmas demo_sqlite_simps =
  demo_sqlite_def demo_rows_def demo_up_def SQLITE_OK_def SQLITE_ROW_def SQLITE_DONE_def

lemma demo_sqlite_documented: "sqlite_documented demo_sqlite demo_rows"
  unfolding sqlite_documented_def select_documented_def insert_documented_def
    opening_documented_def
  by (auto simp: demo_sqlite_simps split: option.splits)

lemma demo_sqlite_available: "sqlite_available demo_sqlite demo_rows demo_up"
proof -
  have "demo_up db \<Longrightarrow> demo_step sql ps db = (rc, col, db') \<Longrightarrow>
      demo_up db' \<and>
      (sql = sql_find \<longrightarrow> rc = SQLITE_ROW \<or> rc = SQLITE_DONE) \<and>
      (sql = sql_create \<longrightarrow> rc = SQLITE_DONE \<or>
         rc = 19 \<and> (\<forall>u s v n. ps = [SQL_Text u, SQL_Blob s, SQL_Blob v, SQL_Int n] \<longrightarrow>
           demo_rows db u \<noteq> None))" for db sql ps rc col db'
    by (cases db) (auto simp: demo_up_def demo_rows_def split: if_splits list.splits sql_value.splits option.splits)
  moreover have "sqlite3_step demo_sqlite = demo_step"
      "sqlite3_open_v2 demo_sqlite = (\<lambda>path db. (SQLITE_OK, True, db))"
      "sqlite3_exec demo_sqlite = (\<lambda>sql db. (SQLITE_OK, None, db))"
      "sqlite3_prepare_v2 demo_sqlite = (\<lambda>sql db. SQLITE_OK)"
    by (simp_all add: demo_sqlite_def SQLITE_OK_def)
  ultimately show ?thesis
    unfolding sqlite_available_def by (simp del: demo_step.simps)
qed

end
