(* ===== verification/Registry.thy ===== *)
theory Registry
  imports Store_RPC
begin

text \<open>
  The service registry kept in the shared store, \<open>include/registry/world_registry.hpp\<close>: the
  two records Login and World publish, the heartbeat that keeps an entry alive, and the two ways
  of reading the registry, in memory (Master) and over the network (Login). The main results:
  the records decode to what was published, an entry lives exactly as long as its heartbeat,
  and the readers return what is live.
\<close>

section \<open>Records\<close>

definition kLoginPrefix :: string where
  "kLoginPrefix = ''registry:login:''"

definition kWorldPrefix :: string where
  "kWorldPrefix = ''registry:world:''"

record login_info =
  li_host :: string
  li_port :: u16

record world_info =
  wi_host :: string
  wi_port :: u16
  wi_name :: string
  wi_population :: u32

definition encode_login_info :: "endian \<Rightarrow> login_info \<Rightarrow> bytes" where
  "encode_login_info e i =
     write_all
       [writer_u16 e (word_of_nat (length (li_host i))), writer_str (li_host i),
        writer_u16 e (li_port i)]"

definition decode_login :: "endian \<Rightarrow> bytes \<Rightarrow> login_info option" where
  "decode_login e data =
     do { (hlen, r) \<leftarrow> reader_u16 e data;
          (host, r) \<leftarrow> reader_str (unat hlen) r;
          (port, r) \<leftarrow> reader_u16 e r;
          Some \<lparr>li_host = host, li_port = port\<rparr> }"

definition encode_world_info :: "endian \<Rightarrow> world_info \<Rightarrow> bytes" where
  "encode_world_info e i =
     write_all
       [writer_u16 e (word_of_nat (length (wi_host i))), writer_str (wi_host i),
        writer_u16 e (wi_port i),
        writer_u16 e (word_of_nat (length (wi_name i))), writer_str (wi_name i),
        writer_u32 e (wi_population i)]"

definition decode_world :: "endian \<Rightarrow> bytes \<Rightarrow> world_info option" where
  "decode_world e data =
     do { (hlen, r) \<leftarrow> reader_u16 e data;
          (host, r) \<leftarrow> reader_str (unat hlen) r;
          (port, r) \<leftarrow> reader_u16 e r;
          (nlen, r) \<leftarrow> reader_u16 e r;
          (name, r) \<leftarrow> reader_str (unat nlen) r;
          (pop, r) \<leftarrow> reader_u32 e r;
          Some \<lparr>wi_host = host, wi_port = port, wi_name = name, wi_population = pop\<rparr> }"

section \<open>The heartbeat\<close>

definition heartbeat_interval :: int where "heartbeat_interval = 5"
definition heartbeat_ttl :: int where "heartbeat_ttl = 15"

text \<open>
  One turn of the loop: the network during the call, what \<open>value_provider\<close> returned, what the
  rest of the world does while the timer waits, and whether the wait ended without an error. The
  loop itself never ends on its own: it is run over the turns that took place.
\<close>

record 'w beat =
  beat_net :: "'w network"
  beat_value :: bytes
  beat_wait :: "'w \<Rightarrow> 'w"
  beat_timer_ok :: bool

datatype heartbeat_end = Running | Stopped | Threw exn

fun heartbeat_loop :: "endian \<Rightarrow> openssl \<Rightarrow> bytes \<Rightarrow> string \<Rightarrow> int \<Rightarrow> 'w beat list \<Rightarrow> 'w
    \<Rightarrow> heartbeat_end \<times> 'w" where
  "heartbeat_loop e E hmac_key key ttl [] w = (Running, w)"
| "heartbeat_loop e E hmac_key key ttl (b # bs) w =
     (case client_put e E hmac_key (beat_net b) key (beat_value b) ttl w of
        (Inl ex, w') \<Rightarrow> (Threw ex, w')
      | (Inr _, w') \<Rightarrow>
          if \<not> beat_timer_ok b then (Stopped, beat_wait b w')
          else heartbeat_loop e E hmac_key key ttl bs (beat_wait b w'))"

section \<open>Readers\<close>

definition list_worlds :: "endian \<Rightarrow> openssl \<Rightarrow> bytes \<Rightarrow> 'w network \<Rightarrow> 'w
    \<Rightarrow> world_info list result \<times> 'w" where
  "list_worlds e E hmac_key net w =
     (case client_list_prefix e E hmac_key net kWorldPrefix w of
        (res, w') \<Rightarrow>
          (bind_result res (\<lambda>es. Inr (List.map_filter (\<lambda>(k, v). decode_world e v) es)), w'))"

definition pick_login :: "endian \<Rightarrow> iteration \<Rightarrow> (nat \<Rightarrow> time) \<Rightarrow> shared_store \<Rightarrow> login_info option" where
  "pick_login e iter clk s =
     (case store_list_prefix iter clk kLoginPrefix s of
        [] \<Rightarrow> None
      | (k, v) # _ \<Rightarrow> decode_login e v)"

section \<open>The records decode to what was published\<close>

definition login_info_fits :: "login_info \<Rightarrow> bool" where
  "login_info_fits i \<longleftrightarrow> length (li_host i) < 65536"

definition world_info_fits :: "world_info \<Rightarrow> bool" where
  "world_info_fits i \<longleftrightarrow> length (wi_host i) < 65536 \<and> length (wi_name i) < 65536"

lemma body_infos:
  "encode_login_info e i = enc_str16 e (li_host i) @ mem_of_u16 e (li_port i)"
  "encode_world_info e j = enc_str16 e (wi_host j) @ mem_of_u16 e (wi_port j) @
     enc_str16 e (wi_name j) @ mem_of_u32 e (wi_population j)"
  by (simp_all add: encode_login_info_def encode_world_info_def wire_simps)

text \<open>The reads of a length and of as many characters are one field.\<close>

lemma reader_str16_fold:
  "do { (n, r) \<leftarrow> reader_u16 e r; (s, r) \<leftarrow> reader_str (unat n) r; f s r } =
     do { (s, r) \<leftarrow> reader_str16 e r; f s r }"
  by (simp add: reader_str16_def split_def)

lemma decode_login_iff:
  "decode_login e bs = Some i \<longleftrightarrow> login_info_fits i \<and> (\<exists>rest. bs = encode_login_info e i @ rest)"
  unfolding decode_login_def reader_str16_fold
  by (cases i) (auto simp: login_info_fits_def body_infos bind_eq_Some_conv codec_laws)

lemma decode_world_iff:
  "decode_world e bs = Some i \<longleftrightarrow> world_info_fits i \<and> (\<exists>rest. bs = encode_world_info e i @ rest)"
  unfolding decode_world_def reader_str16_fold
proof (intro iffI, goal_cases)
  case 1
  then show ?case
    by (cases i) (auto simp: world_info_fits_def body_infos bind_eq_Some_conv codec_laws)
next
  case 2
  then show ?case by (auto simp: world_info_fits_def body_infos)
qed

lemma decode_world_encode [simp]:
  "world_info_fits i \<Longrightarrow> decode_world e (encode_world_info e i) = Some i"
  by (auto simp: decode_world_iff)

lemma decode_login_encode [simp]:
  "login_info_fits i \<Longrightarrow> decode_login e (encode_login_info e i) = Some i"
  by (auto simp: decode_login_iff)

section \<open>An entry lives as long as its heartbeat\<close>

lemma heartbeat_append:
  "heartbeat_loop e E hk key ttl (bs @ cs) w =
     (case heartbeat_loop e E hk key ttl bs w of
        (Running, w') \<Rightarrow> heartbeat_loop e E hk key ttl cs w'
      | (Stopped, w') \<Rightarrow> (Stopped, w')
      | (Threw ex, w') \<Rightarrow> (Threw ex, w'))"
  by (induction bs arbitrary: w) (auto split: prod.split sum.split)

text \<open>The others leave a key alone: at every time it holds what it held.\<close>

definition leaves_alone :: "string \<Rightarrow> (store_server \<Rightarrow> store_server) \<Rightarrow> bool" where
  "leaves_alone key f \<longleftrightarrow>
     (\<forall>sv t. live t (sv_store (f sv)) key = live t (sv_store sv) key)"

lemma heartbeat_last_beat:
  assumes "crypto_ok E hk" and "rpc_put_ok key (beat_value b) ttl"
    and "beat_net b = loopback e E hk iter" and "leaves_alone key (beat_wait b)"
    and "heartbeat_loop e E hk key ttl bs sv = (Running, sv1)"
    and "heartbeat_loop e E hk key ttl (bs @ [b]) sv = (res, sv2)"
  shows "res = (if beat_timer_ok b then Running else Stopped) \<and>
    live t (sv_store sv2) key =
      (if t < sv_now sv1 + ttl * ns_per_second then Some (beat_value b) else None)"
proof -
  let ?sv = "sv_tick 1 (sv1\<lparr>sv_store :=
    store_put key (beat_value b) ttl (sv_now sv1) (sv_store sv1)\<rparr>)"
  have "(res, sv2) = (if beat_timer_ok b then Running else Stopped, beat_wait b ?sv)"
    using assms(6)
    by (simp add: heartbeat_append assms(3,5) client_put_loopback [OF assms(1,2)] split: if_splits)
  then show ?thesis
    using assms(4) by (simp add: leaves_alone_def live_put)
qed

text \<open>With the default interval and time to live, a beat that is less than ten seconds late still finds
  the entry of the one before.\<close>

lemma heartbeat_overlap:
  assumes "crypto_ok E hk" and "rpc_put_ok key (beat_value b) heartbeat_ttl"
    and "beat_net b = loopback e E hk iter" and "leaves_alone key (beat_wait b)"
    and "heartbeat_loop e E hk key heartbeat_ttl bs sv = (Running, sv1)"
    and "heartbeat_loop e E hk key heartbeat_ttl (bs @ [b]) sv = (res, sv2)"
    and "sv_now sv2 \<le> sv_now sv1 + (heartbeat_interval + late) * ns_per_second" and "late < 10"
  shows "live (sv_now sv2) (sv_store sv2) key = Some (beat_value b)"
proof -
  have "sv_now sv2 < sv_now sv1 + heartbeat_ttl * ns_per_second"
    using assms(7,8) by (simp add: heartbeat_interval_def heartbeat_ttl_def ns_per_second_def)
  with heartbeat_last_beat [OF assms(1-6), of "sv_now sv2"] show ?thesis by simp
qed

section \<open>What the readers return\<close>

lemma pick_login_sound:
  assumes "is_iteration iter" and "wf_store s" and "\<And>j. t \<le> clk j"
    and "pick_login e iter clk s = Some i"
  shows "\<exists>key v. key_has_prefix kLoginPrefix key \<and> live t s key = Some v \<and> decode_login e v = Some i"
proof -
  obtain key v where "(key, v) \<in> set (store_list_prefix iter clk kLoginPrefix s)"
      "decode_login e v = Some i"
    using assms(4) by (auto simp: pick_login_def split: list.splits)
  then show ?thesis
    using list_prefix_sound [OF assms(1,2), of t clk key v kLoginPrefix] assms(3) by blast
qed

text \<open>If every live entry is a published record, Master finds a Login as soon as there is one.\<close>

lemma pick_login_complete:
  assumes "is_iteration iter" and "wf_store s" and "\<And>j. t \<le> clk j" and "\<And>j. clk j \<le> t'"
    and "\<And>key v. key_has_prefix kLoginPrefix key \<Longrightarrow> live t s key = Some v \<Longrightarrow> decode_login e v \<noteq> None"
    and "key_has_prefix kLoginPrefix key" and "live t' s key = Some v"
  shows "pick_login e iter clk s \<noteq> None"
proof -
  let ?es = "store_list_prefix iter clk kLoginPrefix s"
  have "(key, v) \<in> set ?es"
    using list_prefix_complete [OF assms(1,2), of clk t' kLoginPrefix key v] assms(4,6,7) by blast
  then obtain k w es where es: "?es = (k, w) # es"
    by (cases ?es) auto
  then have "decode_login e w \<noteq> None"
    using list_prefix_sound [OF assms(1,2), of t clk k w kLoginPrefix] assms(3,5) by auto
  with es show ?thesis by (simp add: pick_login_def)
qed

text \<open>What decides the choice of a Login: the records of the keys that live under the prefix.\<close>

lemma pick_login_live:
  assumes "is_iteration iter" and "wf_store s"
    and "\<And>j. j < store_size s \<Longrightarrow> t0 \<le> clk j \<and> clk j \<le> t1"
  shows "pick_login e iter clk s = Some i \<Longrightarrow>
      \<exists>key v. key_has_prefix kLoginPrefix key \<and> live t0 s key = Some v \<and> decode_login e v = Some i"
    and "pick_login e iter clk s = None \<Longrightarrow>
      (\<forall>key. key_has_prefix kLoginPrefix key \<longrightarrow> live t1 s key = None) \<or>
      (\<exists>key v. key_has_prefix kLoginPrefix key \<and> live t0 s key = Some v \<and> decode_login e v = None)"
proof -
  let ?es = "store_list_prefix iter clk kLoginPrefix s"
  have sound: "key_has_prefix kLoginPrefix key \<and> live t0 s key = Some v" if "(key, v) \<in> set ?es" for key v
    by (rule list_prefix_live(2) [OF assms(1,2) _ that]) (rule assms(3))
  have complete: "(key, v) \<in> set ?es" if "key_has_prefix kLoginPrefix key" "live t1 s key = Some v" for key v
    by (rule list_prefix_live(3) [OF assms(1,2) _ that]) (rule assms(3))
  show "pick_login e iter clk s = Some i \<Longrightarrow>
      \<exists>key v. key_has_prefix kLoginPrefix key \<and> live t0 s key = Some v \<and> decode_login e v = Some i"
    using sound by (force simp: pick_login_def split: list.splits)
  show "pick_login e iter clk s = None \<Longrightarrow>
      (\<forall>key. key_has_prefix kLoginPrefix key \<longrightarrow> live t1 s key = None) \<or>
      (\<exists>key v. key_has_prefix kLoginPrefix key \<and> live t0 s key = Some v \<and> decode_login e v = None)"
  proof (cases "store_list_prefix iter clk kLoginPrefix s")
    case Nil
    have "live t1 s key = None" if "key_has_prefix kLoginPrefix key" for key
      using complete [OF that] Nil by (cases "live t1 s key") auto
    then show ?thesis by blast
  next
    case (Cons p es)
    then show "pick_login e iter clk s = None \<Longrightarrow> ?thesis"
      using sound [of "fst p" "snd p"] by (cases p) (auto simp: pick_login_def)
  qed
qed

text \<open>Over the loopback, Login sees exactly the records of the live World entries.\<close>

lemma list_worlds_loopback:
  assumes "crypto_ok E hk"
    and "es = store_list_prefix iter (\<lambda>j. sv_clock sv (sv_ticks sv + j)) kWorldPrefix (sv_store sv)"
    and "list_fits es" and "list_bytes es \<le> kMaxResponseBytes"
  shows "list_worlds e E hk (loopback e E hk iter) sv =
    (Inr (List.map_filter (\<lambda>(k, v). decode_world e v) es), sv_tick (store_size (sv_store sv)) sv)"
proof -
  have "rpc_key_ok kWorldPrefix" by (simp add: rpc_key_ok_def kWorldPrefix_def)
  from client_list_prefix_loopback [OF assms(1) this assms(2-4)]
  show ?thesis by (simp add: list_worlds_def)
qed

text \<open>A token is written with hexadecimal digits: it is never a registry key.\<close>

lemma token_not_registry_key:
  "\<not> key_has_prefix kLoginPrefix (to_hex bs)" "\<not> key_has_prefix kWorldPrefix (to_hex bs)"
  using set_to_hex [of bs]
  by (auto simp: key_has_prefix_def kLoginPrefix_def kWorldPrefix_def digits_def
      take_Cons' take_eq_Nil neq_Nil_conv split: if_splits)
    (cases "to_hex bs"; auto)+

end
