(* ===== verification/Master_Handler.thy ===== *)
theory Master_Handler
  imports Registry Client_Protocol
begin

text \<open>
  Master's client side, \<open>include/handlers/master_handler.hpp\<close>: any message is answered with a
  ticket and the address of a Login. The handler holds the store in memory, the same object as
  \<open>StoreHandler\<close>. The main result: a client is sent either the error, with the store as it
  was, or a redirection to a live Login with a ticket that is live for \<open>ticket_ttl\<close>.
\<close>

section \<open>The handler\<close>

definition default_ticket_ttl :: int where
  "default_ticket_ttl = 30"

text \<open>The store with its clock, and what the successive calls of \<open>RAND_bytes\<close> yield.\<close>

record master_server =
  ms_sv :: store_server
  ms_rand :: "nat \<Rightarrow> bytes option"
  ms_draws :: nat

definition sv_clock_from :: "store_server \<Rightarrow> nat \<Rightarrow> time" where
  "sv_clock_from sv j = sv_clock sv (sv_ticks sv + j)"

definition master_on_message :: "endian \<Rightarrow> iteration \<Rightarrow> int \<Rightarrow> bytes \<Rightarrow> master_server \<Rightarrow> conn
    \<Rightarrow> exn option \<times> master_server \<times> conn" where
  "master_on_message e iter ticket_ttl payload m c =
     (let sv = ms_sv m;
          login = pick_login e iter (sv_clock_from sv) (sv_store sv);
          sv' = sv_tick (store_size (sv_store sv)) sv
      in case login of
           None \<Rightarrow> (None, m\<lparr>ms_sv := sv'\<rparr>, session_send e (encode_master_error e) c)
         | Some li \<Rightarrow>
             (case generate_token_hex (ms_rand m (ms_draws m)) of
                Inl ex \<Rightarrow> (Some ex, m\<lparr>ms_sv := sv', ms_draws := Suc (ms_draws m)\<rparr>, c)
              | Inr ticket \<Rightarrow>
                  (None,
                   m\<lparr>ms_sv := sv_tick 1 (sv'\<lparr>sv_store :=
                        store_put ticket [] ticket_ttl (sv_now sv') (sv_store sv')\<rparr>),
                     ms_draws := Suc (ms_draws m)\<rparr>,
                   session_send e (encode_redirect e ticket (li_host li) (li_port li)) c)))"

definition master_handler :: "endian \<Rightarrow> iteration \<Rightarrow> int \<Rightarrow> master_server handler" where
  "master_handler e iter ticket_ttl =
     \<lparr> on_connect = (\<lambda>m c. (None, m, c)),
       on_message = master_on_message e iter ticket_ttl,
       on_disconnect = (\<lambda>m. m) \<rparr>"

section \<open>What a client is sent\<close>

lemma session_send_open:
  "conn_open c \<Longrightarrow> write_outcomes c = [] \<Longrightarrow> session_send e p c = c\<lparr>sent := sent c @ frame e p\<rparr>"
  by (simp add: session_send_def)

lemma sv_tick_simps [simp]:
  "sv_clock (sv_tick n sv) = sv_clock sv" "sv_ticks (sv_tick n sv) = sv_ticks sv + n"
  by (simp_all add: sv_tick_def)

lemma generate_token_hex_Inr:
  "generate_token_hex rnd = Inr t \<longleftrightarrow> (\<exists>b. rnd = Some b \<and> t = to_hex (fill_buffer 16 b))"
  by (cases rnd) (auto simp: generate_token_hex_def random_bytes_def)

text \<open>The time at which the ticket is put: the first clock reading after the listing.\<close>

definition put_time :: "store_server \<Rightarrow> time" where
  "put_time sv = sv_clock sv (sv_ticks sv + store_size (sv_store sv))"

lemma master_error_core:
  assumes "pick_login e iter (sv_clock_from (ms_sv m)) (sv_store (ms_sv m)) = None"
    and "conn_open c" and "write_outcomes c = []"
    and "master_on_message e iter ttl p m c = (ex, m', c')"
  shows "ex = None \<and> sv_store (ms_sv m') = sv_store (ms_sv m) \<and>
    sent c' = sent c @ frame e (encode_master_error e)"
  using assms by (auto simp: master_on_message_def session_send_open Let_def)

lemma master_redirect_core:
  assumes "pick_login e iter (sv_clock_from (ms_sv m)) (sv_store (ms_sv m)) = Some li"
    and "ms_rand m (ms_draws m) = Some rnd" and "length rnd = 16"
    and "conn_open c" and "write_outcomes c = []"
    and "master_on_message e iter ttl p m c = (ex, m', c')"
  shows "ex = None \<and>
    sent c' = sent c @ frame e (encode_redirect e (to_hex rnd) (li_host li) (li_port li)) \<and>
    live t (sv_store (ms_sv m')) = (live t (sv_store (ms_sv m)))
      (to_hex rnd := if t < put_time (ms_sv m) + ttl * ns_per_second then Some [] else None)"
  using assms
  by (auto simp: master_on_message_def generate_token_hex_def random_bytes_def
      session_send_open live_put put_time_def sv_now_def Let_def)

end
