(* ===== verification/World_Handler.thy ===== *)
theory World_Handler
  imports Store_RPC
begin

text \<open>
  World: the dispatch of game packets by opcode (\<open>include/net/channel.hpp\<close>,
  \<open>include/handlers/player_channel.hpp\<close>), the TCP handler that admits a client by its session
  token (\<open>include/handlers/world_handler.hpp\<close>) and the UDP echo
  (\<open>include/example_handlers.hpp\<close>). The main results: before a token is accepted a
  connection gets nothing from the server, a token admits one connection, and what an admitted
  session is sent are the bodies of its move and portal packets.
\<close>

section \<open>Channel and PlayerChannel\<close>

definition CPLAYER_PONG :: u16 where "CPLAYER_PONG = 0x0001"
definition CPLAYER_MOVE :: u16 where "CPLAYER_MOVE = 0x0002"
definition CPLAYER_PORTAL :: u16 where "CPLAYER_PORTAL = 0x0003"

datatype player_fn = Pong | Move_Operation | Use_Portal

definition pong :: "bytes \<Rightarrow> conn \<Rightarrow> conn" where
  "pong body c = c"

definition move_operation :: "endian \<Rightarrow> bytes \<Rightarrow> conn \<Rightarrow> conn" where
  "move_operation e body c = session_send e body c"

definition use_portal :: "endian \<Rightarrow> bytes \<Rightarrow> conn \<Rightarrow> conn" where
  "use_portal e body c = session_send e body c"

definition build_handlers :: "(u16 \<times> player_fn) list" where
  "build_handlers =
     [(CPLAYER_PONG, Pong), (CPLAYER_MOVE, Move_Operation), (CPLAYER_PORTAL, Use_Portal)]"

fun call_player_fn :: "endian \<Rightarrow> player_fn \<Rightarrow> bytes \<Rightarrow> conn \<Rightarrow> conn" where
  "call_player_fn e Pong body c = pong body c"
| "call_player_fn e Move_Operation body c = move_operation e body c"
| "call_player_fn e Use_Portal body c = use_portal e body c"

text \<open>The dispatch of the mixin, over the table of the derived class and its functions.\<close>

definition dispatch :: "(u16 \<times> 'f) list \<Rightarrow> ('f \<Rightarrow> bytes \<Rightarrow> conn \<Rightarrow> conn) \<Rightarrow> u16 \<Rightarrow> bytes \<Rightarrow> conn
    \<Rightarrow> conn" where
  "dispatch handlers call opcode body c =
     (case map_of handlers opcode of None \<Rightarrow> c | Some f \<Rightarrow> call f body c)"

definition has_handler :: "(u16 \<times> 'f) list \<Rightarrow> u16 \<Rightarrow> bool" where
  "has_handler handlers opcode \<longleftrightarrow> opcode \<in> fst ` set handlers"

section \<open>WorldHandler\<close>

record world_session =
  ws_authenticated :: bool
  ws_username :: string

definition new_world_session :: world_session where
  "new_world_session = \<lparr> ws_authenticated = False, ws_username = [] \<rparr>"

text \<open>
  A session is identified by its thread (the map is \<open>thread_local\<close>) and its address. \<open>'w\<close>
  is what the store client reaches; the state of the network may differ from call to call.
\<close>

type_synonym session_id = "nat \<times> nat"

record 'w world_server =
  wd_world :: 'w
  wd_sessions :: "session_id \<rightharpoonup> world_session"

definition world_on_message :: "endian \<Rightarrow> openssl \<Rightarrow> bytes \<Rightarrow> ('w \<Rightarrow> 'w network) \<Rightarrow> session_id \<Rightarrow> bytes
    \<Rightarrow> 'w world_server \<Rightarrow> conn \<Rightarrow> exn option \<times> 'w world_server \<times> conn" where
  "world_on_message e E hmac_key net sid payload h c =
     (let ctx = (case wd_sessions h sid of Some x \<Rightarrow> x | None \<Rightarrow> new_world_session);
          h = h\<lparr>wd_sessions := (wd_sessions h)(sid \<mapsto> ctx)\<rparr>
      in if \<not> ws_authenticated ctx then
           (case client_take e E hmac_key (net (wd_world h)) (string_of payload) (wd_world h) of
              (Inl ex, w) \<Rightarrow> (Some ex, h\<lparr>wd_world := w\<rparr>, c)
            | (Inr None, w) \<Rightarrow> (None, h\<lparr>wd_world := w\<rparr>, session_close c)
            | (Inr (Some found), w) \<Rightarrow>
                (None,
                 h\<lparr>wd_world := w, wd_sessions := (wd_sessions h)
                     (sid \<mapsto> \<lparr>ws_authenticated = True, ws_username = string_of found\<rparr>)\<rparr>, c))
         else if length payload < 2 then (None, h, c)
         else (None, h, dispatch build_handlers (call_player_fn e)
                 (u16_of_mem e (take 2 payload)) (drop 2 payload) c))"

definition world_on_disconnect :: "session_id \<Rightarrow> 'w world_server \<Rightarrow> 'w world_server" where
  "world_on_disconnect sid h = h\<lparr>wd_sessions := (wd_sessions h)(sid := None)\<rparr>"

definition world_handler :: "endian \<Rightarrow> openssl \<Rightarrow> bytes \<Rightarrow> ('w \<Rightarrow> 'w network) \<Rightarrow> session_id
    \<Rightarrow> 'w world_server handler" where
  "world_handler e E hmac_key net sid =
     \<lparr> on_connect = (\<lambda>h c. (None, h, c)),
       on_message = world_on_message e E hmac_key net sid,
       on_disconnect = world_on_disconnect sid \<rparr>"

text \<open>\<open>WorldUdpHandler\<close>: a datagram goes back to its sender.\<close>

definition on_datagram :: "'ep \<Rightarrow> bytes \<Rightarrow> ('ep \<times> bytes) list \<Rightarrow> ('ep \<times> bytes) list" where
  "on_datagram from_ep payload out = out @ [(from_ep, payload)]"

section \<open>Before and after authentication\<close>

definition authenticated_as :: "'w world_server \<Rightarrow> session_id \<Rightarrow> string \<Rightarrow> bool" where
  "authenticated_as h sid u \<longleftrightarrow>
     (\<exists>x. wd_sessions h sid = Some x \<and> ws_authenticated x \<and> ws_username x = u)"

definition unauthenticated :: "'w world_server \<Rightarrow> session_id \<Rightarrow> bool" where
  "unauthenticated h sid \<longleftrightarrow> (\<forall>u. \<not> authenticated_as h sid u)"

lemma unauthenticated_ctx:
  "unauthenticated h sid \<longleftrightarrow>
     \<not> ws_authenticated (case wd_sessions h sid of Some x \<Rightarrow> x | None \<Rightarrow> new_world_session)"
  by (auto simp: unauthenticated_def authenticated_as_def new_world_session_def split: option.split)

text \<open>The first message of a session, case by case on what the store answers.\<close>

lemma world_first_message:
  assumes "unauthenticated h sid"
    and "client_take e E hk (net (wd_world h)) (string_of p) (wd_world h) = (res, w)"
    and "world_on_message e E hk net sid p h c = (ex, h', c')"
  shows "wd_world h' = w \<and> sent c' = sent c \<and>
    (case res of
       Inl err \<Rightarrow> ex = Some err \<and> unauthenticated h' sid
     | Inr None \<Rightarrow> ex = None \<and> unauthenticated h' sid \<and> \<not> conn_open c'
     | Inr (Some v) \<Rightarrow> ex = None \<and> authenticated_as h' sid (string_of v) \<and> c' = c)"
  using assms
  by (auto simp: world_on_message_def unauthenticated_ctx authenticated_as_def session_close_def
      Let_def split: sum.splits option.splits)

lemma world_silent_core:
  assumes "unauthenticated h sid"
    and "world_on_message e E hk net sid p h c = (ex, h', c')"
  shows "sent c' = sent c \<and> (unauthenticated h' sid \<longrightarrow> ex \<noteq> None \<or> \<not> conn_open c')"
proof -
  obtain res w where "client_take e E hk (net (wd_world h)) (string_of p) (wd_world h) = (res, w)" by force
  from world_first_message [OF assms(1) this assms(2)] show ?thesis
    by (auto simp: unauthenticated_def split: sum.splits option.splits)
qed

lemma other_sessions_untouched:
  assumes "sid' \<noteq> sid" and "world_on_message e E hk net sid p h c = (ex, h', c')"
  shows "wd_sessions h' sid' = wd_sessions h sid'"
  using assms
  by (auto simp: world_on_message_def Let_def split: sum.splits option.splits if_splits prod.splits)

lemma authenticated_stays:
  assumes "authenticated_as h sid u" and "world_on_message e E hk net sid p h c = (ex, h', c')"
  shows "ex = None \<and> authenticated_as h' sid u \<and> wd_world h' = wd_world h"
  using assms
  by (auto simp: world_on_message_def authenticated_as_def Let_def split: if_splits)

text \<open>An opcode outside the table, or a message too short to have one, changes nothing.\<close>

lemma dispatch_unknown: "\<not> has_handler hs opcode \<Longrightarrow> dispatch hs call opcode body c = c"
  by (simp add: dispatch_def has_handler_def map_of_eq_None_iff [THEN iffD2])

lemma has_handler_player:
  "has_handler build_handlers opcode \<longleftrightarrow> opcode \<in> {CPLAYER_PONG, CPLAYER_MOVE, CPLAYER_PORTAL}"
  by (auto simp: has_handler_def build_handlers_def)

lemma player_dispatch:
  "dispatch build_handlers (call_player_fn e) opcode body c =
     (if opcode = CPLAYER_MOVE \<or> opcode = CPLAYER_PORTAL then session_send e body c else c)"
  by (simp add: dispatch_def build_handlers_def CPLAYER_PONG_def CPLAYER_MOVE_def
      CPLAYER_PORTAL_def pong_def move_operation_def use_portal_def)

section \<open>The packets of a session\<close>

text \<open>
  What a player is sent for the packets \<open>ps\<close>: the body of each packet with the opcode of a move (2)
  or of a portal (3), and nothing for the others.
\<close>

definition echoed :: "endian \<Rightarrow> bytes \<Rightarrow> bool" where
  "echoed e p \<longleftrightarrow> 2 \<le> length p \<and> (u16_of_mem e (take 2 p) = 2 \<or> u16_of_mem e (take 2 p) = 3)"

definition echoes :: "endian \<Rightarrow> bytes list \<Rightarrow> bytes" where
  "echoes e ps = concat (map (\<lambda>p. frame e (drop 2 p)) (filter (echoed e) ps))"

lemma world_packet:
  assumes "authenticated_as h sid u"
  shows "world_on_message e E hk net sid p h c =
    (None, h, if echoed e p then session_send e (drop 2 p) c else c)"
proof -
  obtain x where x: "wd_sessions h sid = Some x" "ws_authenticated x"
    using assms by (auto simp: authenticated_as_def)
  then have "(wd_sessions h)(sid \<mapsto> x) = wd_sessions h" by (simp add: fun_upd_idem)
  then have same: "h\<lparr>wd_sessions := (wd_sessions h)(sid \<mapsto> x)\<rparr> = h" by simp
  show ?thesis
    unfolding world_on_message_def x(1) option.case Let_def same
    by (simp add: x(2) player_dispatch CPLAYER_MOVE_def CPLAYER_PORTAL_def echoed_def)
qed

lemma echoes_Cons: "echoes e (p # ps) = (if echoed e p then frame e (drop 2 p) else []) @ echoes e ps"
  by (simp add: echoes_def)

lemma feed_closed: "\<not> conn_open c \<Longrightarrow> feed H ps h c = (h, c)"
  by (cases ps) auto

lemma take_add_append: "take (length xs + n) (xs @ ys) = xs @ take n ys"
  by simp

lemma send_partial:
  assumes "conn_open c"
  shows "sent (session_send e p c) = sent c @ frame e p \<or>
    (\<exists>k. sent (session_send e p c) = sent c @ take k (frame e p) \<and> \<not> conn_open (session_send e p c))"
  using assms by (auto simp: session_send_def session_close_def split: list.split write_outcome.split)

text \<open>Where a write fails the connection ends, with a part of what was to be sent.\<close>

lemma feed_packets:
  assumes "authenticated_as h sid u"
  shows "\<exists>n c'. feed (world_handler e E hk net sid) ps h c = (h, c') \<and> sent c' = sent c @ take n (echoes e ps)"
proof (induction ps arbitrary: c)
  case Nil
  then show ?case by (simp add: echoes_def)
next
  case (Cons p ps)
  have none: "\<exists>n. sent c = sent c @ take n xs" for xs :: bytes by (rule exI [of _ 0]) simp
  show ?case
  proof (cases "conn_open c")
    case False
    then show ?thesis using none by (simp add: feed_closed)
  next
    case True
    let ?c = "if echoed e p then session_send e (drop 2 p) c else c"
    have step: "feed (world_handler e E hk net sid) (p # ps) h c = feed (world_handler e E hk net sid) ps h ?c"
      using True by (simp add: world_handler_def world_packet [OF assms])
    obtain n c' where c': "feed (world_handler e E hk net sid) ps h ?c = (h, c')"
        "sent c' = sent ?c @ take n (echoes e ps)"
      using Cons.IH [of ?c] by blast
    have "\<exists>k. sent c' = sent c @ take k (echoes e (p # ps))"
    proof (cases "echoed e p")
      case False
      then show ?thesis using c'(2) by (auto simp: echoes_Cons)
    next
      case sends: True
      consider "sent ?c = sent c @ frame e (drop 2 p)"
        | k where "sent ?c = sent c @ take k (frame e (drop 2 p))" "\<not> conn_open ?c"
        using sends send_partial [OF True, of e "drop 2 p"] by auto
      then show ?thesis
      proof cases
        case 1
        then have "sent c' = sent c @ take (length (frame e (drop 2 p)) + n) (echoes e (p # ps))"
          using c'(2) sends unfolding echoes_Cons by (simp add: take_add_append)
        then show ?thesis by blast
      next
        case 2
        then have "sent c' = sent c @ take k (frame e (drop 2 p))"
          using c'(1) by (simp add: feed_closed)
        also have "take k (frame e (drop 2 p)) =
            take (min k (length (frame e (drop 2 p)))) (echoes e (p # ps))"
          using sends unfolding echoes_Cons by (simp only: if_True take_append) (simp add: min_def)
        finally show ?thesis by blast
      qed
    qed
    with step c'(1) show ?thesis by auto
  qed
qed

lemma feed_packets_all:
  assumes "authenticated_as h sid u"
  shows "conn_open c \<Longrightarrow> write_outcomes c = [] \<Longrightarrow>
    feed (world_handler e E hk net sid) ps h c = (h, c\<lparr>sent := sent c @ echoes e ps\<rparr>)"
proof (induction ps arbitrary: c)
  case Nil
  then show ?case by (simp add: echoes_def)
next
  case (Cons p ps)
  then show ?case
    by (simp add: echoes_Cons world_handler_def [of e E hk net sid] world_packet [OF assms] session_send_def)
qed

section \<open>A token admits one connection\<close>

text \<open>World connected to the store of Master: the state is the internal server.\<close>

definition world_at :: "endian \<Rightarrow> openssl \<Rightarrow> bytes \<Rightarrow> iteration \<Rightarrow> session_id \<Rightarrow> bytes
    \<Rightarrow> store_server world_server \<Rightarrow> conn \<Rightarrow> exn option \<times> store_server world_server \<times> conn" where
  "world_at e E hk iter sid = world_on_message e E hk (\<lambda>_. loopback e E hk iter) sid"

definition token_ok :: "store_server \<Rightarrow> bytes \<Rightarrow> bool" where
  "token_ok sv p \<longleftrightarrow> rpc_key_ok (string_of p) \<and> values_ok (sv_store sv)"

lemma world_at_first:
  assumes "crypto_ok E hk" and "token_ok (wd_world h) p" and "unauthenticated h sid"
    and "world_at e E hk iter sid p h c = (ex, h', c')"
  shows "ex = None \<and>
    wd_world h' = sv_tick 1 ((wd_world h)\<lparr>sv_store :=
      snd (store_take (string_of p) (sv_now (wd_world h)) (sv_store (wd_world h)))\<rparr>) \<and>
    (case live (sv_now (wd_world h)) (sv_store (wd_world h)) (string_of p) of
       None \<Rightarrow> unauthenticated h' sid \<and> \<not> conn_open c'
     | Some v \<Rightarrow> authenticated_as h' sid (string_of v) \<and> c' = c)"
proof -
  have "client_take e E hk (loopback e E hk iter) (string_of p) (wd_world h) =
      (Inr (live (sv_now (wd_world h)) (sv_store (wd_world h)) (string_of p)),
       sv_tick 1 ((wd_world h)\<lparr>sv_store :=
         snd (store_take (string_of p) (sv_now (wd_world h)) (sv_store (wd_world h)))\<rparr>))"
    using assms(1,2) live_value_ok by (intro client_take_loopback) (auto simp: token_ok_def)
  from world_first_message [OF assms(3) this assms(4) [unfolded world_at_def]]
  show ?thesis by (auto split: option.splits)
qed

lemma token_single_use_core:
  assumes "crypto_ok E hk" and "token_ok (wd_world h) p"
    and "unauthenticated h sid" and "unauthenticated h1 sid'"
    and "world_at e E hk iter sid p h c = (ex, h', c1)"
    and "sv_store (wd_world h1) = sv_store (wd_world h')"
    and "sv_now (wd_world h) \<le> sv_now (wd_world h1)"
    and "world_at e E hk iter sid' p h1 d = (ex', h1', d1)"
  shows "unauthenticated h1' sid' \<and> \<not> conn_open d1"
proof -
  let ?s = "snd (store_take (string_of p) (sv_now (wd_world h)) (sv_store (wd_world h)))"
  have s: "sv_store (wd_world h1) = ?s"
    using world_at_first [OF assms(1-3,5)] assms(6) by simp
  moreover have "live (sv_now (wd_world h1)) ?s (string_of p) = None"
    using live_take [OF assms(7)] by simp
  moreover have "token_ok (wd_world h1) p"
    using assms(2) by (simp add: token_ok_def s values_ok_take)
  ultimately show ?thesis
    using world_at_first [OF assms(1) _ assms(4,8)] by simp
qed


text \<open>A whole session: the token, then the packets.\<close>

lemma world_session_core:
  assumes "crypto_ok E hk" and "token_ok (wd_world h) tok" and "unauthenticated h sid"
    and live: "live (sv_now (wd_world h)) (sv_store (wd_world h)) (string_of tok) = Some v"
    and "\<And>k. \<not> idle_wins k" and fits: "\<forall>p \<in> set (tok # ps). frame_fits m p" and "read_frame e m rest = None"
    and "conn_open c"
    and run: "session_run e m (world_handler e E hk (\<lambda>_. loopback e E hk iter) sid) idle_wins
      (concat (map (frame e) (tok # ps)) @ rest) h c = (h', c')"
  shows "\<not> conn_open c' \<and> wd_sessions h' sid = None \<and>
    sv_store (wd_world h') = snd (store_take (string_of tok) (sv_now (wd_world h)) (sv_store (wd_world h))) \<and>
    (\<exists>n. sent c' = sent c @ take n (echoes e ps)) \<and>
    (write_outcomes c = [] \<longrightarrow> sent c' = sent c @ echoes e ps)"
proof -
  let ?H = "world_handler e E hk (\<lambda>_. loopback e E hk iter) sid"
  obtain ex h1 c1 where first: "world_at e E hk iter sid tok h c = (ex, h1, c1)" by (metis prod_cases3)
  note at = world_at_first [OF assms(1-3) first]
  then have one: "ex = None" "c1 = c" "authenticated_as h1 sid (string_of v)" and
    store: "sv_store (wd_world h1) = snd (store_take (string_of tok) (sv_now (wd_world h)) (sv_store (wd_world h)))"
    using live by simp_all
  have "feed ?H (tok # ps) h c = feed ?H ps h1 c"
    using first one(1,2) assms(8) by (simp add: world_handler_def world_at_def)
  moreover have "session_run e m ?H idle_wins (concat (map (frame e) (tok # ps)) @ rest) h c =
      (let (h, c) = feed ?H (tok # ps) h c in (world_on_disconnect sid h, session_close c))"
  proof -
    have "run_loop e m ?H idle_wins 0 (concat (map (frame e) (tok # ps)) @ rest) h c = feed ?H (tok # ps) h c"
      by (rule run_loop_feed [OF assms(5) fits assms(7)])
    moreover have "on_connect ?H h c = (None, h, c)" "on_disconnect ?H = world_on_disconnect sid"
      by (simp_all add: world_handler_def)
    ultimately show ?thesis
      unfolding session_run_def by (simp del: list.map concat.simps feed.simps)
  qed
  moreover obtain n c2 where c2: "feed ?H ps h1 c = (h1, c2)" "sent c2 = sent c @ take n (echoes e ps)"
    using feed_packets [OF one(3)] by blast
  ultimately have "h' = world_on_disconnect sid h1" "c' = session_close c2" using run by simp_all
  moreover have "write_outcomes c = [] \<Longrightarrow> sent c2 = sent c @ echoes e ps"
    using feed_packets_all [OF one(3) assms(8)] c2(1) by auto
  ultimately show ?thesis
    using store c2(2) by (auto simp: world_on_disconnect_def session_close_def)
qed

end
