(* ===== verification/Login_Handler.thy ===== *)
theory Login_Handler
  imports Registry Client_Protocol Accounts
begin

text \<open>
  Login, \<open>include/handlers/login_handler.hpp\<close>: the two-step state machine of a session
  (\<open>ClientHello\<close>, then \<open>ClientProof\<close>) over the ticket store, the accounts and SRP6. The
  main results: a session only moves forward and never uses a challenge it does not have, a
  session token is put in the store only after the proof of this session's challenge was
  accepted, and an unknown username is answered in the form of a known one.
\<close>

section \<open>State\<close>

datatype login_stage = AwaitingHello | AwaitingProof | Done

text \<open>The order of the enumerators.\<close>

fun stage_index :: "login_stage \<Rightarrow> nat" where
  "stage_index AwaitingHello = 0"
| "stage_index AwaitingProof = 1"
| "stage_index Done = 2"

instantiation login_stage :: linorder
begin

definition less_eq_login_stage :: "login_stage \<Rightarrow> login_stage \<Rightarrow> bool" where
  "less_eq_login_stage a b \<longleftrightarrow> stage_index a \<le> stage_index b"

definition less_login_stage :: "login_stage \<Rightarrow> login_stage \<Rightarrow> bool" where
  "less_login_stage a b \<longleftrightarrow> stage_index a < stage_index b"

instance
proof
  fix x y z :: login_stage
  show "x < y \<longleftrightarrow> x \<le> y \<and> \<not> y \<le> x"
    by (auto simp: less_login_stage_def less_eq_login_stage_def)
  show "x \<le> x" "x \<le> y \<or> y \<le> x"
    by (auto simp: less_eq_login_stage_def)
  show "x \<le> y \<Longrightarrow> y \<le> z \<Longrightarrow> x \<le> z"
    by (simp add: less_eq_login_stage_def)
  show "x \<le> y \<Longrightarrow> y \<le> x \<Longrightarrow> x = y"
    by (cases x; cases y) (simp_all add: less_eq_login_stage_def)
qed

end

lemma stage_order [simp]:
  "AwaitingHello \<le> s" "s \<le> Done" "\<not> Done \<le> AwaitingHello" "\<not> Done \<le> AwaitingProof"
  "\<not> AwaitingProof \<le> AwaitingHello"
  by (cases s; simp add: less_eq_login_stage_def)+

record login_session =
  ls_stage :: login_stage
  ls_username :: string
  ls_challenge :: "server_challenge option"

definition new_login_session :: login_session where
  "new_login_session = \<lparr> ls_stage = AwaitingHello, ls_username = [], ls_challenge = None \<rparr>"

text \<open>
  What the handler was constructed with, and the libraries it calls. The state of the network
  may differ from call to call.
\<close>

record ('w, 'r) login_config =
  lc_endian :: endian
  lc_openssl :: openssl
  lc_bn :: bn_lib
  lc_store_key :: bytes
  lc_net :: "'w \<Rightarrow> 'w network"
  lc_accounts :: "'r account_repository"
  lc_enum_key :: bytes
  lc_session_ttl :: int

definition default_session_ttl :: int where
  "default_session_ttl = 60"

text \<open>
  The state: the store's side of the network, the accounts, the sessions of every thread, and
  the two sources of randomness with the number of draws made (\<open>RAND_bytes\<close> in
  \<open>generate_token_hex\<close>, \<open>BN_rand_range\<close> in \<open>server_begin\<close>).
\<close>

record ('w, 'r) login_server =
  lg_world :: 'w
  lg_accounts :: 'r
  lg_sessions :: "(nat \<times> nat) \<rightharpoonup> login_session"
  lg_rand :: "nat \<Rightarrow> bytes option"
  lg_draws :: nat
  lg_bn_rand :: "nat \<Rightarrow> nat option"
  lg_bn_draws :: nat

section \<open>The steps\<close>

definition fake_salt_for :: "openssl \<Rightarrow> bytes \<Rightarrow> string \<Rightarrow> bytes result" where
  "fake_salt_for E enum_key username =
     bind_result (hmac_sha256 E enum_key (bytes_of (''srp6-fake-salt:'' @ username)))
       (\<lambda>h. Inr (take 16 h))"

text \<open>
  The registration a challenge is made from: the account's, or a fake one. The token that serves
  as the fake password is the next draw.
\<close>

definition registration_for :: "('w, 'r) login_config \<Rightarrow> account_record option \<Rightarrow> string
    \<Rightarrow> bytes option \<Rightarrow> registration result" where
  "registration_for C account username rnd =
     (case account of
        Some a \<Rightarrow> Inr \<lparr>reg_salt = ac_salt a, reg_verifier = ac_verifier a\<rparr>
      | None \<Rightarrow>
          bind_result (generate_token_hex rnd) (\<lambda>pw.
          bind_result (fake_salt_for (lc_openssl C) (lc_enum_key C) username) (\<lambda>salt.
          compute_verifier_with_salt (lc_openssl C) (lc_bn C) username pw salt)))"

definition set_session :: "nat \<times> nat \<Rightarrow> login_session \<Rightarrow> ('w, 'r) login_server
    \<Rightarrow> ('w, 'r) login_server" where
  "set_session sid st h = h\<lparr>lg_sessions := (lg_sessions h)(sid \<mapsto> st)\<rparr>"

definition handle_hello :: "('w, 'r) login_config \<Rightarrow> nat \<times> nat \<Rightarrow> login_session \<Rightarrow> string \<Rightarrow> string
    \<Rightarrow> ('w, 'r) login_server \<Rightarrow> conn \<Rightarrow> exn option \<times> ('w, 'r) login_server \<times> conn" where
  "handle_hello C sid st ticket username h c =
     (case client_take (lc_endian C) (lc_openssl C) (lc_store_key C) (lc_net C (lg_world h)) ticket
             (lg_world h) of
        (Inl ex, w) \<Rightarrow> (Some ex, h\<lparr>lg_world := w\<rparr>, c)
      | (Inr None, w) \<Rightarrow> (None, h\<lparr>lg_world := w\<rparr>, session_close c)
      | (Inr (Some _), w) \<Rightarrow>
          (case acc_find (lc_accounts C) (fst sid) username (lg_accounts h) of
             (Inl _, r) \<Rightarrow>
               (None, h\<lparr>lg_world := w, lg_accounts := r\<rparr>,
                session_close (session_send (lc_endian C) (encode_login_error (lc_endian C)) c))
           | (Inr account, r) \<Rightarrow>
               (let h1 = h\<lparr>lg_world := w, lg_accounts := r,
                           lg_draws := (if account = None then Suc (lg_draws h) else lg_draws h)\<rparr>
                in case registration_for C account username (lg_rand h (lg_draws h)) of
                     Inl ex \<Rightarrow> (Some ex, h1, c)
                   | Inr reg \<Rightarrow>
                       (let h2 = h1\<lparr>lg_bn_draws := Suc (lg_bn_draws h1)\<rparr>
                        in case server_begin (lc_openssl C) (lc_bn C) (lg_bn_rand h (lg_bn_draws h))
                                  (reg_verifier reg) of
                             Inl ex \<Rightarrow> (Some ex, h2, c)
                           | Inr ch \<Rightarrow>
                               (None,
                                set_session sid (st\<lparr>ls_username := username,
                                  ls_challenge := Some ch, ls_stage := AwaitingProof\<rparr>) h2,
                                session_send (lc_endian C)
                                  (encode_server_challenge (lc_endian C) (reg_salt reg) (ch_B_bytes ch))
                                  c)))))"

definition world_entry_of :: "world_info \<Rightarrow> world_entry" where
  "world_entry_of w =
     \<lparr>we_name = wi_name w, we_host = wi_host w, we_port = wi_port w, we_population = wi_population w\<rparr>"

definition handle_proof :: "('w, 'r) login_config \<Rightarrow> nat \<times> nat \<Rightarrow> login_session \<Rightarrow> bytes \<Rightarrow> bytes
    \<Rightarrow> ('w, 'r) login_server \<Rightarrow> conn \<Rightarrow> exn option \<times> ('w, 'r) login_server \<times> conn" where
  "handle_proof C sid st A M1 h c =
     (case ls_challenge st of
        None \<Rightarrow> (Some Undefined, h, c)
      | Some ch \<Rightarrow>
          (case server_verify (lc_openssl C) (lc_bn C) ch A M1 of
             Inl ex \<Rightarrow> (Some ex, h, c)
           | Inr res \<Rightarrow>
               if \<not> sr_ok res then
                 (None, h,
                  session_close (session_send (lc_endian C) (encode_login_error (lc_endian C)) c))
               else
                 (case generate_token_hex (lg_rand h (lg_draws h)) of
                    Inl ex \<Rightarrow> (Some ex, h\<lparr>lg_draws := Suc (lg_draws h)\<rparr>, c)
                  | Inr token \<Rightarrow>
                      (case client_put (lc_endian C) (lc_openssl C) (lc_store_key C)
                              (lc_net C (lg_world h)) token (bytes_of (ls_username st))
                              (lc_session_ttl C) (lg_world h) of
                         (Inl ex, w) \<Rightarrow>
                           (Some ex, h\<lparr>lg_draws := Suc (lg_draws h), lg_world := w\<rparr>, c)
                       | (Inr _, w) \<Rightarrow>
                           (let c1 = session_send (lc_endian C)
                                       (encode_server_proof (lc_endian C) (sr_M2 res) token) c;
                                (worlds, w') = list_worlds (lc_endian C) (lc_openssl C) (lc_store_key C)
                                                 (lc_net C w) w;
                                h1 = h\<lparr>lg_draws := Suc (lg_draws h), lg_world := w'\<rparr>
                            in case worlds of
                                 Inl ex \<Rightarrow> (Some ex, h1, c1)
                               | Inr ws \<Rightarrow>
                                   (None, set_session sid (st\<lparr>ls_stage := Done\<rparr>) h1,
                                    session_send (lc_endian C)
                                      (encode_world_list (lc_endian C) (map world_entry_of ws)) c1))))))"

definition login_on_message :: "('w, 'r) login_config \<Rightarrow> nat \<times> nat \<Rightarrow> bytes
    \<Rightarrow> ('w, 'r) login_server \<Rightarrow> conn \<Rightarrow> exn option \<times> ('w, 'r) login_server \<times> conn" where
  "login_on_message C sid payload h c =
     (case login_decode (lc_endian C) payload of
        None \<Rightarrow> (None, h, session_close c)
      | Some d \<Rightarrow>
          (let st = (case lg_sessions h sid of Some st \<Rightarrow> st | None \<Rightarrow> new_login_session);
               h = set_session sid st h
           in if ls_stage st = AwaitingHello \<and> l_op d = ClientHello then
                handle_hello C sid st (l_ticket d) (l_username d) h c
              else if ls_stage st = AwaitingProof \<and> l_op d = ClientProof then
                handle_proof C sid st (l_A d) (l_M1 d) h c
              else (None, h, session_close c)))"

definition login_on_disconnect :: "nat \<times> nat \<Rightarrow> ('w, 'r) login_server \<Rightarrow> ('w, 'r) login_server" where
  "login_on_disconnect sid h = h\<lparr>lg_sessions := (lg_sessions h)(sid := None)\<rparr>"

definition login_handler :: "('w, 'r) login_config \<Rightarrow> nat \<times> nat \<Rightarrow> ('w, 'r) login_server handler" where
  "login_handler C sid =
     \<lparr> on_connect = (\<lambda>h c. (None, h, c)),
       on_message = login_on_message C sid,
       on_disconnect = login_on_disconnect sid \<rparr>"

section \<open>The life of a session\<close>

definition session_at :: "('w, 'r) login_server \<Rightarrow> nat \<times> nat \<Rightarrow> login_session" where
  "session_at h sid = (case lg_sessions h sid of Some st \<Rightarrow> st | None \<Rightarrow> new_login_session)"

lemma session_at_set [simp]:
  "session_at (set_session sid st h) sid' = (if sid' = sid then st else session_at h sid')"
  by (simp add: session_at_def set_session_def)

lemma session_at_update [simp]:
  "session_at (h\<lparr>lg_world := w\<rparr>) sid = session_at h sid"
  "session_at (h\<lparr>lg_accounts := r\<rparr>) sid = session_at h sid"
  "session_at (h\<lparr>lg_draws := n\<rparr>) sid = session_at h sid"
  "session_at (h\<lparr>lg_bn_draws := n\<rparr>) sid = session_at h sid"
  by (simp_all add: session_at_def)

text \<open>
  What a challenge was made for: an account that was found under the username, or a fake one
  for a username that was not.
\<close>

definition challenge_for :: "('w, 'r) login_config \<Rightarrow> string \<Rightarrow> server_challenge \<Rightarrow> bool" where
  "challenge_for C username ch \<longleftrightarrow>
     (\<exists>account th r r' rnd reg rb.
        acc_find (lc_accounts C) th username r = (Inr account, r') \<and>
        registration_for C account username rnd = Inr reg \<and>
        server_begin (lc_openssl C) (lc_bn C) rb (reg_verifier reg) = Inr ch)"

definition proof_accepted :: "('w, 'r) login_config \<Rightarrow> server_challenge \<Rightarrow> bytes \<Rightarrow> bytes
    \<Rightarrow> server_result \<Rightarrow> bool" where
  "proof_accepted C ch A M1 res \<longleftrightarrow>
     server_verify (lc_openssl C) (lc_bn C) ch A M1 = Inr res \<and> sr_ok res"

text \<open>How one message moves a session, for both handlers.\<close>

lemma handle_hello_challenge:
  assumes "handle_hello C sid st ticket username h c = (ex, h', c')"
    and "lg_sessions h' \<noteq> lg_sessions h"
  shows "ex = None \<and>
    (\<exists>account r reg ch.
       acc_find (lc_accounts C) (fst sid) username (lg_accounts h) = (Inr account, r) \<and>
       registration_for C account username (lg_rand h (lg_draws h)) = Inr reg \<and>
       server_begin (lc_openssl C) (lc_bn C) (lg_bn_rand h (lg_bn_draws h)) (reg_verifier reg) = Inr ch \<and>
       lg_sessions h' = (lg_sessions h)(sid \<mapsto> st\<lparr>ls_username := username,
         ls_challenge := Some ch, ls_stage := AwaitingProof\<rparr>))"
proof -
  obtain res w where t: "client_take (lc_endian C) (lc_openssl C) (lc_store_key C)
      (lc_net C (lg_world h)) ticket (lg_world h) = (res, w)" by force
  obtain fnd r where f: "acc_find (lc_accounts C) (fst sid) username (lg_accounts h) = (fnd, r)"
    by force
  from assms t f show ?thesis
    by (auto simp: handle_hello_def Let_def set_session_def split: sum.splits option.splits)
qed

lemma handle_hello_cases:
  assumes "handle_hello C sid st ticket username h c = (ex, h', c')"
  obtains (same) "lg_sessions h' = lg_sessions h"
  | (challenged) ch where "ex = None"
      "lg_sessions h' = (lg_sessions h)(sid \<mapsto> st\<lparr>ls_username := username,
         ls_challenge := Some ch, ls_stage := AwaitingProof\<rparr>)"
      "challenge_for C username ch"
proof (cases "lg_sessions h' = lg_sessions h")
  case True
  then show thesis by (rule same)
next
  case False
  from handle_hello_challenge [OF assms this] show thesis
    using challenged by (fastforce simp: challenge_for_def)
qed

lemma handle_proof_cases:
  assumes "handle_proof C sid st A M1 h c = (ex, h', c')"
  obtains (no_challenge) "ls_challenge st = None" "ex = Some Undefined" "h' = h"
  | (same) ch where "ls_challenge st = Some ch" "lg_sessions h' = lg_sessions h"
  | (accepted) ch res where "ls_challenge st = Some ch" "proof_accepted C ch A M1 res" "ex = None"
      "lg_sessions h' = (lg_sessions h)(sid \<mapsto> st\<lparr>ls_stage := Done\<rparr>)"
proof (cases "ls_challenge st")
  case None
  then show thesis using no_challenge assms by (simp add: handle_proof_def)
next
  case (Some ch)
  show thesis
  proof (cases "lg_sessions h' = lg_sessions h")
    case True
    then show thesis using same Some by blast
  next
    case False
    then obtain res where "server_verify (lc_openssl C) (lc_bn C) ch A M1 = Inr res" "sr_ok res"
        "ex = None" "lg_sessions h' = (lg_sessions h)(sid \<mapsto> st\<lparr>ls_stage := Done\<rparr>)"
      using assms Some
      by (auto simp: handle_proof_def Let_def set_session_def
          split: sum.splits if_splits prod.splits)
    then show thesis using accepted Some by (simp add: proof_accepted_def)
  qed
qed

text \<open>
  The sessions of a Login process that has been running: any messages on any sessions in any
  order, disconnections, and whatever other processes do to the store and the database.
\<close>

inductive login_reachable :: "('w, 'r) login_config \<Rightarrow> ('w, 'r) login_server \<Rightarrow> bool"
  for C where
  start: "lg_sessions h = Map.empty \<Longrightarrow> login_reachable C h"
| message: "login_reachable C h \<Longrightarrow> login_on_message C sid p h c = (ex, h', c') \<Longrightarrow>
    login_reachable C h'"
| disconnect: "login_reachable C h \<Longrightarrow> login_reachable C (login_on_disconnect sid h)"
| environment: "login_reachable C h \<Longrightarrow> login_reachable C (h\<lparr>lg_world := w, lg_accounts := r\<rparr>)"

lemma login_on_message_split:
  assumes "login_on_message C sid p h c = (ex, h', c')"
  shows "ex = None \<and> h' \<in> {h, set_session sid (session_at h sid) h} \<and> c' = session_close c \<or>
    (\<exists>d. login_decode (lc_endian C) p = Some d \<and>
      (ls_stage (session_at h sid) = AwaitingHello \<and>
         handle_hello C sid (session_at h sid) (l_ticket d) (l_username d)
           (set_session sid (session_at h sid) h) c = (ex, h', c') \<or>
       ls_stage (session_at h sid) = AwaitingProof \<and>
         handle_proof C sid (session_at h sid) (l_A d) (l_M1 d)
           (set_session sid (session_at h sid) h) c = (ex, h', c')))"
proof (cases "login_decode (lc_endian C) p")
  case None
  with assms show ?thesis by (simp add: login_on_message_def)
next
  case (Some d)
  with assms show ?thesis
    by (simp add: login_on_message_def Let_def flip: session_at_def split: if_splits)
qed

definition session_ok :: "('w, 'r) login_config \<Rightarrow> login_session \<Rightarrow> bool" where
  "session_ok C st \<longleftrightarrow>
     length (ls_username st) < 65536 \<and>
     (ls_stage st \<noteq> AwaitingHello \<longrightarrow>
        (\<exists>ch. ls_challenge st = Some ch \<and> challenge_for C (ls_username st) ch \<and>
           (ls_stage st = Done \<longrightarrow> (\<exists>A M1 res. proof_accepted C ch A M1 res))))"

lemma session_ok_new [simp]: "session_ok C new_login_session"
  by (simp add: session_ok_def new_login_session_def)

lemma login_decode_widths:
  assumes "login_decode e bs = Some d"
  shows "length (l_ticket d) < 65536 \<and> length (l_username d) < 65536"
proof -
  obtain m where "login_msg_fits m" "d = decoded_login_msg m"
    using login_decode_only_encodings [OF assms] by blast
  then show ?thesis by (cases m) (auto simp: login_decoded_init_def)
qed

lemma login_message_session:
  assumes "session_ok C (session_at h sid)" and "login_on_message C sid p h c = (ex, h', c')"
  shows "session_ok C (session_at h' sid) \<and>
    ls_stage (session_at h sid) \<le> ls_stage (session_at h' sid) \<and>
    (\<forall>sid'. sid' \<noteq> sid \<longrightarrow> session_at h' sid' = session_at h sid')"
proof (cases "login_decode (lc_endian C) p")
  case None
  with assms show ?thesis by (auto simp: login_on_message_def)
next
  case (Some d)
  let ?st = "session_at h sid" and ?h = "set_session sid (session_at h sid) h"
  consider (greet) "ls_stage ?st = AwaitingHello" and
      "handle_hello C sid ?st (l_ticket d) (l_username d) ?h c = (ex, h', c')"
    | (answer) "ls_stage ?st = AwaitingProof" and
      "handle_proof C sid ?st (l_A d) (l_M1 d) ?h c = (ex, h', c')"
    | (unmoved) "h' \<in> {h, ?h}"
    using login_on_message_split [OF assms(2)] Some by auto
  then show ?thesis
  proof cases
    case greet
    from greet(2) show ?thesis
      by (cases rule: handle_hello_cases)
        (use assms(1) greet(1) login_decode_widths [OF Some] in
          \<open>auto simp: session_ok_def session_at_def set_session_def\<close>)
  next
    case answer
    from answer(2) show ?thesis
      by (cases rule: handle_proof_cases)
        (use assms(1) answer(1) in \<open>auto simp: session_ok_def session_at_def set_session_def\<close>)
  next
    case unmoved
    with assms(1) show ?thesis by auto
  qed
qed

lemma login_message_other:
  assumes "login_on_message C sid p h c = (ex, h', c')" and "sid' \<noteq> sid"
  shows "session_at h' sid' = session_at h sid'"
proof (cases "h' \<in> {h, set_session sid (session_at h sid) h}")
  case True
  with assms(2) show ?thesis by auto
next
  case False
  then obtain t u A M1 where
    "handle_hello C sid (session_at h sid) t u (set_session sid (session_at h sid) h) c = (ex, h', c') \<or>
     handle_proof C sid (session_at h sid) A M1 (set_session sid (session_at h sid) h) c = (ex, h', c')"
    using login_on_message_split [OF assms(1)] by blast
  then show ?thesis
    using assms(2)
    by (auto simp: session_at_def set_session_def elim!: handle_hello_cases handle_proof_cases)
qed

lemma reachable_sessions_ok: "login_reachable C h \<Longrightarrow> session_ok C (session_at h sid)"
proof (induction arbitrary: sid rule: login_reachable.induct)
  case (message h sid' p c ex h' c')
  then show ?case
    using login_message_session [OF message.IH message.hyps(2)] by (metis)
qed (auto simp: session_at_def login_on_disconnect_def)

section \<open>Login and the store of Master\<close>

text \<open>The operating conditions of a Login process whose store client reaches Master's store.\<close>

definition login_connected :: "(store_server, 'r) login_config \<Rightarrow> iteration \<Rightarrow> bool" where
  "login_connected C iter \<longleftrightarrow>
     crypto_ok (lc_openssl C) (lc_store_key C) \<and>
     lc_net C = (\<lambda>_. loopback (lc_endian C) (lc_openssl C) (lc_store_key C) iter) \<and>
     0 \<le> lc_session_ttl C \<and> lc_session_ttl C < 4294967296"

lemma live_take_le:
  "live t (snd (store_take key now s)) k = Some v \<Longrightarrow> live t s k = Some v"
  by (auto simp: store_take_def live_def delete_conv' split: option.splits if_splits)

text \<open>A call of \<open>take\<close>, for a key of any length, and what a value it returns is.\<close>

lemma client_take_effect:
  assumes "crypto_ok E hk" and "values_ok (sv_store sv)" and "length key < 65536"
    and "client_take e E hk (loopback e E hk iter) key sv = (res, sv')"
  shows "sv_store sv' = sv_store sv \<or> sv_store sv' = snd (store_take key (sv_now sv) (sv_store sv))"
    and "res = Inr (Some v) \<Longrightarrow> live (sv_now sv) (sv_store sv) key = Some v"
proof -
  have "(sv_store sv' = sv_store sv \<or> sv_store sv' = snd (store_take key (sv_now sv) (sv_store sv))) \<and>
      (res = Inr (Some v) \<longrightarrow> live (sv_now sv) (sv_store sv) key = Some v)"
  proof (cases "rpc_key_ok key")
    case True
    then show ?thesis
      using client_take_loopback [OF assms(1) True, of sv e iter] live_value_ok [OF assms(2)] assms(4)
      by auto
  next
    case False
    then show ?thesis
      using client_take_oversize [OF assms(1) False assms(3), of e iter sv] assms(4) by auto
  qed
  then show "sv_store sv' = sv_store sv \<or> sv_store sv' = snd (store_take key (sv_now sv) (sv_store sv))"
    and "res = Inr (Some v) \<Longrightarrow> live (sv_now sv) (sv_store sv) key = Some v" by blast+
qed

lemma client_put_effect:
  assumes "crypto_ok E hk" and "length key + length val < 1000000" and "0 \<le> ttl" "ttl < 4294967296"
    and "client_put e E hk (loopback e E hk iter) key val ttl sv = (res, sv')"
  shows "sv_store sv' = sv_store sv \<or>
    44 + length key + length val \<le> 4096 \<and>
    sv_store sv' = store_put key val ttl (sv_now sv) (sv_store sv)"
proof (cases "rpc_put_ok key val ttl")
  case True
  then show ?thesis using client_put_loopback [OF assms(1) True, of e iter sv] assms(5) by (simp add: rpc_put_ok_def)
next
  case False
  then show ?thesis
    using client_put_oversize [OF assms(1) _ assms(2), of e iter ttl sv] assms(3-5)
    by (auto simp: rpc_put_ok_def)
qed

lemma list_worlds_same:
  assumes "crypto_ok E hk" and "list_worlds e E hk (loopback e E hk iter) sv = (res, sv')"
  shows "sv_store sv' = sv_store sv"
proof -
  have "rpc_key_ok kWorldPrefix" by (simp add: rpc_key_ok_def kWorldPrefix_def)
  note same = client_list_prefix_same [OF assms(1) this, of e iter sv _ sv']
  show ?thesis
    using assms(2) by (auto simp: list_worlds_def dest!: same split: prod.splits)
qed

text \<open>What the two handlers do to the store.\<close>

lemma handle_hello_effect:
  assumes "login_connected C iter" and "values_ok (sv_store (lg_world h))"
    and "length ticket < 65536"
    and "handle_hello C sid st ticket username h c = (ex, h', c')"
  shows "sv_store (lg_world h') = sv_store (lg_world h) \<or>
    sv_store (lg_world h') = snd (store_take ticket (sv_now (lg_world h)) (sv_store (lg_world h)))"
proof -
  obtain res w where take: "client_take (lc_endian C) (lc_openssl C) (lc_store_key C)
      (lc_net C (lg_world h)) ticket (lg_world h) = (res, w)" by force
  then have "lg_world h' = w"
    using assms(4)
    by (auto simp: handle_hello_def Let_def set_session_def
        split: sum.splits option.splits prod.splits)
  then show ?thesis
    using client_take_effect(1) [of "lc_openssl C" "lc_store_key C" "lg_world h" ticket
        "lc_endian C" iter res w] take assms(1-3)
    by (simp add: login_connected_def)
qed

lemma handle_proof_effect:
  assumes "login_connected C iter" and "length (ls_username st) < 65536"
    and "handle_proof C sid st A M1 h c = (ex, h', c')"
    and changed: "sv_store (lg_world h') \<noteq> sv_store (lg_world h)"
  shows "\<exists>ch res token. ls_challenge st = Some ch \<and> proof_accepted C ch A M1 res \<and>
    generate_token_hex (lg_rand h (lg_draws h)) = Inr token \<and>
    44 + length token + length (ls_username st) \<le> 4096 \<and>
    sv_store (lg_world h') = store_put token (bytes_of (ls_username st)) (lc_session_ttl C)
      (sv_now (lg_world h)) (sv_store (lg_world h))"
proof -
  from changed have "lg_world h' \<noteq> lg_world h" by auto
  then obtain ch res token put w where acc: "ls_challenge st = Some ch" "proof_accepted C ch A M1 res"
      and token: "generate_token_hex (lg_rand h (lg_draws h)) = Inr token"
      and put: "client_put (lc_endian C) (lc_openssl C) (lc_store_key C) (lc_net C (lg_world h)) token
        (bytes_of (ls_username st)) (lc_session_ttl C) (lg_world h) = (put, w)"
      and h': "lg_world h' = w \<or> (\<exists>ws. list_worlds (lc_endian C) (lc_openssl C) (lc_store_key C)
        (lc_net C w) w = (ws, lg_world h'))"
    using assms(3)
    by (auto simp: handle_proof_def Let_def set_session_def proof_accepted_def
        split: sum.splits option.splits prod.splits if_splits)
  have "length token = 32"
    using token by (auto simp: generate_token_hex_def random_bytes_def length_to_hex
        split: option.splits)
  then have "sv_store w = sv_store (lg_world h) \<or>
      44 + length token + length (ls_username st) \<le> 4096 \<and>
      sv_store w = store_put token (bytes_of (ls_username st)) (lc_session_ttl C)
        (sv_now (lg_world h)) (sv_store (lg_world h))"
    using assms(1,2) put client_put_effect [of "lc_openssl C" "lc_store_key C" token
        "bytes_of (ls_username st)" "lc_session_ttl C" "lc_endian C" iter "lg_world h" put w]
    by (simp add: login_connected_def)
  moreover have "sv_store (lg_world h') = sv_store w"
    using h' list_worlds_same assms(1) by (auto simp: login_connected_def)
  ultimately show ?thesis
    using acc token changed by auto
qed

lemma login_store_effect:
  assumes "login_connected C iter" and "values_ok (sv_store (lg_world h))"
    and "length (ls_username (session_at h sid)) < 65536"
    and "login_on_message C sid p h c = (ex, h', c')"
  shows "sv_store (lg_world h') = sv_store (lg_world h) \<or>
    (\<exists>key. sv_store (lg_world h') = snd (store_take key (sv_now (lg_world h)) (sv_store (lg_world h)))) \<or>
    ls_stage (session_at h sid) = AwaitingProof \<and>
    (\<exists>d ch res token. login_decode (lc_endian C) p = Some d \<and> ls_challenge (session_at h sid) = Some ch \<and>
       proof_accepted C ch (l_A d) (l_M1 d) res \<and>
       generate_token_hex (lg_rand h (lg_draws h)) = Inr token \<and>
       44 + length token + length (ls_username (session_at h sid)) \<le> 4096 \<and>
       sv_store (lg_world h') = store_put token (bytes_of (ls_username (session_at h sid)))
         (lc_session_ttl C) (sv_now (lg_world h)) (sv_store (lg_world h)))"
proof (cases "sv_store (lg_world h') = sv_store (lg_world h)")
  case False
  let ?st = "session_at h sid" and ?h = "set_session sid (session_at h sid) h"
  have world: "lg_world ?h = lg_world h" "lg_rand ?h = lg_rand h" "lg_draws ?h = lg_draws h"
    by (simp_all add: set_session_def)
  from False obtain d where d: "login_decode (lc_endian C) p = Some d" and
    "ls_stage ?st = AwaitingHello \<and>
       handle_hello C sid ?st (l_ticket d) (l_username d) ?h c = (ex, h', c') \<or>
     ls_stage ?st = AwaitingProof \<and> handle_proof C sid ?st (l_A d) (l_M1 d) ?h c = (ex, h', c')"
    using login_on_message_split [OF assms(4)] world by auto
  then consider
      (greet) "handle_hello C sid ?st (l_ticket d) (l_username d) ?h c = (ex, h', c')"
    | (answer) "ls_stage ?st = AwaitingProof" "handle_proof C sid ?st (l_A d) (l_M1 d) ?h c = (ex, h', c')"
    by blast
  then show ?thesis
  proof cases
    case greet
    with handle_hello_effect [OF assms(1) _ _ greet] login_decode_widths [OF d] assms(2) False world
    show ?thesis by auto
  next
    case answer
    with handle_proof_effect [OF assms(1,3) answer(2)] False world d show ?thesis by auto
  qed
qed simp

lemma login_store_core:
  assumes "login_connected C iter" and "login_reachable C h"
    and "values_ok (sv_store (lg_world h))"
    and "login_on_message C sid p h c = (ex, h', c')"
    and "live t (sv_store (lg_world h')) k = Some v" "live t (sv_store (lg_world h)) k \<noteq> Some v"
  shows "v = bytes_of (ls_username (session_at h sid)) \<and>
    ls_stage (session_at h sid) = AwaitingProof \<and>
    (\<exists>d ch res. login_decode (lc_endian C) p = Some d \<and> ls_challenge (session_at h sid) = Some ch \<and>
       challenge_for C (ls_username (session_at h sid)) ch \<and>
       proof_accepted C ch (l_A d) (l_M1 d) res)"
proof -
  have ok: "session_ok C (session_at h sid)" using reachable_sessions_ok assms(2) by blast
  then have "length (ls_username (session_at h sid)) < 65536" by (simp add: session_ok_def)
  from login_store_effect [OF assms(1,3) this assms(4)]
  consider (same) "sv_store (lg_world h') = sv_store (lg_world h)"
    | (taken) key where
      "sv_store (lg_world h') = snd (store_take key (sv_now (lg_world h)) (sv_store (lg_world h)))"
    | (put) d ch res token where "ls_stage (session_at h sid) = AwaitingProof"
      "login_decode (lc_endian C) p = Some d" "ls_challenge (session_at h sid) = Some ch"
      "proof_accepted C ch (l_A d) (l_M1 d) res"
      "sv_store (lg_world h') = store_put token (bytes_of (ls_username (session_at h sid)))
         (lc_session_ttl C) (sv_now (lg_world h)) (sv_store (lg_world h))"
    by blast
  then show ?thesis
  proof cases
    case same
    with assms(5,6) show ?thesis by simp
  next
    case taken
    with assms(5,6) live_take_le show ?thesis by metis
  next
    case put
    have "v = bytes_of (ls_username (session_at h sid))"
      using assms(5,6) by (auto simp: put(5) live_put split: if_splits)
    with put(1-4) ok show ?thesis by (auto simp: session_ok_def)
  qed
qed

section \<open>No step is undefined\<close>

lemma defined_crypto:
  "defined (hmac_sha256 E key data)" "defined (sha256 E data)" "defined (bn_from_hex L hex)"
  "defined (bn_from_bytes L bs)" "defined (bn_to_bytes L n len)" "defined (generate_token_hex rnd)"
  by (simp_all add: hmac_sha256_def sha256_def bn_from_hex_def bn_from_bytes_def bn_to_bytes_def
      generate_token_hex_def random_bytes_def split: option.split)

lemma defined_srp:
  "defined (compute_verifier_with_salt E L u pw salt)" "defined (server_begin E L rand v)"
  "defined (server_verify E L ch A M1)"
proof -
  have d: "defined (compute_x E L salt u pw)" "defined (compute_k E L N g)"
    "defined (compute_u E L A B)" "defined (compute_M1 E A B K)" "defined (compute_M2 E A B K)"
    for salt u pw N g A B K
    unfolding compute_x_def compute_k_def compute_u_def compute_M1_def compute_M2_def
    by (intro defined_bind defined_crypto)+
  show "defined (compute_verifier_with_salt E L u pw salt)"
    unfolding compute_verifier_with_salt_def by (intro defined_bind defined_crypto d) simp
  show "defined (server_begin E L rand v)"
    unfolding server_begin_def Let_def by (intro defined_bind defined_crypto d) simp
  have "defined (if b then x else y) \<longleftrightarrow> (if b then defined x else defined y)"
    for b and x y :: "'z result" by simp
  then show "defined (server_verify E L ch A M1)"
    unfolding server_verify_def Let_def
    by (auto intro!: defined_bind defined_crypto d)
qed

lemma defined_roundtrip: "defined (fst (roundtrip e E hk net req w))"
proof -
  have "defined (decode_and_verify e E hk msg)" for msg
    unfolding decode_and_verify_def Let_def by (auto intro!: defined_bind defined_crypto)
  then show ?thesis
    by (auto simp: roundtrip_def Let_def split: write_outcome.split prod.split option.split)
qed

lemma defined_client:
  "defined (fst (client_take e E hk net key w))"
  "defined (fst (client_put e E hk net key val ttl w))"
  "defined (fst (client_list_prefix e E hk net prefix w))"
  "defined (fst (list_worlds e E hk net w))"
proof -
  have s: "defined (sign_and_take E hk ops)" for ops
    unfolding sign_and_take_def Let_def by (intro defined_bind defined_crypto) simp
  have r: "roundtrip e E hk net req w = (r, w') \<Longrightarrow> defined r" for req r w'
    using defined_roundtrip by (metis fst_conv)
  have b: "defined x \<Longrightarrow> defined (bind_result x (\<lambda>y. Inr (f y)))"
    for x :: "'z result" and f :: "'z \<Rightarrow> 'y" by (intro defined_bind) simp_all
  have g: "defined (encode_get_or_take e E op hk key)" "defined (encode_put e E hk key val ttl')" for op key ttl'
    unfolding encode_get_or_take_def encode_put_def by (rule s)+
  show "defined (fst (client_take e E hk net key w))"
    using g(1) [of Op_Take key] by (auto simp: client_take_def get_or_take_def defined_def [of "Inl _"]
      intro!: b r split: sum.split prod.split)
  show "defined (fst (client_put e E hk net key val ttl w))"
    using g(2) [of key "word_of_int ttl"] by (auto simp: client_put_def defined_def [of "Inl _"]
      intro!: b r split: sum.split prod.split)
  have l: "defined (fst (client_list_prefix e E hk net key w))" for key
    using g(1) [of Op_ListPrefix key]
    by (auto simp: client_list_prefix_def encode_list_prefix_def defined_def [of "Inl _"]
      intro!: b r split: sum.split prod.split)
  then show "defined (fst (client_list_prefix e E hk net prefix w))" .
  from l [of kWorldPrefix] show "defined (fst (list_worlds e E hk net w))"
    by (auto simp: list_worlds_def intro!: b split: prod.split)
qed

lemma defined_registration: "defined (registration_for C a u rnd)"
  by (auto simp: registration_for_def fake_salt_for_def split: option.split
      intro!: defined_bind defined_crypto defined_srp)

lemma login_defined_core:
  assumes "login_reachable C h" and "login_on_message C sid p h c = (ex, h', c')"
  shows "ex \<noteq> Some Undefined"
proof
  assume ex: "ex = Some Undefined"
  let ?st = "session_at h sid" and ?h = "set_session sid (session_at h sid) h"
  have d: "client_take e E hk net key w = (Inl x, w') \<Longrightarrow> x \<noteq> Undefined"
    "client_put e E hk net key val ttl w = (Inl x, w') \<Longrightarrow> x \<noteq> Undefined"
    "list_worlds e E hk net w = (Inl x, w') \<Longrightarrow> x \<noteq> Undefined"
    for e E hk and net :: "'a network" and key val ttl w x w'
    using defined_client by (metis defined_def fst_conv)+
  have srp: "server_verify E L ch A M1 = Inl x \<Longrightarrow> x \<noteq> Undefined"
    "server_begin E L rand v = Inl x \<Longrightarrow> x \<noteq> Undefined"
    "generate_token_hex rnd = Inl x \<Longrightarrow> x \<noteq> Undefined"
    for E L ch A M1 rand v rnd x
    using defined_srp(2,3) defined_crypto(6) by (metis defined_def)+
  have reg: "registration_for C a u rnd = Inl x \<Longrightarrow> x \<noteq> Undefined" for a u rnd x
    using defined_registration [of C a u rnd] by (auto simp: defined_def)
  have "handle_hello C sid st t u h0 c \<noteq> (Some Undefined, h', c')" for st t u h0
    by (auto simp: handle_hello_def Let_def dest: d srp reg split: sum.split option.split prod.split)
  moreover have "handle_proof C sid ?st A M1 h0 c \<noteq> (Some Undefined, h', c')"
    if "ls_stage ?st = AwaitingProof" for A M1 h0
    using that reachable_sessions_ok [OF assms(1), of sid]
    by (auto simp: handle_proof_def Let_def session_ok_def dest: d srp
        split: sum.split option.split prod.split)
  ultimately show False
    using login_on_message_split [OF assms(2)] ex by auto
qed

section \<open>A login that succeeds\<close>

definition quiet :: "conn \<Rightarrow> bool" where
  "quiet c \<longleftrightarrow> conn_open c \<and> write_outcomes c = []"

lemma quiet_send:
  "quiet c \<Longrightarrow> session_send e p c = c\<lparr>sent := sent c @ frame e p\<rparr>"
  "quiet c \<Longrightarrow> quiet (c\<lparr>sent := x\<rparr>)"
  by (simp_all add: quiet_def session_send_def)

lemma hello_core:
  assumes C: "login_connected C iter" and h: "session_at h sid = new_login_session"
    and ticket: "rpc_key_ok ticket" "values_ok (sv_store (lg_world h))"
      "live (sv_now (lg_world h)) (sv_store (lg_world h)) ticket \<noteq> None"
    and user: "length user < 65536"
    and acc: "acc_find (lc_accounts C) (fst sid) user (lg_accounts h) = (Inr account, r)"
    and reg: "registration_for C account user (lg_rand h (lg_draws h)) = Inr reg"
    and ch: "server_begin (lc_openssl C) (lc_bn C) (lg_bn_rand h (lg_bn_draws h)) (reg_verifier reg) = Inr ch"
    and c: "quiet c"
    and step: "login_on_message C sid (encode_client_hello (lc_endian C) ticket user) h c = (ex, h', c')"
  shows "ex = None \<and>
    session_at h' sid = \<lparr>ls_stage = AwaitingProof, ls_username = user, ls_challenge = Some ch\<rparr> \<and>
    c' = c\<lparr>sent := sent c @ frame (lc_endian C)
      (encode_server_challenge (lc_endian C) (reg_salt reg) (ch_B_bytes ch))\<rparr> \<and>
    lg_world h' = sv_tick 1 ((lg_world h)\<lparr>sv_store :=
      snd (store_take ticket (sv_now (lg_world h)) (sv_store (lg_world h)))\<rparr>) \<and>
    lg_rand h' = lg_rand h \<and>
    lg_draws h' = (if account = None then Suc (lg_draws h) else lg_draws h)"
proof -
  let ?sv = "lg_world h"
  let ?sv' = "sv_tick 1 (?sv\<lparr>sv_store := snd (store_take ticket (sv_now ?sv) (sv_store ?sv))\<rparr>)"
  obtain v where v: "live (sv_now ?sv) (sv_store ?sv) ticket = Some v" using ticket(3) by auto
  have "client_take (lc_endian C) (lc_openssl C) (lc_store_key C) (lc_net C ?sv) ticket ?sv = (Inr (Some v), ?sv')"
    using client_take_loopback [of "lc_openssl C" "lc_store_key C" ticket ?sv] C ticket live_value_ok v
    by (auto simp: login_connected_def)
  moreover have "login_decode (lc_endian C) (encode_client_hello (lc_endian C) ticket user) =
      Some (decoded_login_msg (MHello ticket user))"
    using login_decode_encode [of "MHello ticket user" "lc_endian C" "[]"] ticket(1) user
    by (simp add: rpc_key_ok_def)
  moreover have "lg_world (set_session sid st h) = lg_world h"
      "lg_accounts (set_session sid st h) = lg_accounts h"
      "lg_bn_rand (set_session sid st h) = lg_bn_rand h"
      "lg_bn_draws (set_session sid st h) = lg_bn_draws h"
      "lg_rand (set_session sid st h) = lg_rand h" "lg_draws (set_session sid st h) = lg_draws h" for st
    by (simp_all add: set_session_def)
  moreover have "(case lg_sessions h sid of None \<Rightarrow> new_login_session | Some st \<Rightarrow> st) = new_login_session"
    using h by (simp add: session_at_def)
  ultimately show ?thesis
    using step acc reg ch c
    by (simp add: login_on_message_def handle_hello_def login_decoded_init_def
        quiet_send Let_def new_login_session_def) (auto simp: set_session_def session_at_def)
qed

text \<open>The listing of the World entries right after the token was put.\<close>

definition after_token :: "(store_server, 'r) login_config \<Rightarrow> string \<Rightarrow> string \<Rightarrow> store_server
    \<Rightarrow> store_server" where
  "after_token C token user sv =
     sv_tick 1 (sv\<lparr>sv_store :=
       store_put token (bytes_of user) (lc_session_ttl C) (sv_now sv) (sv_store sv)\<rparr>)"

definition world_listing :: "iteration \<Rightarrow> store_server \<Rightarrow> store_list_entry list" where
  "world_listing iter sv =
     store_list_prefix iter (\<lambda>j. sv_clock sv (sv_ticks sv + j)) kWorldPrefix (sv_store sv)"

definition worlds_of :: "endian \<Rightarrow> store_list_entry list \<Rightarrow> world_entry list" where
  "worlds_of e es = map world_entry_of (List.map_filter (\<lambda>(k, v). decode_world e v) es)"

definition listing_fits :: "store_list_entry list \<Rightarrow> bool" where
  "listing_fits es \<longleftrightarrow> list_fits es \<and> list_bytes es \<le> kMaxResponseBytes"

lemma proof_core:
  assumes C: "login_connected C iter"
    and st: "session_at h sid = \<lparr>ls_stage = AwaitingProof, ls_username = user, ls_challenge = Some ch\<rparr>"
    and acc: "proof_accepted C ch A M1 res" "length A < 4294967296" "length M1 = 32"
    and rnd: "lg_rand h (lg_draws h) = Some rnd" "length rnd = 16"
    and fits: "rpc_put_ok (to_hex rnd) (bytes_of user) (lc_session_ttl C)"
      "listing_fits (world_listing iter (after_token C (to_hex rnd) user (lg_world h)))"
    and c: "quiet c"
    and step: "login_on_message C sid (encode_client_proof (lc_endian C) A M1) h c = (ex, h', c')"
  shows "ex = None \<and> ls_stage (session_at h' sid) = Done \<and>
    sent c' = sent c @ frame (lc_endian C) (encode_server_proof (lc_endian C) (sr_M2 res) (to_hex rnd)) @
      frame (lc_endian C) (encode_world_list (lc_endian C) (worlds_of (lc_endian C)
        (world_listing iter (after_token C (to_hex rnd) user (lg_world h))))) \<and>
    live t (sv_store (lg_world h')) = (live t (sv_store (lg_world h)))
      (to_hex rnd := if t < sv_now (lg_world h) + lc_session_ttl C * ns_per_second
                     then Some (bytes_of user) else None) \<and>
    sv_clock (lg_world h') = sv_clock (lg_world h)"
proof -
  let ?sv1 = "after_token C (to_hex rnd) user (lg_world h)"
  let ?sv2 = "sv_tick (store_size (sv_store ?sv1)) ?sv1"
  have crypto: "crypto_ok (lc_openssl C) (lc_store_key C)"
      and net: "lc_net C = (\<lambda>_. loopback (lc_endian C) (lc_openssl C) (lc_store_key C) iter)"
    using C by (simp_all add: login_connected_def)
  have put: "client_put (lc_endian C) (lc_openssl C) (lc_store_key C) (lc_net C (lg_world h))
      (to_hex rnd) (bytes_of user) (lc_session_ttl C) (lg_world h) = (Inr True, ?sv1)"
    using client_put_loopback [OF crypto fits(1)] by (simp add: net after_token_def)
  have list: "list_worlds (lc_endian C) (lc_openssl C) (lc_store_key C) (lc_net C ?sv1) ?sv1 =
      (Inr (List.map_filter (\<lambda>(k, v). decode_world (lc_endian C) v) (world_listing iter ?sv1)), ?sv2)"
    using list_worlds_loopback [OF crypto world_listing_def [of iter ?sv1]] fits(2)
    by (simp add: net listing_fits_def)
  have dec: "login_decode (lc_endian C) (encode_client_proof (lc_endian C) A M1) =
      Some (decoded_login_msg (MProof A M1))"
    using login_decode_encode [of "MProof A M1" "lc_endian C" "[]"] acc by simp
  have tok: "generate_token_hex (lg_rand h (lg_draws h)) = Inr (to_hex rnd)"
    by (simp add: rnd generate_token_hex_def random_bytes_def)
  have set: "lg_world (set_session sid st h) = lg_world h"
      "lg_rand (set_session sid st h) = lg_rand h" "lg_draws (set_session sid st h) = lg_draws h" for st
    by (simp_all add: set_session_def)
  have "live t (sv_store ?sv2) = (live t (sv_store (lg_world h)))
      (to_hex rnd := if t < sv_now (lg_world h) + lc_session_ttl C * ns_per_second
                     then Some (bytes_of user) else None)"
    by (simp add: after_token_def live_put)
  moreover have "ex = None" "ls_stage (session_at h' sid) = Done" "lg_world h' = ?sv2"
    "sent c' = sent c @ frame (lc_endian C) (encode_server_proof (lc_endian C) (sr_M2 res) (to_hex rnd)) @
      frame (lc_endian C) (encode_world_list (lc_endian C) (worlds_of (lc_endian C)
        (world_listing iter ?sv1)))"
    using step acc(1) c
    by (auto simp: login_on_message_def dec login_decoded_init_def session_at_def [symmetric] st set
        handle_proof_def proof_accepted_def tok put list quiet_send worlds_of_def)
      (auto simp: set_session_def session_at_def)
  moreover have "sv_clock ?sv2 = sv_clock (lg_world h)" by (simp add: after_token_def sv_tick_def)
  ultimately show ?thesis by simp
qed

section \<open>Unknown usernames\<close>

lemma fake_salt_length: "fake_salt_for E key user = Inr salt \<Longrightarrow> length salt = 16"
  by (auto simp: fake_salt_for_def result_simps kHmacSize_def dest!: length_hmac)

lemma B_length:
  "bn_documented L \<Longrightarrow> server_begin E L rand v = Inr ch \<Longrightarrow> length (ch_B_bytes ch) = 256"
  using server_begin_closed [of L E rand v ch] by (auto simp: kNBytes_def)

lemma fake_registration:
  "registration_for C None user rnd = Inr reg \<Longrightarrow>
     fake_salt_for (lc_openssl C) (lc_enum_key C) user = Inr (reg_salt reg)"
  by (auto simp: registration_for_def result_simps compute_verifier_with_salt_def)

lemma fake_registration_available:
  assumes "bn_documented (lc_bn C)" and "sha256_available (lc_openssl C)"
    and "hmac_available (lc_openssl C) (lc_enum_key C)"
  shows "\<exists>reg. registration_for C None user (Some rnd) = Inr reg"
proof -
  obtain mac where "hmac_sha256 (lc_openssl C) (lc_enum_key C)
      (bytes_of (''srp6-fake-salt:'' @ user)) = Inr mac"
    by (rule hmac_availableE [OF assms(3)])
  then have salt: "fake_salt_for (lc_openssl C) (lc_enum_key C) user = Inr (take 16 mac)"
    unfolding fake_salt_for_def by (simp only: bind_result_Inr)
  obtain d where d: "sha256 (lc_openssl C) (bytes_of (user @ '':'' @ to_hex (fill_buffer 16 rnd))) = Inr d"
    by (rule sha256_availableE [OF assms(2)])
  obtain d' where d': "sha256 (lc_openssl C) (concat [take 16 mac, d]) = Inr d'"
    by (rule sha256_availableE [OF assms(2)])
  have "compute_x (lc_openssl C) (lc_bn C) (take 16 mac) user (to_hex (fill_buffer 16 rnd)) = Inr (be_num d')"
    by (simp only: compute_x_def d d' bind_result_Inr bn_rules(2) [OF assms(1)])
  then show ?thesis
    by (simp add: registration_for_def generate_token_hex_def random_bytes_def salt
        compute_verifier_with_salt_def bn_rules [OF assms(1)] group_args_fit)
qed

text \<open>
  A hello with a live ticket is answered in one form, whether the username has an account made by
  the registration tool (a salt of 16 bytes) or none: the salt of the account, or the deterministic
  one, and the same number of bytes.
\<close>

lemma length_server_challenge:
  "length (encode_server_challenge e salt B) = 8 + length salt + length B"
  by (simp add: encode_server_challenge_def wire_simps)

lemma same_form_core:
  assumes C: "login_connected C iter" and lib: "bn_documented (lc_bn C)" "sha256_available (lc_openssl C)"
      "hmac_available (lc_openssl C) (lc_enum_key C)"
    and h: "session_at h sid = new_login_session"
    and ticket: "rpc_key_ok ticket" "values_ok (sv_store (lg_world h))"
      "live (sv_now (lg_world h)) (sv_store (lg_world h)) ticket \<noteq> None"
    and user: "length user < 65536"
    and acc: "acc_find (lc_accounts C) (fst sid) user (lg_accounts h) = (Inr account, r)"
    and salted: "\<And>a. account = Some a \<Longrightarrow> length (ac_salt a) = 16"
    and rnd: "lg_rand h (lg_draws h) = Some rnd"
    and c: "quiet c"
    and step: "login_on_message C sid (encode_client_hello (lc_endian C) ticket user) h c = (ex, h', c')"
  shows "\<exists>salt B. (case account of None \<Rightarrow> fake_salt_for (lc_openssl C) (lc_enum_key C) user = Inr salt
      | Some a \<Rightarrow> salt = ac_salt a) \<and>
    length salt = 16 \<and> length B = 256 \<and> ex = None \<and>
    ls_stage (session_at h' sid) = AwaitingProof \<and>
    sent c' = sent c @ frame (lc_endian C) (encode_server_challenge (lc_endian C) salt B) \<and>
    length (sent c') = length (sent c) + 284"
proof -
  have "\<exists>reg. registration_for C account user (lg_rand h (lg_draws h)) = Inr reg"
    using fake_registration_available [OF lib] rnd
    by (cases account) (auto simp: registration_for_def)
  then obtain reg where reg: "registration_for C account user (lg_rand h (lg_draws h)) = Inr reg" ..
  obtain ch where ch: "server_begin (lc_openssl C) (lc_bn C) (lg_bn_rand h (lg_bn_draws h))
      (reg_verifier reg) = Inr ch"
    using server_begin_available [OF lib(1,2)] by blast
  have salt: "(case account of None \<Rightarrow> fake_salt_for (lc_openssl C) (lc_enum_key C) user = Inr (reg_salt reg)
      | Some a \<Rightarrow> reg_salt reg = ac_salt a) \<and> length (reg_salt reg) = 16"
  proof (cases account)
    case None
    then have "fake_salt_for (lc_openssl C) (lc_enum_key C) user = Inr (reg_salt reg)"
      using reg by (intro fake_registration) simp
    from this fake_salt_length [OF this] show ?thesis by (simp add: None)
  next
    case (Some a)
    with reg salted show ?thesis by (auto simp: registration_for_def)
  qed
  show ?thesis
    using hello_core [OF C h ticket user acc reg ch c step] salt B_length [OF lib(1) ch]
    by (intro exI [of _ "reg_salt reg"] exI [of _ "ch_B_bytes ch"]) (simp add: length_server_challenge)
qed

end
