(* ===== verification/Channel_Table.thy ===== *)
theory Channel_Table
  imports World_Handler
begin

text \<open>
  The table of a channel, \<open>handlers()\<close> of \<open>include/net/channel.hpp\<close>: a static variable of a
  function, which the first thread that gets there initialises while the others wait. The rules
  \<open>first\<close> and \<open>look_up\<close> are that guarantee of the language ([stmt.dcl]); what is shown is what
  follows from it for the dispatch of any thread, in whatever order the threads of World reach the
  table: a packet is dispatched by the whole table, and no thread waits for it for ever.
\<close>

section \<open>State and steps\<close>

text \<open>The static variable, and where a thread is: in \<open>handlers()\<close> for a packet, or elsewhere.\<close>

datatype 'f static_table = Unbuilt | Built_By nat "(u16 \<times> 'f) list" | Ready "(u16 \<times> 'f) list"

datatype channel_pc = Elsewhere | At_Handlers u16 bytes

record 'f channel_state =
  cs_table :: "'f static_table"
  cs_threads :: "nat \<Rightarrow> channel_pc"

text \<open>\<open>Looked_Up t opcode body f\<close>: thread \<open>t\<close> finds \<open>f\<close> in the table for its packet.\<close>

datatype 'f channel_event = Build_Started nat | Looked_Up nat u16 bytes "'f option"

inductive channel_step :: "(u16 \<times> 'f) list \<Rightarrow> 'f channel_state \<Rightarrow> 'f channel_event list
    \<Rightarrow> 'f channel_state \<Rightarrow> bool"
  for tbl where
  packet: "cs_threads s t = Elsewhere \<Longrightarrow> channel_step tbl s []
     (s\<lparr>cs_threads := (cs_threads s)(t := At_Handlers opcode body)\<rparr>)"
| first: "\<lbrakk>cs_table s = Unbuilt; cs_threads s t = At_Handlers opcode body\<rbrakk> \<Longrightarrow>
     channel_step tbl s [Build_Started t] (s\<lparr>cs_table := Built_By t []\<rparr>)"
| insert: "\<lbrakk>cs_table s = Built_By t sofar; tbl = sofar @ x # rest\<rbrakk> \<Longrightarrow>
     channel_step tbl s [] (s\<lparr>cs_table := Built_By t (sofar @ [x])\<rparr>)"
| built: "cs_table s = Built_By t tbl \<Longrightarrow>
     channel_step tbl s [] (s\<lparr>cs_table := Ready tbl\<rparr>)"
| look_up: "\<lbrakk>cs_table s = Ready m; cs_threads s t = At_Handlers opcode body\<rbrakk> \<Longrightarrow>
     channel_step tbl s [Looked_Up t opcode body (map_of m opcode)]
       (s\<lparr>cs_threads := (cs_threads s)(t := Elsewhere)\<rparr>)"

inductive channel_run :: "(u16 \<times> 'f) list \<Rightarrow> 'f channel_state \<Rightarrow> 'f channel_event list
    \<Rightarrow> 'f channel_state \<Rightarrow> bool"
  for tbl s where
  here: "channel_run tbl s [] s"
| step: "\<lbrakk>channel_run tbl s log s'; channel_step tbl s' evs s''\<rbrakk> \<Longrightarrow>
     channel_run tbl s (log @ evs) s''"

definition channel_start :: "'f channel_state" where
  "channel_start = \<lparr> cs_table = Unbuilt, cs_threads = (\<lambda>_. Elsewhere) \<rparr>"

section \<open>Built once\<close>

fun build_started :: "'f channel_event \<Rightarrow> bool" where
  "build_started (Build_Started t) \<longleftrightarrow> True"
| "build_started (Looked_Up t opcode body f) \<longleftrightarrow> False"

definition builds :: "'f channel_event list \<Rightarrow> nat" where
  "builds log = length (filter build_started log)"

text \<open>How many builds have started, what is built is a beginning of the table, and the thread that
  builds it is in \<open>handlers()\<close>.\<close>

definition channel_inv :: "(u16 \<times> 'f) list \<Rightarrow> 'f channel_event list \<Rightarrow> 'f channel_state \<Rightarrow> bool" where
  "channel_inv tbl log s \<longleftrightarrow>
     (case cs_table s of
        Unbuilt \<Rightarrow> builds log = 0
      | Built_By t sofar \<Rightarrow> builds log = 1 \<and> (\<exists>rest. tbl = sofar @ rest) \<and>
          cs_threads s t \<noteq> Elsewhere
      | Ready m \<Rightarrow> builds log = 1 \<and> m = tbl) \<and>
     (\<forall>t opcode body f. Looked_Up t opcode body f \<in> set log \<longrightarrow> f = map_of tbl opcode)"

lemma channel_inv_step:
  assumes "channel_inv tbl log s" and "channel_step tbl s evs s'"
  shows "channel_inv tbl (log @ evs) s'"
  using assms(2,1)
  by cases (auto simp: channel_inv_def builds_def split: static_table.splits)

lemma channel_run_inv: "channel_run tbl channel_start log s \<Longrightarrow> channel_inv tbl log s"
proof (induction rule: channel_run.induct)
  case here
  then show ?case by (simp add: channel_inv_def channel_start_def builds_def)
next
  case (step log s' evs s'')
  then show ?case using channel_inv_step by blast
qed

lemma channel_once_core:
  assumes "channel_run tbl channel_start log s"
  shows "builds log \<le> 1 \<and>
    (\<forall>t opcode body f. Looked_Up t opcode body f \<in> set log \<longrightarrow> f = map_of tbl opcode)"
  using channel_run_inv [OF assms] by (auto simp: channel_inv_def split: static_table.splits)

section \<open>No thread waits for ever\<close>

lemma channel_run_trans:
  "channel_run tbl s2 log2 s3 \<Longrightarrow> channel_run tbl s1 log1 s2 \<Longrightarrow> channel_run tbl s1 (log1 @ log2) s3"
  by (induction rule: channel_run.induct) (auto simp flip: append_assoc intro: channel_run.step)

lemma channel_step_run: "channel_step tbl s evs s' \<Longrightarrow> channel_run tbl s evs s'"
  using channel_run.step [OF channel_run.here] by fastforce

lemma build_completes:
  "cs_table s = Built_By t sofar \<Longrightarrow> tbl = sofar @ rest \<Longrightarrow>
     \<exists>log. channel_run tbl s log (s\<lparr>cs_table := Ready tbl\<rparr>)"
proof (induction rest arbitrary: sofar s)
  case Nil
  then show ?case using channel_step_run [OF channel_step.built] by fastforce
next
  case (Cons x rest)
  let ?s = "s\<lparr>cs_table := Built_By t (sofar @ [x])\<rparr>"
  have "channel_run tbl s [] ?s"
    using Cons.prems by (intro channel_step_run channel_step.insert)
  moreover obtain log where "channel_run tbl ?s log (?s\<lparr>cs_table := Ready tbl\<rparr>)"
    using Cons.IH [of ?s "sofar @ [x]"] Cons.prems by auto
  ultimately show ?case using channel_run_trans by fastforce
qed

lemma look_up_follows:
  assumes run: "channel_run tbl channel_start log s" and at: "cs_threads s t = At_Handlers opcode body"
  shows "\<exists>log' s'. channel_run tbl s log' s' \<and> Looked_Up t opcode body (map_of tbl opcode) \<in> set log'"
proof -
  have inv: "channel_inv tbl log s" by (rule channel_run_inv [OF run])
  have ready: "\<exists>log s'. channel_run tbl s log s' \<and> cs_table s' = Ready tbl \<and> cs_threads s' = cs_threads s"
  proof (cases "cs_table s")
    case Unbuilt
    let ?s = "s\<lparr>cs_table := Built_By t []\<rparr>"
    have "channel_run tbl s [Build_Started t] ?s"
      by (intro channel_step_run channel_step.first [OF Unbuilt at])
    moreover obtain log' where "channel_run tbl ?s log' (?s\<lparr>cs_table := Ready tbl\<rparr>)"
      using build_completes [of ?s t "[]" tbl tbl] by auto
    ultimately show ?thesis using channel_run_trans by fastforce
  next
    case (Built_By t' sofar)
    with inv obtain rest where "tbl = sofar @ rest" by (auto simp: channel_inv_def)
    from build_completes [OF Built_By this] show ?thesis by fastforce
  next
    case (Ready m)
    with inv show ?thesis by (auto simp: channel_inv_def intro: channel_run.here)
  qed
  then obtain log1 s1 where s1: "channel_run tbl s log1 s1" "cs_table s1 = Ready tbl" "cs_threads s1 = cs_threads s"
    by blast
  from channel_step_run [OF channel_step.look_up [OF s1(2)]] s1(3) at
  have "channel_run tbl s1 [Looked_Up t opcode body (map_of tbl opcode)]
      (s1\<lparr>cs_threads := (cs_threads s1)(t := Elsewhere)\<rparr>)" by simp
  from channel_run_trans [OF this s1(1)] show ?thesis by (metis UnI2 list.set_intros(1) set_append)
qed


text \<open>The packet of a thread, once it has come out of \<open>handlers()\<close>.\<close>

lemma packet_dispatched:
  assumes "channel_run build_handlers channel_start log s" and "Looked_Up t opcode body f \<in> set log"
  shows "(case f of None \<Rightarrow> c | Some g \<Rightarrow> call_player_fn e g body c) =
    (if opcode = 2 \<or> opcode = 3 then session_send e body c else c)"
proof -
  have "f = map_of build_handlers opcode" using channel_once_core [OF assms(1)] assms(2) by blast
  with player_dispatch [of e opcode body c] show ?thesis
    by (simp add: dispatch_def CPLAYER_MOVE_def CPLAYER_PORTAL_def)
qed

end
