(* ===== verification/Session_Timing.thy ===== *)
theory Session_Timing
  imports Session
begin

text \<open>
  The race of \<open>run\<close> between \<open>read_frame\<close> and the idle timer, on a clock. The timer is set at the
  start of each turn and runs while a frame is read, not while the handler works. The main results:
  on a clock \<open>run\<close> is the loop of \<open>Session\<close> for some outcome of the races; a frame that is complete
  in time is handled; a peer that stops sending is closed one timeout after the last thing that
  happened, however it cut its bytes.
\<close>

section \<open>When a read is decided\<close>

text \<open>
  The bytes of the peer with the times at which they can be read, and the time of the end of the
  stream, if it ends. A read of the header or of the payload ends with its last byte, or with the
  end of the stream.
\<close>

type_synonym arrivals = "(int \<times> byte) list"

definition read_decided :: "endian \<Rightarrow> nat \<Rightarrow> arrivals \<Rightarrow> int option \<Rightarrow> int option" where
  "read_decided e max_frame_bytes inp fin =
     (if length inp < kFrameHeaderSize then fin
      else
        let len = from_network e (u32_of_mem e (map snd (take kFrameHeaderSize inp)));
            rest = drop kFrameHeaderSize inp
        in if len = 0 \<or> unat len > max_frame_bytes then Some (fst (inp ! (kFrameHeaderSize - 1)))
           else if length rest < unat len then fin
           else Some (fst (rest ! (unat len - 1))))"

section \<open>The loop on a clock\<close>

text \<open>
  \<open>busy k\<close> is how long the handler takes with the \<open>k\<close>-th frame, \<open>tie k\<close> whether the timer wins where
  both are due at the same time. The result has the time at which the loop ends.
\<close>

definition timer_wins :: "int option \<Rightarrow> int \<Rightarrow> bool \<Rightarrow> bool" where
  "timer_wins decided deadline tie =
     (case decided of None \<Rightarrow> True | Some t \<Rightarrow> deadline < t \<or> deadline = t \<and> tie)"

function timed_loop :: "endian \<Rightarrow> nat \<Rightarrow> 'h handler \<Rightarrow> int \<Rightarrow> (nat \<Rightarrow> int) \<Rightarrow> (nat \<Rightarrow> bool) \<Rightarrow> nat \<Rightarrow> int
    \<Rightarrow> arrivals \<Rightarrow> int option \<Rightarrow> 'h \<Rightarrow> conn \<Rightarrow> 'h \<times> conn \<times> int" where
  "timed_loop e m H idle_timeout busy tie k now inp fin h c =
     (if \<not> conn_open c then (h, c, now)
      else
        let decided = read_decided e m inp fin
        in if timer_wins decided (now + idle_timeout) (tie k) then (h, c, now + idle_timeout)
           else
             let at = max now (the decided)
             in case read_frame e m (map snd inp) of
                  None \<Rightarrow> (h, c, at)
                | Some (payload, rest) \<Rightarrow>
                    (case on_message H payload h c of
                       (Some ex, h', c') \<Rightarrow> (h', c', at + busy k)
                     | (None, h', c') \<Rightarrow>
                         timed_loop e m H idle_timeout busy tie (Suc k) (at + busy k)
                           (drop (length inp - length rest) inp) fin h' c'))"
  by pat_completeness auto
termination
  by (relation "measure (\<lambda>(e, m, H, T, busy, tie, k, now, inp, fin, h, c). length inp)")
    (auto dest!: read_frame_shorter)

declare timed_loop.simps [simp del]

section \<open>On a clock it is the same loop\<close>

lemma run_loop_idle_cong:
  "(\<And>j. k \<le> j \<Longrightarrow> i j = i' j) \<Longrightarrow> run_loop e m H i k inp h c = run_loop e m H i' k inp h c"
proof (induction "length inp" arbitrary: inp k h c rule: less_induct)
  case less
  note step = run_loop.simps [of e m H _ k inp h c]
  show ?case
  proof (cases "read_frame e m inp")
    case None
    with less.prems show ?thesis by (simp add: step)
  next
    case (Some pr)
    obtain p rest where pr: "pr = (p, rest)" by force
    have "run_loop e m H i (Suc k) rest h' c' = run_loop e m H i' (Suc k) rest h' c'" for h' c'
      using less.prems read_frame_shorter [OF Some [unfolded pr]] by (intro less.hyps) simp_all
    with less.prems show ?thesis by (simp add: step Some pr split: prod.split option.split)
  qed
qed

lemma read_frame_rest:
  "read_frame e m bs = Some (p, rest) \<Longrightarrow> rest = drop (4 + length p) bs \<and> 4 + length p \<le> length bs"
  by (drule iffD1 [OF frames.dec_iff]) auto

lemma drop_rest:
  "read_frame e m (map snd inp) = Some (p, rest) \<Longrightarrow> map snd (drop (length inp - length rest) inp) = rest"
  by (drule read_frame_rest) (auto simp: drop_map)

lemma timed_loop_is_run_loop:
  "timed_loop e m H T busy tie k now inp fin h c = (h', c', t) \<Longrightarrow>
     \<exists>idle_wins. run_loop e m H idle_wins k (map snd inp) h c = (h', c')"
proof (induction "length inp" arbitrary: inp k now h c rule: less_induct)
  case less
  note timed = timed_loop.simps [of e m H T busy tie k now inp fin h c]
  note step = run_loop.simps [of e m H _ k "map snd inp"]
  show ?case
  proof (cases "conn_open c \<and> \<not> timer_wins (read_decided e m inp fin) (now + T) (tie k)")
    case False
    with less.prems have "run_loop e m H (\<lambda>_. True) k (map snd inp) h c = (h', c')"
      by (auto simp: timed step split: if_splits)
    then show ?thesis by blast
  next
    case go: True
    show ?thesis
    proof (cases "read_frame e m (map snd inp)")
      case None
      with go less.prems have "run_loop e m H (\<lambda>_. False) k (map snd inp) h c = (h', c')"
        by (simp add: timed step)
      then show ?thesis by blast
    next
      case (Some pr)
      obtain p rest where pr: "pr = (p, rest)" by force
      obtain ex h1 c1 where msg: "on_message H p h c = (ex, h1, c1)" by (metis prod_cases3)
      let ?inp = "drop (length inp - length rest) inp"
      have rest: "map snd ?inp = rest" by (rule drop_rest [OF Some [unfolded pr]])
      show ?thesis
      proof (cases ex)
        case (Some x)
        with go less.prems have "run_loop e m H (\<lambda>_. False) k (map snd inp) h c = (h', c')"
          by (simp add: timed step \<open>read_frame e m (map snd inp) = Some pr\<close> pr msg Let_def)
        then show ?thesis by blast
      next
        case None
        have short: "length ?inp < length inp"
          using read_frame_shorter [OF Some [unfolded pr]] by simp
        have "timed_loop e m H T busy tie (Suc k) (max now (the (read_decided e m inp fin)) + busy k)
            ?inp fin h1 c1 = (h', c', t)"
          using less.prems go None by (simp add: timed Some pr msg Let_def)
        from less.hyps [OF short this] obtain i where
          "run_loop e m H i (Suc k) rest h1 c1 = (h', c')" unfolding rest by blast
        moreover have "run_loop e m H (i(k := False)) (Suc k) rest h1 c1 = run_loop e m H i (Suc k) rest h1 c1"
          by (rule run_loop_idle_cong) simp
        ultimately have "run_loop e m H (i(k := False)) k (map snd inp) h c = (h', c')"
          using go by (simp add: step Some pr msg None)
        then show ?thesis by blast
      qed
    qed
  qed
qed

section \<open>Frames in time, and a peer that falls silent\<close>

lemma time_in_input: "0 < n \<Longrightarrow> n \<le> length inp - i \<Longrightarrow> fst (drop i inp ! (n - 1)) \<in> fst ` set inp"
  by (rule imageI) (metis in_set_dropD nth_mem length_drop diff_less less_le_trans zero_less_one)

lemma read_decided_in_input:
  assumes "read_decided e m inp fin = Some t"
  shows "fin = Some t \<or> t \<in> fst ` set inp"
proof -
  let ?len = "unat (from_network e (u32_of_mem e (map snd (take 4 inp))))"
  have "fst (inp ! 3) \<in> fst ` set inp" if "4 \<le> length inp"
    using that by (intro imageI nth_mem) simp
  moreover have "fst (drop 4 inp ! (?len - 1)) \<in> fst ` set inp"
    if "?len \<noteq> 0" "?len \<le> length inp - 4"
    using that by (intro time_in_input) simp_all
  ultimately show ?thesis
    using assms
    by (auto simp: read_decided_def Let_def kFrameHeaderSize_def unat_eq_zero split: if_splits simp del: nth_drop)
qed

lemma read_decided_frame:
  assumes "read_frame e m (map snd inp) = Some (p, rest)"
  shows "\<exists>t. read_decided e m inp fin = Some t \<and> t \<in> fst ` set inp"
proof -
  let ?len = "unat (from_network e (u32_of_mem e (map snd (take 4 inp))))"
  have len: "4 \<le> length inp" "from_network e (u32_of_mem e (map snd (take 4 inp))) \<noteq> 0" "?len \<le> m"
      "?len \<le> length inp - 4"
    using assms by (auto simp: read_frame_def Let_def kFrameHeaderSize_def take_map split: if_splits)
  then have "read_decided e m inp fin = Some (fst (drop 4 inp ! (?len - 1)))"
    by (simp add: read_decided_def Let_def kFrameHeaderSize_def)
  moreover have "fst (drop 4 inp ! (?len - 1)) \<in> fst ` set inp"
    using len by (intro time_in_input) (simp_all add: unat_gt_0)
  ultimately show ?thesis by blast
qed

text \<open>
  Where every byte is there within one timeout of the start, every frame is handled, however long
  the handler takes.
\<close>

lemma timed_loop_feeds:
  assumes "\<And>j. 0 \<le> busy j" and "\<forall>p \<in> set ps. frame_fits m p"
    and "map snd inp = concat (map (frame e) ps)" and "\<forall>(t, b) \<in> set inp. t < now + T" and "0 \<le> T"
    and "timed_loop e m H T busy tie k now inp fin h c = (h', c', t)"
  shows "feed H ps h c = (h', c')"
  using assms(2-4,6)
proof (induction ps arbitrary: inp k now h c)
  case Nil
  then have "read_frame e m (map snd inp) = None"
    by (simp add: read_frame_def kFrameHeaderSize_def)
  with Nil.prems(4) show ?case
    by (simp add: timed_loop.simps [of e m H T busy tie k now inp fin h c] Let_def split: if_splits)
next
  case (Cons p ps)
  note timed = timed_loop.simps [of e m H T busy tie k now inp fin h c]
  have rd: "read_frame e m (map snd inp) = Some (p, concat (map (frame e) ps))"
    unfolding Cons.prems(2) using Cons.prems(1) by (simp add: frames.dec_enc)
  then obtain t0 where t0: "read_decided e m inp fin = Some t0" "t0 \<in> fst ` set inp"
    using read_decided_frame [OF rd, of fin] by auto
  with Cons.prems(3) have "t0 < now + T" by auto
  then have wins: "\<not> timer_wins (read_decided e m inp fin) (now + T) (tie k)"
    by (simp add: timer_wins_def t0(1))
  let ?inp = "drop (length inp - length (concat (map (frame e) ps))) inp"
  have inp': "map snd ?inp = concat (map (frame e) ps)" by (rule drop_rest [OF rd])
  have "now \<le> max now t0 + busy k" using assms(1) [of k] by simp
  then have times: "\<forall>(t, b) \<in> set ?inp. t < max now t0 + busy k + T"
  proof (clarify)
    fix u b
    assume "(u, b) \<in> set ?inp"
    then have "(u, b) \<in> set inp" by (rule in_set_dropD)
    with Cons.prems(3) have "u < now + T" by auto
    with \<open>now \<le> max now t0 + busy k\<close> show "u < max now t0 + busy k + T" by linarith
  qed
  obtain ex h1 c1 where msg: "on_message H p h c = (ex, h1, c1)" by (metis prod_cases3)
  show ?case
  proof (cases "conn_open c \<and> ex = None")
    case True
    with Cons.prems(4) wins have
      "timed_loop e m H T busy tie (Suc k) (max now t0 + busy k) ?inp fin h1 c1 = (h', c', t)"
      by (simp add: timed Let_def t0(1) rd msg)
    from Cons.IH [OF _ inp' times this] Cons.prems(1) True msg show ?thesis by simp
  next
    case False
    with Cons.prems(4) wins show ?thesis
      by (auto simp: timed Let_def t0(1) rd msg split: if_splits option.splits)
  qed
qed

lemma sum_first_turn:
  fixes f :: "nat \<Rightarrow> int"
  assumes "\<And>j. 0 \<le> f j" and "Suc m \<le> n"
  shows "f k + (\<Sum>j = Suc k..<Suc k + m. f j) \<le> (\<Sum>j = k..<k + n. f j)"
proof -
  have "f k + (\<Sum>j = Suc k..<Suc k + m. f j) = (\<Sum>j = k..<Suc k + m. f j)"
    by (simp add: sum.atLeast_Suc_lessThan)
  also have "\<dots> \<le> (\<Sum>j = k..<k + n. f j)"
    using assms by (intro sum_mono2) auto
  finally show ?thesis .
qed

text \<open>
  The loop ends at most one timeout after the last byte, the end of the last handler or its start.
\<close>

lemma timed_loop_deadline:
  assumes busy: "\<And>j. 0 \<le> busy j" and T: "0 \<le> T"
    and inp: "\<forall>(t, b) \<in> set inp. t \<le> latest" and fin: "\<And>t. fin = Some t \<Longrightarrow> t \<le> latest"
    and run: "timed_loop e m H T busy tie k now inp fin h c = (h', c', t)"
  shows "t \<le> max now latest + (\<Sum>j = k..<k + length inp. busy j) + T"
  using inp run
proof (induction "length inp" arbitrary: inp k now h c rule: less_induct)
  case less
  note timed = timed_loop.simps [of e m H T busy tie k now inp fin h c]
  have pos: "0 \<le> (\<Sum>j = a..<b. busy j)" for a b by (simp add: busy sum_nonneg)
  show ?case
  proof (cases "conn_open c \<and> \<not> timer_wins (read_decided e m inp fin) (now + T) (tie k)")
    case False
    with less.prems(2) T pos [of k "k + length inp"] show ?thesis by (auto simp: timed Let_def split: if_splits)
  next
    case go: True
    then obtain t0 where t0: "read_decided e m inp fin = Some t0"
      by (auto simp: timer_wins_def split: option.splits)
    have le: "t0 \<le> latest" using read_decided_in_input [OF t0] fin less.prems(1) by auto
    show ?thesis
    proof (cases "read_frame e m (map snd inp)")
      case None
      with go less.prems(2) t0 le T pos [of k "k + length inp"] show ?thesis by (auto simp: timed Let_def)
    next
      case (Some pr)
      obtain p rest where pr: "pr = (p, rest)" by force
      obtain ex h1 c1 where msg: "on_message H p h c = (ex, h1, c1)" by (metis prod_cases3)
      let ?inp = "drop (length inp - length rest) inp" and ?now = "max now t0 + busy k"
      have short: "length ?inp < length inp" using read_frame_shorter [OF Some [unfolded pr]] by simp
      have sum: "busy k + (\<Sum>j = Suc k..<Suc k + length ?inp. busy j) \<le> (\<Sum>j = k..<k + length inp. busy j)"
        using short by (intro sum_first_turn busy) simp
      have max: "max ?now latest \<le> max now latest + busy k" using le busy [of k] by linarith
      show ?thesis
      proof (cases ex)
        case (Some x)
        with go less.prems(2) t0 \<open>read_frame e m (map snd inp) = Some pr\<close> have "t = ?now"
          by (simp add: timed Let_def pr msg)
        with max sum T pos [of "Suc k" "Suc k + length ?inp"] show ?thesis by linarith
      next
        case None
        have "\<forall>(t, b) \<in> set ?inp. t \<le> latest" using less.prems(1) by (auto dest: in_set_dropD)
        moreover have "timed_loop e m H T busy tie (Suc k) ?now ?inp fin h1 c1 = (h', c', t)"
          using less.prems(2) go Some None by (simp add: timed Let_def t0 pr msg)
        ultimately have "t \<le> max ?now latest + (\<Sum>j = Suc k..<Suc k + length ?inp. busy j) + T"
          by (rule less.hyps [OF short])
        with max sum show ?thesis by linarith
      qed
    qed
  qed
qed

text \<open>
  Each turn lasts at most one timeout and its handler, whenever the bytes come: a peer that sends
  them one at a time pays with a frame for every timeout.
\<close>

lemma read_frame_five: "read_frame e m bs = Some (p, rest) \<Longrightarrow> length rest + 5 \<le> length bs"
  by (drule iffD1 [OF frames.dec_iff]) (auto simp: frame_fits_def Suc_le_eq)

lemma timed_loop_turns:
  assumes busy: "\<And>j. 0 \<le> busy j" and T: "0 \<le> T"
    and run: "timed_loop e m H T busy tie k now inp fin h c = (h', c', t)"
  shows "t \<le> now + (\<Sum>j = k..<k + length inp div 5. T + busy j) + T"
  using run
proof (induction "length inp" arbitrary: inp k now h c rule: less_induct)
  case less
  note timed = timed_loop.simps [of e m H T busy tie k now inp fin h c]
  have pos: "0 \<le> (\<Sum>j = a..<b. T + busy j)" for a b by (simp add: busy T sum_nonneg)
  show ?case
  proof (cases "conn_open c \<and> \<not> timer_wins (read_decided e m inp fin) (now + T) (tie k)")
    case False
    with less.prems T pos [of k "k + length inp div 5"] show ?thesis
      by (auto simp: timed Let_def split: if_splits)
  next
    case go: True
    then obtain t0 where t0: "read_decided e m inp fin = Some t0" "t0 \<le> now + T"
      by (auto simp: timer_wins_def split: option.splits)
    show ?thesis
    proof (cases "read_frame e m (map snd inp)")
      case None
      with go less.prems t0 T pos [of k "k + length inp div 5"] show ?thesis by (auto simp: timed Let_def)
    next
      case (Some pr)
      obtain p rest where pr: "pr = (p, rest)" by force
      obtain ex h1 c1 where msg: "on_message H p h c = (ex, h1, c1)" by (metis prod_cases3)
      let ?inp = "drop (length inp - length rest) inp" and ?now = "max now t0 + busy k"
      let ?n = "length inp div 5"
      have five: "length ?inp + 5 \<le> length inp" using read_frame_five [OF Some [unfolded pr]] by simp
      then have "(length ?inp + 5) div 5 \<le> ?n" by (rule div_le_mono)
      then have "Suc (length ?inp div 5) \<le> ?n" by simp
      then have sum: "T + busy k + (\<Sum>j = Suc k..<Suc k + length ?inp div 5. T + busy j)
          \<le> (\<Sum>j = k..<k + ?n. T + busy j)"
        by (intro sum_first_turn [where f = "\<lambda>j. T + busy j"]) (simp add: busy T)
      have now: "?now \<le> now + T + busy k" using t0 T by linarith
      show ?thesis
      proof (cases ex)
        case (Some x)
        with go less.prems t0 \<open>read_frame e m (map snd inp) = Some pr\<close> have "t = ?now"
          by (simp add: timed Let_def pr msg)
        with now sum T pos [of "Suc k" "Suc k + length ?inp div 5"] show ?thesis by linarith
      next
        case None
        have "timed_loop e m H T busy tie (Suc k) ?now ?inp fin h1 c1 = (h', c', t)"
          using less.prems go Some None by (simp add: timed Let_def t0(1) pr msg)
        from less.hyps [OF _ this] five
        have "t \<le> ?now + (\<Sum>j = Suc k..<Suc k + length ?inp div 5. T + busy j) + T" by simp
        with now sum show ?thesis by linarith
      qed
    qed
  qed
qed

section \<open>The whole life of a session\<close>

text \<open>\<open>connecting\<close> is how long \<open>on_connect\<close> takes; no timer runs meanwhile.\<close>

definition session_timed :: "endian \<Rightarrow> nat \<Rightarrow> 'h handler \<Rightarrow> int \<Rightarrow> (nat \<Rightarrow> int) \<Rightarrow> (nat \<Rightarrow> bool) \<Rightarrow> int \<Rightarrow> int
    \<Rightarrow> arrivals \<Rightarrow> int option \<Rightarrow> 'h \<Rightarrow> conn \<Rightarrow> 'h \<times> conn \<times> int" where
  "session_timed e m H idle_timeout busy tie start connecting inp fin h c =
     (let (h, c, t) =
        (case on_connect H h c of
           (Some ex, h', c') \<Rightarrow> (h', c', start + connecting)
         | (None, h', c') \<Rightarrow>
             timed_loop e m H idle_timeout busy tie 0 (start + connecting) inp fin h' c')
      in (on_disconnect H h, session_close c, t))"

lemma session_timed_cases:
  assumes "session_timed e m H T busy tie start connecting inp fin h c = (h', c', t)"
  obtains (thrown) ex h1 c1 where "on_connect H h c = (Some ex, h1, c1)" "h' = on_disconnect H h1"
      "c' = session_close c1" "t = start + connecting"
  | (looped) h1 c1 h2 c2 where "on_connect H h c = (None, h1, c1)"
      "timed_loop e m H T busy tie 0 (start + connecting) inp fin h1 c1 = (h2, c2, t)"
      "h' = on_disconnect H h2" "c' = session_close c2"
  using assms by (auto simp: session_timed_def split: prod.splits option.splits)

lemma session_timed_core:
  assumes "\<And>j. 0 \<le> busy j" and "0 \<le> T"
    and "\<forall>(t, b) \<in> set inp. t \<le> latest" and "\<And>t. fin = Some t \<Longrightarrow> t \<le> latest"
    and run: "session_timed e m H T busy tie start connecting inp fin h c = (h', c', t)"
  shows "\<not> conn_open c' \<and> t \<le> max (start + connecting) latest + (\<Sum>j<length inp. busy j) + T \<and>
    t \<le> start + connecting + (\<Sum>j<length inp div 5. T + busy j) + T \<and>
    (\<exists>idle_wins. session_run e m H idle_wins (map snd inp) h c = (h', c'))"
  using run
proof (cases rule: session_timed_cases)
  case (thrown ex h1 c1)
  have "0 \<le> (\<Sum>j<length inp. busy j)" "0 \<le> (\<Sum>j<length inp div 5. T + busy j)"
    by (simp_all add: assms(1,2) sum_nonneg)
  with thrown assms(2) show ?thesis by (simp add: session_run_def session_close_def)
next
  case (looped h1 c1 h2 c2)
  from timed_loop_is_run_loop [OF looped(2)] obtain i where
    "run_loop e m H i 0 (map snd inp) h1 c1 = (h2, c2)" by blast
  with looped(1,3,4) have "session_run e m H i (map snd inp) h c = (h', c')"
    by (simp add: session_run_def)
  moreover have "t \<le> max (start + connecting) latest + (\<Sum>j<length inp. busy j) + T"
    using timed_loop_deadline [OF assms(1-4) looped(2)] by (simp add: lessThan_atLeast0)
  moreover have "t \<le> start + connecting + (\<Sum>j<length inp div 5. T + busy j) + T"
    using timed_loop_turns [OF assms(1,2) looped(2)] by (simp add: lessThan_atLeast0)
  ultimately show ?thesis using looped(4) by (auto simp: session_close_def)
qed

lemma session_timed_feeds:
  assumes "\<And>j. 0 \<le> busy j" and "0 \<le> T" and "\<forall>p \<in> set ps. frame_fits m p"
    and "map snd inp = concat (map (frame e) ps)" and "\<forall>(t, b) \<in> set inp. t < start + connecting + T"
    and con: "on_connect H h c = (None, h1, c1)" and fed: "feed H ps h1 c1 = (h2, c2)"
    and run: "session_timed e m H T busy tie start connecting inp fin h c = (h', c', t)"
  shows "h' = on_disconnect H h2 \<and> c' = session_close c2"
  using run
proof (cases rule: session_timed_cases)
  case (looped g1 d1 g2 d2)
  from timed_loop_feeds [OF assms(1,3-5,2) looped(2)] looped con fed show ?thesis by simp
qed (simp add: con)

end
