(* ===== verification/Server.thy ===== *)
theory Server
  imports Server_Role Session
begin

text \<open>
  The server framework, \<open>include/server.hpp\<close>: N threads, each with its own acceptor and its
  own registry of sessions, that share one atomic counter of connections. The threads interleave
  at the accesses to the counter, so the model is a step relation over all of them. The main
  results: the counter is the number of live sessions, admission keeps it below the configured
  maximum plus the number of the other threads (exactly the maximum on one thread), and what a
  stop does and does not close. The sockets and cores of the threads are in \<open>Server_Run\<close>; here a
  worker that could not bind is one that never listens.
\<close>

section \<open>State\<close>

text \<open>
  Where a thread is between two accesses to the counter: in its event loop, past the admission
  test with a connection not counted yet, or with a session removed from the registry and still
  counted.
\<close>

datatype worker_pc = Idle | Admitting nat | Closing

text \<open>
  \<open>accept_ready\<close>: an \<open>async_accept\<close> has completed and its handler waits in the queue of the
  thread. \<open>registry\<close> holds the sessions of the thread, \<open>open_sessions\<close> those whose socket was
  not closed, \<open>waiting\<close> those whose handler waits for an operation of the store client, which is
  completed outside the thread.
\<close>

record worker =
  w_pc :: worker_pc
  acceptor_open :: bool
  accept_loop_runs :: bool
  accept_ready :: bool
  registry :: "nat set"
  open_sessions :: "nat set"
  waiting :: "nat set"

record server =
  active_connections :: nat
  workers :: "nat \<Rightarrow> worker"

definition new_worker :: "bool \<Rightarrow> worker" where
  "new_worker bound =
     \<lparr> w_pc = Idle, acceptor_open = bound, accept_loop_runs = bound, accept_ready = False,
       registry = {}, open_sessions = {}, waiting = {} \<rparr>"

section \<open>Operations\<close>

definition set_worker :: "nat \<Rightarrow> worker \<Rightarrow> server \<Rightarrow> server" where
  "set_worker i w s = s\<lparr>workers := (workers s)(i := w)\<rparr>"

text \<open>\<open>SessionRegistry\<close>\<close>

definition registry_add :: "nat \<Rightarrow> worker \<Rightarrow> worker" where
  "registry_add sid w =
     w\<lparr>registry := insert sid (registry w), open_sessions := insert sid (open_sessions w)\<rparr>"

definition registry_remove :: "nat \<Rightarrow> worker \<Rightarrow> worker" where
  "registry_remove sid w =
     w\<lparr>registry := registry w - {sid}, open_sessions := open_sessions w - {sid}\<rparr>"

definition registry_close_all :: "worker \<Rightarrow> worker" where
  "registry_close_all w = w\<lparr>open_sessions := open_sessions w - registry w\<rparr>"

definition on_connection_opened :: "server \<Rightarrow> server" where
  "on_connection_opened s = s\<lparr>active_connections := active_connections s + 1\<rparr>"

text \<open>The second component says whether the threads in \<open>wait_drained\<close> are notified.\<close>

definition on_connection_closed :: "server \<Rightarrow> server \<times> bool" where
  "on_connection_closed s =
     (s\<lparr>active_connections := active_connections s - 1\<rparr>, active_connections s = 1)"

definition admits :: "server_role \<Rightarrow> server \<Rightarrow> bool" where
  "admits role s \<longleftrightarrow> \<not> active_connections s \<ge> max_connections role"

text \<open>
  The posted close of the \<open>stop_callback\<close>, run by the thread itself.
\<close>

definition stop_worker :: "worker \<Rightarrow> worker" where
  "stop_worker w = registry_close_all (w\<lparr>acceptor_open := False\<rparr>)"

text \<open>
  One step of thread \<open>i\<close> of \<open>n\<close>. A completed accept is first tested (\<open>refuse\<close>, \<open>admit\<close>) and
  then counted, registered and started (\<open>opened\<close>); a session whose \<open>run\<close> has returned is
  removed (\<open>finished\<close>) and then discounted (\<open>closed\<close>). The handler of a session may wait for the
  store client (\<open>await\<close>) until the operation completes (\<open>resume\<close>), and in between \<open>run\<close> cannot
  return: it hangs in \<open>on_message\<close>, which a close of the session's socket does not end. Otherwise
  it waits for its own socket or timer, and may return.
\<close>

inductive server_step :: "server_role \<Rightarrow> nat \<Rightarrow> server \<Rightarrow> server \<Rightarrow> bool" for role n where
  arrive: "\<lbrakk>i < n; w = workers s i; acceptor_open w; accept_loop_runs w; \<not> accept_ready w\<rbrakk> \<Longrightarrow>
    server_step role n s (set_worker i (w\<lparr>accept_ready := True\<rparr>) s)"
| refuse: "\<lbrakk>i < n; w = workers s i; w_pc w = Idle; accept_ready w; \<not> admits role s\<rbrakk> \<Longrightarrow>
    server_step role n s (set_worker i (w\<lparr>accept_ready := False\<rparr>) s)"
| admit: "\<lbrakk>i < n; w = workers s i; w_pc w = Idle; accept_ready w; admits role s;
     sid \<notin> registry w\<rbrakk> \<Longrightarrow>
    server_step role n s (set_worker i (w\<lparr>accept_ready := False, w_pc := Admitting sid\<rparr>) s)"
| opened: "\<lbrakk>i < n; w = workers s i; w_pc w = Admitting sid\<rbrakk> \<Longrightarrow>
    server_step role n s
      (set_worker i (registry_add sid (w\<lparr>w_pc := Idle\<rparr>)) (on_connection_opened s))"
| accept_fails: "\<lbrakk>i < n; w = workers s i; w_pc w = Idle; accept_loop_runs w; \<not> accept_ready w\<rbrakk> \<Longrightarrow>
    server_step role n s (set_worker i (w\<lparr>accept_loop_runs := False\<rparr>) s)"
| finished: "\<lbrakk>i < n; w = workers s i; w_pc w = Idle; sid \<in> registry w; sid \<notin> waiting w\<rbrakk> \<Longrightarrow>
    server_step role n s (set_worker i (registry_remove sid (w\<lparr>w_pc := Closing\<rparr>)) s)"
| closed: "\<lbrakk>i < n; w = workers s i; w_pc w = Closing\<rbrakk> \<Longrightarrow>
    server_step role n s (set_worker i (w\<lparr>w_pc := Idle\<rparr>) (fst (on_connection_closed s)))"
| await: "\<lbrakk>i < n; w = workers s i; w_pc w = Idle; sid \<in> registry w\<rbrakk> \<Longrightarrow>
    server_step role n s (set_worker i (w\<lparr>waiting := insert sid (waiting w)\<rparr>) s)"
| resume: "\<lbrakk>i < n; w = workers s i; w_pc w = Idle; sid \<in> waiting w\<rbrakk> \<Longrightarrow>
    server_step role n s (set_worker i (w\<lparr>waiting := waiting w - {sid}\<rparr>) s)"
| stop: "\<lbrakk>i < n; w = workers s i; w_pc w = Idle\<rbrakk> \<Longrightarrow>
    server_step role n s (set_worker i (stop_worker w) s)"

inductive_cases server_stepE: "server_step role n s s'"

inductive server_reachable :: "server_role \<Rightarrow> nat \<Rightarrow> server \<Rightarrow> bool" for role n where
  start: "\<forall>i < n. workers s i = new_worker (bound i) \<Longrightarrow> active_connections s = 0 \<Longrightarrow>
    server_reachable role n s"
| more: "server_reachable role n s \<Longrightarrow> server_step role n s s' \<Longrightarrow> server_reachable role n s'"

text \<open>
  \<open>wait_drained\<close> over what it observes in each turn: the counter, the clock, and whether the
  \<open>atomic::wait\<close> on that value was ever notified. A wait has no deadline of its own.
\<close>

datatype drain_result = Drained | Timed_Out | Blocked | Looping

fun wait_drained :: "int \<Rightarrow> (nat \<times> int \<times> bool) list \<Rightarrow> drain_result" where
  "wait_drained deadline [] = Looping"
| "wait_drained deadline ((current, now, notified) # obs) =
     (if current = 0 then Drained
      else if now \<ge> deadline then Timed_Out
      else if notified then wait_drained deadline obs
      else Blocked)"

text \<open>
  The UDP loop: what \<open>async_receive_from\<close> delivers (\<open>None\<close> is an error) is cut to the
  buffer and given to the handler.
\<close>

fun datagram_loop :: "nat \<Rightarrow> ('ep \<Rightarrow> bytes \<Rightarrow> 'h \<Rightarrow> 'h) \<Rightarrow> ('ep \<times> bytes) option list \<Rightarrow> 'h \<Rightarrow> 'h" where
  "datagram_loop buffer_bytes handler [] h = h"
| "datagram_loop buffer_bytes handler (None # ds) h = h"
| "datagram_loop buffer_bytes handler (Some (sender, data) # ds) h =
     datagram_loop buffer_bytes handler ds (handler sender (take buffer_bytes data) h)"

section \<open>The counter\<close>

fun pc_closing :: "worker_pc \<Rightarrow> nat" where
  "pc_closing Closing = 1"
| "pc_closing _ = 0"

fun pc_admitting :: "worker_pc \<Rightarrow> nat" where
  "pc_admitting (Admitting sid) = 1"
| "pc_admitting _ = 0"

definition counted :: "worker \<Rightarrow> nat" where
  "counted w = card (registry w) + pc_closing (w_pc w)"

definition pending :: "worker \<Rightarrow> nat" where
  "pending w = pc_admitting (w_pc w)"

definition total :: "(worker \<Rightarrow> nat) \<Rightarrow> nat \<Rightarrow> server \<Rightarrow> nat" where
  "total f n s = (\<Sum>i<n. f (workers s i))"

definition worker_ok :: "worker \<Rightarrow> bool" where
  "worker_ok w \<longleftrightarrow> finite (registry w) \<and> open_sessions w \<subseteq> registry w \<and> waiting w \<subseteq> registry w \<and>
     (\<forall>sid. w_pc w = Admitting sid \<longrightarrow> sid \<notin> registry w)"

definition server_inv :: "server_role \<Rightarrow> nat \<Rightarrow> server \<Rightarrow> bool" where
  "server_inv role n s \<longleftrightarrow>
     (\<forall>i < n. worker_ok (workers s i)) \<and>
     active_connections s = total counted n s \<and>
     active_connections s + total pending n s \<le> max_connections role + (n - 1)"

lemma total_set_worker:
  "i < n \<Longrightarrow> total f n (set_worker i w s) + f (workers s i) = total f n s + f w"
proof -
  assume i: "i < n"
  then have "total f n s' = f (workers s' i) + (\<Sum>j \<in> {..<n} - {i}. f (workers s' j))" for s'
    by (simp add: total_def sum.remove)
  from this [of s] this [of "set_worker i w s"] show ?thesis
    by (simp add: set_worker_def)
qed

lemma set_worker_simps [simp]:
  "active_connections (set_worker i w s) = active_connections s"
  "workers (set_worker i w s) j = (if j = i then w else workers s j)"
  "workers (on_connection_opened s) = workers s"
  "active_connections (on_connection_opened s) = Suc (active_connections s)"
  "workers (fst (on_connection_closed s)) = workers s"
  "active_connections (fst (on_connection_closed s)) = active_connections s - 1"
  by (simp_all add: set_worker_def on_connection_opened_def on_connection_closed_def)

lemma total_workers_cong: "workers s = workers s' \<Longrightarrow> total f n s = total f n s'"
  by (simp add: total_def)

lemma pending_le: "total pending n s \<le> n" 
proof -
  have "pending w \<le> 1" for w by (cases "w_pc w") (simp_all add: pending_def)
  then have "(\<Sum>i<n. pending (workers s i)) \<le> (\<Sum>i<n. 1)" by (intro sum_mono)
  then show ?thesis by (simp add: total_def)
qed

text \<open>A thread that is not admitting leaves room for the others only.\<close>

lemma pending_idle: "i < n \<Longrightarrow> pending (workers s i) = 0 \<Longrightarrow> total pending n s \<le> n - 1"
proof -
  assume i: "i < n" "pending (workers s i) = 0"
  have "pending w \<le> 1" for w by (cases "w_pc w") (simp_all add: pending_def)
  then have "(\<Sum>j \<in> {..<n} - {i}. pending (workers s j)) \<le> (\<Sum>j \<in> {..<n} - {i}. 1)"
    by (intro sum_mono)
  with i show ?thesis by (simp add: total_def sum.remove)
qed

lemma server_inv_start:
  assumes "\<forall>i < n. workers s i = new_worker (bound i)" and "active_connections s = 0"
  shows "server_inv role n s"
proof -
  have "total counted n s = 0" "total pending n s = 0"
    using assms(1) by (simp_all add: total_def counted_def pending_def new_worker_def)
  then show ?thesis
    using assms by (simp add: server_inv_def worker_ok_def new_worker_def)
qed

text \<open>One thread changes, and perhaps the counter.\<close>

lemma server_inv_change:
  assumes inv: "server_inv role n s" and "i < n" and "worker_ok (workers s' i)"
    and same: "\<And>j. j \<noteq> i \<Longrightarrow> workers s' j = workers s j"
    and "active_connections s' + counted (workers s i) =
      active_connections s + counted (workers s' i)"
    and "active_connections s' + total pending n s + pending (workers s' i)
      \<le> max_connections role + (n - 1) + pending (workers s i)"
  shows "server_inv role n s'"
proof -
  have "workers s' = (workers s)(i := workers s' i)" using same by auto
  then have "total f n s' + f (workers s i) = total f n s + f (workers s' i)" for f
    using total_set_worker [OF assms(2), of f "workers s' i" s]
    by (metis set_worker_def server.select_convs(2) server.surjective server.update_convs(2) total_workers_cong)
  from this [of counted] this [of pending] show ?thesis
    using assms by (auto simp: server_inv_def) (metis same)
qed

lemma server_inv_step:
  assumes inv: "server_inv role n s" and step: "server_step role n s s'"
  shows "server_inv role n s'"
proof -
  have ok: "\<And>i. i < n \<Longrightarrow> worker_ok (workers s i)"
      and bound: "active_connections s + total pending n s \<le> max_connections role + (n - 1)"
      and count: "active_connections s = total counted n s"
    using inv by (simp_all add: server_inv_def)
  note simps = counted_def pending_def worker_ok_def fun_eq_iff
  from step show ?thesis
  proof (cases rule: server_step.cases)
    case (arrive i w)
    then show ?thesis
      using ok bound by (intro server_inv_change [OF inv, of i]) (auto simp: simps)
  next
    case (refuse i w)
    then show ?thesis
      using ok bound by (intro server_inv_change [OF inv, of i]) (auto simp: simps)
  next
    case (admit i w sid)
    have "total pending n s \<le> n - 1"
      using admit by (intro pending_idle) (auto simp: pending_def)
    then show ?thesis
      using admit ok by (intro server_inv_change [OF inv, of i]) (auto simp: simps admits_def)
  next
    case (opened i w sid)
    then show ?thesis
      using ok [of i] bound
      by (intro server_inv_change [OF inv, of i]) (auto simp: simps registry_add_def)
  next
    case (accept_fails i w)
    then show ?thesis
      using ok bound by (intro server_inv_change [OF inv, of i]) (auto simp: simps)
  next
    case (finished i w sid)
    then have "Suc (card (registry w - {sid})) = card (registry w)"
      using ok [of i] by (intro card_Suc_Diff1) (auto simp: worker_ok_def)
    then show ?thesis
      using finished ok [of i] bound
      by (intro server_inv_change [OF inv, of i]) (auto simp: simps registry_remove_def)
  next
    case (closed i w)
    have "counted (workers s i) \<le> total counted n s"
      unfolding total_def using closed(2) by (intro member_le_sum) simp_all
    with closed have "0 < active_connections s" by (auto simp: count counted_def)
    then show ?thesis
      using closed ok [of i] bound
      by (intro server_inv_change [OF inv, of i]) (auto simp: simps)
  next
    case (await i w sid)
    then show ?thesis
      using ok [of i] bound by (intro server_inv_change [OF inv, of i]) (auto simp: simps)
  next
    case (resume i w sid)
    then show ?thesis
      using ok [of i] bound by (intro server_inv_change [OF inv, of i]) (auto simp: simps)
  next
    case (stop i w)
    then show ?thesis
      using ok bound
      by (intro server_inv_change [OF inv, of i])
        (auto simp: simps stop_worker_def registry_close_all_def)
  qed
qed

lemma server_inv_reachable: "server_reachable role n s \<Longrightarrow> server_inv role n s"
  by (induction rule: server_reachable.induct) (auto intro: server_inv_start server_inv_step)

section \<open>What a stop closes\<close>

text \<open>
  A thread that has stopped and has no completed accept in its queue: nothing it does opens a
  session again.
\<close>

definition quiesced :: "worker \<Rightarrow> bool" where
  "quiesced w \<longleftrightarrow> \<not> acceptor_open w \<and> \<not> accept_ready w \<and> open_sessions w = {} \<and>
     (\<forall>sid. w_pc w \<noteq> Admitting sid)"

lemma stop_quiesces:
  "worker_ok w \<Longrightarrow> w_pc w = Idle \<Longrightarrow> \<not> accept_ready w \<Longrightarrow> quiesced (stop_worker w)"
  by (auto simp: worker_ok_def quiesced_def stop_worker_def registry_close_all_def)

lemma quiesced_step:
  "server_step role n s s' \<Longrightarrow> quiesced (workers s i) \<Longrightarrow> quiesced (workers s' i)"
  by (induction rule: server_step.induct)
    (auto simp: quiesced_def registry_remove_def stop_worker_def registry_close_all_def)

lemma quiesced_for_ever:
  "(server_step role n)\<^sup>*\<^sup>* s s' \<Longrightarrow> quiesced (workers s i) \<Longrightarrow> quiesced (workers s' i)"
  by (induction rule: rtranclp_induct) (auto intro: quiesced_step)

section \<open>Waiting for the connections to drain\<close>

lemma wait_drained_Drained:
  "wait_drained dl obs = Drained \<Longrightarrow> \<exists>now w. (0, now, w) \<in> set obs"
  by (induction dl obs rule: wait_drained.induct) (auto split: if_splits)

lemma wait_drained_Timed_Out:
  "wait_drained dl obs = Timed_Out \<Longrightarrow> \<exists>(k, now, w) \<in> set obs. 0 < k \<and> dl \<le> now"
proof (induction obs)
  case (Cons ob obs)
  obtain k now w where ob: "ob = (k, now, w)" by (cases ob) auto
  then show ?case using Cons by (simp split: if_splits)
qed simp

lemma datagram_loop_app:
  "datagram_loop m handler (map Some ds) h = fold (\<lambda>(sender, data). handler sender (take m data)) ds h"
proof (induction ds arbitrary: h)
  case (Cons d ds)
  obtain sender data where "d = (sender, data)" by force
  then show ?case by (simp add: Cons.IH)
qed simp

end
