(* ===== verification/Main_Cli.thy ===== *)
theory Main_Cli
  imports Registry Server_Role
begin

text \<open>
  The executable, \<open>src/main.cpp\<close>: the command line, the secret read from the environment, the
  sweep of the store and what each role announces in the registry. \<open>std::stoi\<close> and
  \<open>std::to_string\<close> are modelled as the standard defines them. The main results: what
  \<open>openssl rand -hex 32\<close> prints is read back as the key, and the options of a command line
  are read back as the arguments.
\<close>

section \<open>std::stoi and std::to_string\<close>

definition is_space :: "char \<Rightarrow> bool" where
  "is_space c \<longleftrightarrow> (let n = of_char c :: nat in n = 32 \<or> 9 \<le> n \<and> n \<le> 13)"

definition is_digit :: "nat \<Rightarrow> char \<Rightarrow> bool" where
  "is_digit base c = (case digit_value c of None \<Rightarrow> False | Some d \<Rightarrow> d < base)"

definition digits_value :: "nat \<Rightarrow> string \<Rightarrow> nat" where
  "digits_value base s = foldl (\<lambda>n c. base * n + the (digit_value c)) 0 s"

fun split_sign :: "string \<Rightarrow> int \<times> string" where
  "split_sign [] = (1, [])"
| "split_sign (c # s) =
     (if c = CHR ''-'' then (-1, s) else if c = CHR ''+'' then (1, s) else (1, c # s))"

text \<open>In base 16 a \<open>0x\<close> before a digit is skipped.\<close>

fun skip_0x :: "nat \<Rightarrow> string \<Rightarrow> string" where
  "skip_0x base (z # x # d # s) =
     (if base = 16 \<and> z = CHR ''0'' \<and> (x = CHR ''x'' \<or> x = CHR ''X'') \<and> is_digit 16 d then d # s
      else z # x # d # s)"
| "skip_0x base s = s"

definition stoi :: "nat \<Rightarrow> string \<Rightarrow> int result" where
  "stoi base s =
     (let (sign, rest) = split_sign (dropWhile is_space s);
          ds = takeWhile (is_digit base) (skip_0x base rest);
          v = sign * int (digits_value base ds)
      in if ds = [] then Inl Invalid_Argument
         else if v < -2147483648 \<or> v > 2147483647 then Inl Out_Of_Range
         else Inr v)"

definition digit_char :: "nat \<Rightarrow> char" where
  "digit_char d = char_of (d + 48)"

fun to_string_nat :: "nat \<Rightarrow> string" where
  "to_string_nat n =
     (if n < 10 then [digit_char n] else to_string_nat (n div 10) @ [digit_char (n mod 10)])"

declare to_string_nat.simps [simp del]

section \<open>The command line\<close>

record args =
  a_role :: string
  a_store_host :: string
  a_store_port :: u16
  a_bind_address :: string
  a_advertise_host :: string
  a_accounts_db :: string
  a_world_name :: string

definition default_args :: args where
  "default_args =
     \<lparr> a_role = [], a_store_host = ''127.0.0.1'', a_store_port = 3725,
       a_bind_address = ''0.0.0.0'', a_advertise_host = ''127.0.0.1'',
       a_accounts_db = ''accounts.db'', a_world_name = ''World-1'' \<rparr>"

definition value_after :: "string \<Rightarrow> string \<Rightarrow> string option" where
  "value_after prefix arg =
     (if take (length prefix) arg = prefix then Some (drop (length prefix) arg) else None)"

definition parse_arg :: "string \<Rightarrow> args \<Rightarrow> args result" where
  "parse_arg arg a =
     (case value_after ''--role='' arg of Some v \<Rightarrow> Inr (a\<lparr>a_role := v\<rparr>) | None \<Rightarrow>
      case value_after ''--store-host='' arg of Some v \<Rightarrow> Inr (a\<lparr>a_store_host := v\<rparr>) | None \<Rightarrow>
      case value_after ''--store-port='' arg of
        Some v \<Rightarrow> bind_result (stoi 10 v) (\<lambda>n. Inr (a\<lparr>a_store_port := word_of_int n\<rparr>)) | None \<Rightarrow>
      case value_after ''--bind='' arg of Some v \<Rightarrow> Inr (a\<lparr>a_bind_address := v\<rparr>) | None \<Rightarrow>
      case value_after ''--advertise-host='' arg of
        Some v \<Rightarrow> Inr (a\<lparr>a_advertise_host := v\<rparr>) | None \<Rightarrow>
      case value_after ''--accounts-db='' arg of Some v \<Rightarrow> Inr (a\<lparr>a_accounts_db := v\<rparr>) | None \<Rightarrow>
      case value_after ''--world-name='' arg of Some v \<Rightarrow> Inr (a\<lparr>a_world_name := v\<rparr>) | None \<Rightarrow>
      Inr a)"

fun parse_loop :: "string list \<Rightarrow> args \<Rightarrow> args result" where
  "parse_loop [] a = Inr a"
| "parse_loop (arg # argv) a = bind_result (parse_arg arg a) (parse_loop argv)"

definition parse_args :: "string list \<Rightarrow> args option result" where
  "parse_args argv =
     bind_result (parse_loop argv default_args) (\<lambda>a.
       if a_role a \<noteq> ''master'' \<and> a_role a \<noteq> ''login'' \<and> a_role a \<noteq> ''world'' then Inr None
       else Inr (Some a))"

text \<open>What \<open>main\<close> does with the arguments: the usage and exit code 1, or the service of the role.\<close>

datatype started = Usage | Run_Master args | Run_Login args | Run_World args

definition main_dispatch :: "string list \<Rightarrow> started result" where
  "main_dispatch argv =
     bind_result (parse_args argv) (\<lambda>r.
       case r of
         None \<Rightarrow> Inr Usage
       | Some a \<Rightarrow>
           if a_role a = ''master'' then Inr (Run_Master a)
           else if a_role a = ''login'' then Inr (Run_Login a)
           else Inr (Run_World a))"

section \<open>The secret\<close>

text \<open>\<open>None\<close> in the result is \<open>std::exit(1)\<close>.\<close>

fun load_bytes :: "nat \<Rightarrow> string \<Rightarrow> bytes result" where
  "load_bytes 0 env = Inr []"
| "load_bytes (Suc n) env =
     bind_result (stoi 16 (take 2 env)) (\<lambda>v.
     bind_result (load_bytes n (drop 2 env)) (\<lambda>bs. Inr (word_of_int v # bs)))"

definition load_hmac_secret :: "string option \<Rightarrow> bytes option result" where
  "load_hmac_secret env =
     (case env of
        None \<Rightarrow> Inr None
      | Some s \<Rightarrow>
          if length s \<noteq> 64 then Inr None
          else bind_result (load_bytes 32 s) (\<lambda>key. Inr (Some key)))"

section \<open>Services\<close>

definition kLoginPort :: u16 where "kLoginPort = 3726"
definition kTcpPort :: u16 where "kTcpPort = 8085"

definition login_registry_key :: "args \<Rightarrow> string" where
  "login_registry_key a = kLoginPrefix @ a_advertise_host a @ '':'' @ to_string_nat (unat kLoginPort)"

definition login_announcement :: "endian \<Rightarrow> args \<Rightarrow> bytes" where
  "login_announcement e a = encode_login_info e \<lparr>li_host = a_advertise_host a, li_port = kLoginPort\<rparr>"

definition world_registry_key :: "args \<Rightarrow> string" where
  "world_registry_key a = kWorldPrefix @ a_advertise_host a @ '':'' @ to_string_nat (unat kTcpPort)"

definition world_announcement :: "endian \<Rightarrow> args \<Rightarrow> nat \<Rightarrow> bytes" where
  "world_announcement e a active =
     encode_world_info e \<lparr>wi_host = a_advertise_host a, wi_port = kTcpPort,
       wi_name = a_world_name a, wi_population = word_of_nat active\<rparr>"

text \<open>
  The sweep every 30 seconds, over its turns: what the others do to the store while the timer
  waits, whether the wait ended without an error, and the clock readings of the sweep.
\<close>

record sweep_turn =
  st_others :: "shared_store \<Rightarrow> shared_store"
  st_timer_ok :: bool
  st_clock :: "nat \<Rightarrow> time"

fun master_sweep_loop :: "iteration \<Rightarrow> sweep_turn list \<Rightarrow> shared_store \<Rightarrow> shared_store" where
  "master_sweep_loop iter [] s = s"
| "master_sweep_loop iter (t # ts) s =
     (let s1 = st_others t s
      in if \<not> st_timer_ok t then s1
         else master_sweep_loop iter ts (snd (sweep_expired iter (st_clock t) s1)))"

section \<open>The secret is read back\<close>

lemma digit_value_digits: "i < 16 \<Longrightarrow> digit_value (digits ! i) = Some i"
proof -
  have "\<forall>i \<in> {..<16}. digit_value (digits ! i) = Some i"
    unfolding digits_def lessThan_nat_numeral lessThan_Suc_atMost pred_numeral_simps BitM.simps
    by code_simp
  then show "i < 16 \<Longrightarrow> digit_value (digits ! i) = Some i" by simp
qed

lemma digits_not_special: "i < 16 \<Longrightarrow> \<not> is_space (digits ! i) \<and> digits ! i \<noteq> CHR ''-'' \<and> digits ! i \<noteq> CHR ''+''"
  using digit_value_digits [of i] by (auto simp: digit_value_def is_space_def Let_def split: if_splits)

lemma stoi_hex_pair:
  assumes "i < 16" and "j < 16"
  shows "stoi 16 [digits ! i, digits ! j] = Inr (int (16 * i + j))"
  using assms digit_value_digits [of i] digit_value_digits [of j] digits_not_special [of i]
  by (simp add: stoi_def is_digit_def digits_value_def)

lemma load_bytes_to_hex: "load_bytes (length key) (to_hex key) = Inr key"
proof (induction key)
  case Nil
  then show ?case by simp
next
  case (Cons b key)
  let ?i = "unat (drop_bit 4 b)" and ?j = "unat (b AND 0x0F)"
  have "16 * ?i + ?j = unat b" unfolding unat_nibbles by simp
  then have "stoi 16 [digits ! ?i, digits ! ?j] = Inr (int (unat b))"
    using stoi_hex_pair [OF nibbles_less [of b]] by simp
  with Cons show ?case by (simp del: drop_bit_numeral_bit0)
qed

lemma load_secret_core: "length key = 32 \<Longrightarrow> load_hmac_secret (Some (to_hex key)) = Inr (Some key)"
  using load_bytes_to_hex [of key] by (simp add: load_hmac_secret_def length_to_hex)

section \<open>Numbers are read back\<close>

lemma digit_char_value: "d < 10 \<Longrightarrow> digit_value (digit_char d) = Some d"
  by (simp add: digit_char_def digit_value_def Let_def)

lemma digits_value_snoc:
  "digits_value b (s @ [c]) = b * digits_value b s + the (digit_value c)"
  by (simp add: digits_value_def)

lemma to_string_nat_digits:
  "to_string_nat n \<noteq> [] \<and> (\<forall>c \<in> set (to_string_nat n). is_digit 10 c) \<and>
     digits_value 10 (to_string_nat n) = n"
proof (induction n rule: to_string_nat.induct)
  case (1 n)
  show ?case
  proof (cases "n < 10")
    case True
    then show ?thesis
      by (simp add: to_string_nat.simps [of n] is_digit_def digit_char_value digits_value_def)
  next
    case False
    with 1 show ?thesis
      by (simp add: to_string_nat.simps [of n] is_digit_def digit_char_value digits_value_snoc)
  qed
qed

lemma is_digit_not_special:
  "is_digit b c \<Longrightarrow> \<not> is_space c \<and> c \<noteq> CHR ''-'' \<and> c \<noteq> CHR ''+'' \<and> c \<noteq> CHR ''x'' \<and> c \<noteq> CHR ''X''"
  by (auto simp: is_digit_def digit_value_def is_space_def Let_def split: option.splits if_splits)

lemma skip_0x_10 [simp]: "skip_0x 10 s = s"
  by (cases "(10 :: nat, s)" rule: skip_0x.cases) simp_all

lemma stoi_to_string:
  assumes "n \<le> 2147483647"
  shows "stoi 10 (to_string_nat n) = Inr (int n)"
proof -
  obtain c s where cs: "to_string_nat n = c # s"
    using to_string_nat_digits [of n] by (cases "to_string_nat n") auto
  have d: "\<forall>x \<in> set (c # s). is_digit 10 x" "digits_value 10 (c # s) = n"
    using to_string_nat_digits [of n] by (simp_all add: cs)
  then have "takeWhile (is_digit 10) (c # s) = c # s"
    by (simp only: takeWhile_eq_all_conv)
  moreover have "split_sign (dropWhile is_space (c # s)) = (1, c # s)"
    using is_digit_not_special [of 10 c] d(1) by simp
  ultimately show ?thesis
    using assms d(2) by (simp add: stoi_def cs)
qed

section \<open>Options are read back\<close>

text \<open>A command line with every option given.\<close>

definition argv_of :: "args \<Rightarrow> string list" where
  "argv_of a =
     [''--role='' @ a_role a, ''--store-host='' @ a_store_host a,
      ''--store-port='' @ to_string_nat (unat (a_store_port a)), ''--bind='' @ a_bind_address a,
      ''--advertise-host='' @ a_advertise_host a, ''--accounts-db='' @ a_accounts_db a,
      ''--world-name='' @ a_world_name a]"

lemma parse_args_core:
  assumes "a_role a \<in> {''master'', ''login'', ''world''}"
  shows "parse_args (argv_of a) = Inr (Some a)"
proof -
  have "unat (a_store_port a) \<le> 2147483647"
    by (rule order_trans [OF less_imp_le [OF unat_u16_less]]) simp
  then have "parse_loop (argv_of a) default_args = Inr a"
    by (simp add: argv_of_def parse_arg_def value_after_def stoi_to_string default_args_def)
  then show ?thesis using assms by (auto simp: parse_args_def)
qed

end
