(* ===== verification/Flow.thy ===== *)
theory Flow
  imports Master_Handler Login_Handler World_Handler Main_Cli
begin

text \<open>
  The hops of a client through the three servers: Login announces itself and Master redirects to
  it, Login accepts an honest client and issues a session token, World admits the token under
  the name that was proved. The last section holds a small concrete deployment (crypto, database,
  store, one account) in which these results apply.
\<close>

section \<open>From the heartbeat of Login to the redirection of Master\<close>

lemma login_registry_key_prefix: "key_has_prefix kLoginPrefix (login_registry_key a)"
  by (simp add: key_has_prefix_def login_registry_key_def)

lemma world_registry_key_prefix: "key_has_prefix kWorldPrefix (world_registry_key a)"
  by (simp add: key_has_prefix_def world_registry_key_def)

text \<open>
  Where the registry holds one Login and its last heartbeat is younger than the time to live,
  Master picks the address that Login announced.
\<close>

lemma announced_login_picked:
  assumes "is_iteration iter" and "wf_store s" and "length (a_advertise_host a) < 65536"
    and clk: "\<And>j. t \<le> clk j" "\<And>j. clk j \<le> t'"
    and at_start: "live t' s (login_registry_key a) = Some (login_announcement e a)"
    and only: "\<And>key v. key_has_prefix kLoginPrefix key \<Longrightarrow> live t s key = Some v \<Longrightarrow>
      key = login_registry_key a"
  shows "pick_login e iter clk s = Some \<lparr>li_host = a_advertise_host a, li_port = kLoginPort\<rparr>"
proof -
  let ?i = "\<lparr>li_host = a_advertise_host a, li_port = kLoginPort\<rparr>"
  have dec: "decode_login e (login_announcement e a) = Some ?i"
    unfolding login_announcement_def
    by (rule decode_login_encode) (simp add: login_info_fits_def assms(3))
  have "t \<le> t'" using clk order_trans by blast
  then have live: "live t s (login_registry_key a) = Some (login_announcement e a)"
    using live_antimono at_start by blast
  have "pick_login e iter clk s \<noteq> None"
  proof (rule pick_login_complete [OF assms(1,2) clk(1) clk(2) _ login_registry_key_prefix at_start])
    fix key v
    assume "key_has_prefix kLoginPrefix key" "live t s key = Some v"
    with only live dec show "decode_login e v \<noteq> None" by fastforce
  qed
  then obtain i where i: "pick_login e iter clk s = Some i" by blast
  then obtain key v where "key_has_prefix kLoginPrefix key" "live t s key = Some v"
      "decode_login e v = Some i"
    using pick_login_sound [OF assms(1,2) _ i, of t] clk(1) by blast
  with only live dec i show ?thesis by fastforce
qed

section \<open>An honest client logs in\<close>

lemma server_begin_widths:
  "bn_documented L \<Longrightarrow> server_begin E L rand v = Inr ch \<Longrightarrow> length (ch_B_bytes ch) = 256"
  by (rule B_length)

lemma client_proof_widths:
  assumes "bn_documented L" and "client_respond E L ra user pw salt B = Inr prf"
  shows "length (cp_A_bytes prf) = 256 \<and> length (cp_M1 prf) = 32"
  using client_respond_closed [OF assms] length_sha256 by (auto simp: kNBytes_def compute_M1_def)

lemma login_succeeds_core:
  assumes C: "login_connected C iter"
    and lib: "bn_documented (lc_bn C)" "sha256_available (lc_openssl C)"
    and reg: "compute_verifier_with_salt (lc_openssl C) (lc_bn C) user pw salt = Inr reg"
      "length salt < 65536"
    and h: "session_at h sid = new_login_session" "length user < 65536"
      "acc_find (lc_accounts C) (fst sid) user (lg_accounts h) =
         (Inr (Some \<lparr>ac_username = user, ac_salt = reg_salt reg, ac_verifier = reg_verifier reg\<rparr>), r)"
    and ticket: "rpc_key_ok ticket" "values_ok (sv_store (lg_world h))"
      "live (sv_now (lg_world h)) (sv_store (lg_world h)) ticket \<noteq> None"
    and c: "quiet c" "sent c = []"
    and step1: "login_on_message C sid (encode_client_hello (lc_endian C) ticket user) h c = (ex1, h1, c1)"
    and challenge: "sent c1 = frame (lc_endian C) msg" "login_decode (lc_endian C) msg = Some d"
    and client: "client_respond (lc_openssl C) (lc_bn C) ra user pw (l_salt d) (l_B d) = Inr prf"
      "compute_u (lc_openssl C) (lc_bn C) (cp_A_bytes prf) (l_B d) \<noteq> Inr 0"
    and h2: "session_at h2 sid = session_at h1 sid" "lg_rand h2 (lg_draws h2) = Some rnd" "length rnd = 16" "quiet c2"
      "rpc_put_ok (to_hex rnd) (bytes_of user) (lc_session_ttl C)"
      "listing_fits (world_listing iter (after_token C (to_hex rnd) user (lg_world h2)))"
    and step2: "login_on_message C sid
      (encode_client_proof (lc_endian C) (cp_A_bytes prf) (cp_M1 prf)) h2 c2 = (ex2, h3, c3)"
  shows "ex1 = None \<and> ex2 = None \<and> ls_stage (session_at h3 sid) = Done \<and>
    (\<exists>M2. client_verify_server (lc_openssl C) prf M2 = Inr True \<and>
       sent c3 = sent c2 @ frame (lc_endian C) (encode_server_proof (lc_endian C) M2 (to_hex rnd)) @
         frame (lc_endian C) (encode_world_list (lc_endian C) (worlds_of (lc_endian C)
           (world_listing iter (after_token C (to_hex rnd) user (lg_world h2)))))) \<and>
    live t (sv_store (lg_world h3)) = (live t (sv_store (lg_world h2)))
      (to_hex rnd := if t < sv_now (lg_world h2) + lc_session_ttl C * ns_per_second
                     then Some (bytes_of user) else None)"
proof -
  let ?a = "\<lparr>ac_username = user, ac_salt = reg_salt reg, ac_verifier = reg_verifier reg\<rparr>"
  have doc: "openssl_documented (lc_openssl C)"
    using C by (simp add: login_connected_def crypto_ok_def)
  obtain ch where ch: "server_begin (lc_openssl C) (lc_bn C) (lg_bn_rand h (lg_bn_draws h))
      (reg_verifier reg) = Inr ch"
    using server_begin_available [OF lib] by blast
  have "registration_for C (Some ?a) user (lg_rand h (lg_draws h)) = Inr reg"
    by (simp add: registration_for_def)
  from hello_core [OF C h(1) ticket h(2,3) this ch c(1) step1]
  have st: "session_at h1 sid = \<lparr>ls_stage = AwaitingProof, ls_username = user, ls_challenge = Some ch\<rparr>"
      and ex1: "ex1 = None"
      and c1: "sent c1 = frame (lc_endian C) (encode_server_challenge (lc_endian C) (reg_salt reg) (ch_B_bytes ch))"
    by (auto simp: c(2))
  have salt: "reg_salt reg = salt" using compute_verifier_closed [OF lib(1) reg(1)] by auto
  have msg: "msg = encode_server_challenge (lc_endian C) (reg_salt reg) (ch_B_bytes ch)"
    using challenge(1) c1 by (simp add: frame_def append_eq_append_conv)
  then have d: "l_salt d = reg_salt reg" "l_B d = ch_B_bytes ch"
    using challenge(2) login_decode_encode [of "MChallenge (reg_salt reg) (ch_B_bytes ch)" "lc_endian C" "[]"]
      B_length [OF lib(1) ch] reg(2) salt by (auto simp: login_decoded_init_def)
  obtain M2 where acc: "server_verify (lc_openssl C) (lc_bn C) ch (cp_A_bytes prf) (cp_M1 prf) =
        Inr \<lparr> sr_ok = True, sr_K = cp_K prf, sr_M2 = M2 \<rparr>"
      and M2: "client_verify_server (lc_openssl C) prf M2 = Inr True"
    using srp_agreement_core [OF lib(1) doc lib(2) reg(1) ch] client d by auto
  have "proof_accepted C ch (cp_A_bytes prf) (cp_M1 prf) \<lparr> sr_ok = True, sr_K = cp_K prf, sr_M2 = M2 \<rparr>"
    using acc by (simp add: proof_accepted_def)
  note fin = proof_core [OF C _ this _ _ h2(2,3,5,6,4) step2, unfolded h2(1), OF st]
  show ?thesis
    using fin client_proof_widths [OF lib(1) client(1)] ex1 M2 by auto
qed

section \<open>The session token opens World\<close>

lemma token_opens_world_core:
  assumes "crypto_ok E hk" and "rpc_key_ok token" and "values_ok (sv_store (wd_world h))"
    and "unauthenticated h sid"
    and "live (sv_now (wd_world h)) (sv_store (wd_world h)) token = Some (bytes_of user)"
    and "world_at e E hk iter sid (bytes_of token) h c = (ex, h', c')"
  shows "ex = None \<and> authenticated_as h' sid user \<and> c' = c"
  using world_at_first [OF assms(1) _ assms(4,6)] assms(2,3,5) by (simp add: token_ok_def)

end
