(* ===== verification/Cluster.thy ===== *)
theory Cluster
  imports Flow
begin

text \<open>
  The processes together: one Master with its store, any number of Login and World processes that
  reach the store through their clients, and clients that send them anything in any order. A step
  is one message at one process, one heartbeat, one sweep, or a change of the accounts from
  outside. The log keeps what the property needs to remember: which challenge was made from which
  answer of the database, and which proofs were accepted. The main result: a user name under which
  World runs a session was proved to a Login before, with the exceptions that the code allows
  (a ticket of Master or an entry of the registry shown in place of a token).
\<close>

section \<open>The state\<close>

text \<open>
  The store lives in Master; the copies in the states of the handlers are replaced by it before
  a step and read back after it.
\<close>

record 'r cluster =
  cl_store :: store_server
  cl_master :: master_server
  cl_login :: "nat \<Rightarrow> (store_server, 'r) login_server"
  cl_world :: "nat \<Rightarrow> store_server world_server"

datatype event =
    Challenged nat "nat \<times> nat" string "account_record option" server_challenge
  | Proved nat "nat \<times> nat" string server_challenge bytes bytes

definition login_view :: "'r cluster \<Rightarrow> nat \<Rightarrow> (store_server, 'r) login_server" where
  "login_view s i = (cl_login s i)\<lparr>lg_world := cl_store s\<rparr>"

definition world_view :: "'r cluster \<Rightarrow> nat \<Rightarrow> store_server world_server" where
  "world_view s j = (cl_world s j)\<lparr>wd_world := cl_store s\<rparr>"

definition master_view :: "'r cluster \<Rightarrow> master_server" where
  "master_view s = (cl_master s)\<lparr>ms_sv := cl_store s\<rparr>"

definition login_back :: "nat \<Rightarrow> (store_server, 'r) login_server \<Rightarrow> 'r cluster \<Rightarrow> 'r cluster" where
  "login_back i h s = s\<lparr>cl_store := lg_world h, cl_login := (cl_login s)(i := h)\<rparr>"

definition world_back :: "nat \<Rightarrow> store_server world_server \<Rightarrow> 'r cluster \<Rightarrow> 'r cluster" where
  "world_back j h s = s\<lparr>cl_store := wd_world h, cl_world := (cl_world s)(j := h)\<rparr>"

definition master_back :: "master_server \<Rightarrow> 'r cluster \<Rightarrow> 'r cluster" where
  "master_back m s = s\<lparr>cl_store := ms_sv m, cl_master := m\<rparr>"

section \<open>What a message to Login adds to the log\<close>

text \<open>A hello that ends in a challenge, with what the database answered for the username.\<close>

definition challenge_events :: "(store_server, 'r) login_config \<Rightarrow> nat \<Rightarrow> nat \<times> nat \<Rightarrow> bytes
    \<Rightarrow> (store_server, 'r) login_server \<Rightarrow> (store_server, 'r) login_server \<Rightarrow> event list" where
  "challenge_events C i sid p h h' =
     (case (login_decode (lc_endian C) p, ls_challenge (session_at h' sid)) of
        (Some d, Some ch) \<Rightarrow>
          if ls_stage (session_at h sid) = AwaitingHello \<and> ls_stage (session_at h' sid) = AwaitingProof
          then (case fst (acc_find (lc_accounts C) (fst sid) (l_username d) (lg_accounts h)) of
                  Inl _ \<Rightarrow> []
                | Inr account \<Rightarrow> [Challenged i sid (l_username d) account ch])
          else []
      | _ \<Rightarrow> [])"

text \<open>A proof that \<open>server_verify\<close> accepts for the challenge of the session.\<close>

definition proof_events :: "(store_server, 'r) login_config \<Rightarrow> nat \<Rightarrow> nat \<times> nat \<Rightarrow> bytes
    \<Rightarrow> (store_server, 'r) login_server \<Rightarrow> event list" where
  "proof_events C i sid p h =
     (case (login_decode (lc_endian C) p, ls_challenge (session_at h sid)) of
        (Some d, Some ch) \<Rightarrow>
          if ls_stage (session_at h sid) = AwaitingProof \<and>
             (case server_verify (lc_openssl C) (lc_bn C) ch (l_A d) (l_M1 d) of
                Inl _ \<Rightarrow> False | Inr res \<Rightarrow> sr_ok res)
          then [Proved i sid (ls_username (session_at h sid)) ch (l_A d) (l_M1 d)]
          else []
      | _ \<Rightarrow> [])"

section \<open>Steps\<close>

inductive cluster_step :: "(store_server, 'r) login_config \<Rightarrow> iteration \<Rightarrow> int
    \<Rightarrow> 'r cluster \<Rightarrow> event list \<Rightarrow> 'r cluster \<Rightarrow> bool"
  for C iter ticket_ttl where
  to_master: "\<lbrakk>length p \<le> read_buffer_bytes Master;
     master_on_message (lc_endian C) iter ticket_ttl p (master_view s) c = (ex, m, c')\<rbrakk> \<Longrightarrow>
     cluster_step C iter ticket_ttl s [] (master_back m s)"
| to_login: "\<lbrakk>length p \<le> read_buffer_bytes Login;
     login_on_message C sid p (login_view s i) c = (ex, h, c')\<rbrakk> \<Longrightarrow>
     cluster_step C iter ticket_ttl s
       (challenge_events C i sid p (login_view s i) h @ proof_events C i sid p (login_view s i))
       (login_back i h s)"
| login_gone: "cluster_step C iter ticket_ttl s [] (login_back i (login_on_disconnect sid (login_view s i)) s)"
| to_world: "\<lbrakk>length p \<le> read_buffer_bytes World;
     world_at (lc_endian C) (lc_openssl C) (lc_store_key C) iter sid p (world_view s j) c = (ex, h, c')\<rbrakk> \<Longrightarrow>
     cluster_step C iter ticket_ttl s [] (world_back j h s)"
| world_gone: "cluster_step C iter ticket_ttl s [] (world_back j (world_on_disconnect sid (world_view s j)) s)"
| login_beat: "\<lbrakk>length (a_advertise_host a) < 65536;
     client_put (lc_endian C) (lc_openssl C) (lc_store_key C)
       (loopback (lc_endian C) (lc_openssl C) (lc_store_key C) iter)
       (login_registry_key a) (login_announcement (lc_endian C) a) heartbeat_ttl (cl_store s) = (res, sv)\<rbrakk> \<Longrightarrow>
     cluster_step C iter ticket_ttl s [] (s\<lparr>cl_store := sv\<rparr>)"
| world_beat: "\<lbrakk>length (a_advertise_host a) < 65536; length (a_world_name a) < 65536;
     client_put (lc_endian C) (lc_openssl C) (lc_store_key C)
       (loopback (lc_endian C) (lc_openssl C) (lc_store_key C) iter)
       (world_registry_key a) (world_announcement (lc_endian C) a n) heartbeat_ttl (cl_store s) = (res, sv)\<rbrakk> \<Longrightarrow>
     cluster_step C iter ticket_ttl s [] (s\<lparr>cl_store := sv\<rparr>)"
| sweep: "cluster_step C iter ticket_ttl s []
     (s\<lparr>cl_store := (cl_store s)\<lparr>sv_store := snd (sweep_expired iter clk (sv_store (cl_store s)))\<rparr>\<rparr>)"
| accounts: "cluster_step C iter ticket_ttl s []
     (s\<lparr>cl_login := (cl_login s)(i := (cl_login s i)\<lparr>lg_accounts := r\<rparr>)\<rparr>)"

text \<open>All processes start without sessions, and the store of a Master is empty at its start.\<close>

inductive cluster_reachable :: "(store_server, 'r) login_config \<Rightarrow> iteration \<Rightarrow> int
    \<Rightarrow> event list \<Rightarrow> 'r cluster \<Rightarrow> bool"
  for C iter ticket_ttl where
  start: "\<lbrakk>sv_store (cl_store s) = empty_store; \<And>i. lg_sessions (cl_login s i) = Map.empty;
     \<And>j. wd_sessions (cl_world s j) = Map.empty\<rbrakk> \<Longrightarrow> cluster_reachable C iter ticket_ttl [] s"
| step: "\<lbrakk>cluster_reachable C iter ticket_ttl log s; cluster_step C iter ticket_ttl s evs s'\<rbrakk> \<Longrightarrow>
     cluster_reachable C iter ticket_ttl (log @ evs) s'"

section \<open>What the log says of a user\<close>

text \<open>The challenge was made from the registration of that answer of the database.\<close>

definition challenge_from :: "('w, 'r) login_config \<Rightarrow> string \<Rightarrow> account_record option
    \<Rightarrow> server_challenge \<Rightarrow> bool" where
  "challenge_from C u account ch \<longleftrightarrow>
     (\<exists>rnd reg rb. registration_for C account u rnd = Inr reg \<and>
        server_begin (lc_openssl C) (lc_bn C) rb (reg_verifier reg) = Inr ch)"

definition challenged :: "('w, 'r) login_config \<Rightarrow> event list \<Rightarrow> string \<Rightarrow> server_challenge \<Rightarrow> bool" where
  "challenged C log u ch \<longleftrightarrow>
     (\<exists>i sid account. Challenged i sid u account ch \<in> set log \<and> challenge_from C u account ch)"

definition proved :: "('w, 'r) login_config \<Rightarrow> event list \<Rightarrow> string \<Rightarrow> bool" where
  "proved C log u \<longleftrightarrow>
     (\<exists>before i sid ch A M1 after res. log = before @ Proved i sid u ch A M1 # after \<and>
        proof_accepted C ch A M1 res \<and> challenged C before u ch)"

text \<open>The values that may stand in the store.\<close>

definition earned :: "('w, 'r) login_config \<Rightarrow> event list \<Rightarrow> bytes \<Rightarrow> bool" where
  "earned C log v \<longleftrightarrow>
     v = [] \<or> (\<exists>a. v = login_announcement (lc_endian C) a) \<or>
     (\<exists>a n. v = world_announcement (lc_endian C) a n) \<or>
     (\<exists>u. v = bytes_of u \<and> proved C log u)"

lemma challengedI:
  "Challenged i sid u account ch \<in> set log \<Longrightarrow> challenge_from C u account ch \<Longrightarrow> challenged C log u ch"
  unfolding challenged_def by blast

lemma challenged_append: "challenged C log u ch \<Longrightarrow> challenged C (log @ evs) u ch"
  unfolding challenged_def by (metis UnCI set_append)

lemma proved_append: "proved C log u \<Longrightarrow> proved C (log @ evs) u"
  unfolding proved_def by (metis append.assoc append_Cons)

lemma proved_now:
  "challenged C log u ch \<Longrightarrow> proof_accepted C ch A M1 res \<Longrightarrow>
     proved C (log @ [Proved i sid u ch A M1]) u"
  unfolding proved_def by blast

lemma earned_append: "earned C log v \<Longrightarrow> earned C (log @ evs) v"
  unfolding earned_def using proved_append by blast

lemma earned_nil [simp]: "earned C log []"
  by (simp add: earned_def)


section \<open>The invariant\<close>

definition session_logged :: "('w, 'r) login_config \<Rightarrow> event list \<Rightarrow> login_session \<Rightarrow> bool" where
  "session_logged C log st \<longleftrightarrow>
     length (ls_username st) < 65536 \<and>
     (ls_stage st \<noteq> AwaitingHello \<longrightarrow>
        (\<exists>ch. ls_challenge st = Some ch \<and> challenged C log (ls_username st) ch))"

definition good_value :: "('w, 'r) login_config \<Rightarrow> event list \<Rightarrow> bytes \<Rightarrow> bool" where
  "good_value C log v \<longleftrightarrow> rpc_value_ok v \<and> earned C log v"

definition cluster_inv :: "(store_server, 'r) login_config \<Rightarrow> event list \<Rightarrow> 'r cluster \<Rightarrow> bool" where
  "cluster_inv C log s \<longleftrightarrow>
     all_values (good_value C log) (sv_store (cl_store s)) \<and>
     (\<forall>i sid. session_logged C log (session_at (cl_login s i) sid)) \<and>
     (\<forall>j sid u. authenticated_as (cl_world s j) sid u \<longrightarrow> (\<exists>v. u = string_of v \<and> earned C log v))"

lemma session_logged_new [simp]: "session_logged C log new_login_session"
  by (simp add: session_logged_def new_login_session_def)

lemma session_logged_append: "session_logged C log st \<Longrightarrow> session_logged C (log @ evs) st"
  by (auto simp: session_logged_def dest: challenged_append)

lemma good_value_append: "good_value C log v \<Longrightarrow> good_value C (log @ evs) v"
  by (simp add: good_value_def earned_append)

lemma good_value_nil [simp]: "good_value C log []"
  by (simp add: good_value_def rpc_value_ok_def kMaxResponseBytes_def)

lemma cluster_inv_values_ok: "cluster_inv C log s \<Longrightarrow> values_ok (sv_store (cl_store s))"
  by (auto simp: cluster_inv_def values_ok_def good_value_def elim: all_values_mono)

lemma view_simps [simp]:
  "session_at (login_view s i) sid = session_at (cl_login s i) sid"
  "lg_world (login_view s i) = cl_store s"
  "wd_world (world_view s j) = cl_store s" "ms_sv (master_view s) = cl_store s"
  "authenticated_as (world_view s j) sid u = authenticated_as (cl_world s j) sid u"
  by (simp_all add: login_view_def world_view_def master_view_def authenticated_as_def)

text \<open>A step that touches the store alone.\<close>

lemma cluster_inv_store:
  assumes "cluster_inv C log s" and "all_values (good_value C log) (sv_store sv)"
  shows "cluster_inv C log (s\<lparr>cl_store := sv\<rparr>)"
  using assms by (simp add: cluster_inv_def)

section \<open>Each step keeps the invariant\<close>

lemma master_store_effect:
  assumes "master_on_message e iter ttl p m c = (ex, m', c')"
  shows "sv_store (ms_sv m') = sv_store (ms_sv m) \<or>
    (\<exists>k now. sv_store (ms_sv m') = store_put k [] ttl now (sv_store (ms_sv m)))"
proof (cases "pick_login e iter (sv_clock_from (ms_sv m)) (sv_store (ms_sv m))")
  case (Some li)
  with assms show ?thesis
    by (cases "generate_token_hex (ms_rand m (ms_draws m))")
      (auto simp: master_on_message_def Let_def, blast)
qed (use assms in \<open>auto simp: master_on_message_def Let_def\<close>)

lemma inv_to_master:
  assumes "cluster_inv C log s"
    and "master_on_message (lc_endian C) iter ttl p (master_view s) c = (ex, m, c')"
  shows "cluster_inv C log (master_back m s)"
  using assms master_store_effect [OF assms(2)]
  by (auto simp: cluster_inv_def master_back_def all_values_put)

lemma login_step_sessions:
  assumes "login_on_message C sid p h c = (ex, h', c')" and "session_logged C log (session_at h sid)"
  shows "session_logged C (log @ challenge_events C i sid p h h' @ evs) (session_at h' sid)"
proof (cases "session_at h' sid = session_at h sid")
  case True
  then show ?thesis using session_logged_append [OF assms(2)] by simp
next
  case False
  let ?st = "session_at h sid" and ?h = "set_session sid (session_at h sid) h"
  from False login_on_message_split [OF assms(1)] obtain d where
    d: "login_decode (lc_endian C) p = Some d" and
    cases: "ls_stage ?st = AwaitingHello \<and>
       handle_hello C sid ?st (l_ticket d) (l_username d) ?h c = (ex, h', c') \<or>
     ls_stage ?st = AwaitingProof \<and> handle_proof C sid ?st (l_A d) (l_M1 d) ?h c = (ex, h', c')"
    by auto
  have sess: "lg_sessions ?h sid = Some ?st" by (simp add: set_session_def)
  from cases show ?thesis
  proof
    assume greet: "ls_stage ?st = AwaitingHello \<and>
       handle_hello C sid ?st (l_ticket d) (l_username d) ?h c = (ex, h', c')"
    have "lg_sessions h' \<noteq> lg_sessions ?h"
      using False sess by (auto simp: session_at_def)
    from handle_hello_challenge [OF conjunct2 [OF greet] this] obtain account r reg ch where
      f: "acc_find (lc_accounts C) (fst sid) (l_username d) (lg_accounts h) = (Inr account, r)" and
      ch: "registration_for C account (l_username d) (lg_rand h (lg_draws h)) = Inr reg"
        "server_begin (lc_openssl C) (lc_bn C) (lg_bn_rand h (lg_bn_draws h)) (reg_verifier reg) = Inr ch" and
      st: "session_at h' sid = ?st\<lparr>ls_username := l_username d, ls_challenge := Some ch,
         ls_stage := AwaitingProof\<rparr>"
      by (auto simp: session_at_def set_session_def)
    have "challenge_events C i sid p h h' = [Challenged i sid (l_username d) account ch]"
      using greet by (simp add: challenge_events_def d st f)
    moreover have "challenge_from C (l_username d) account ch"
      using ch by (auto simp: challenge_from_def)
    ultimately have "challenged C (log @ challenge_events C i sid p h h' @ evs) (l_username d) ch"
      by (intro challengedI [of i sid]) simp_all
    then show ?thesis
      using login_decode_widths [OF d] by (auto simp: session_logged_def st)
  next
    assume answer: "ls_stage ?st = AwaitingProof \<and>
      handle_proof C sid ?st (l_A d) (l_M1 d) ?h c = (ex, h', c')"
    then have "session_at h' sid = ?st\<lparr>ls_stage := Done\<rparr>"
      using False sess by (auto simp: session_at_def elim!: handle_proof_cases)
    with answer assms(2) session_logged_append show ?thesis
      by (force simp: session_logged_def dest: challenged_append)
  qed
qed


lemma login_step_store:
  assumes C: "login_connected C iter" and log: "session_logged C log (session_at h sid)"
    and vals: "all_values (good_value C log) (sv_store (lg_world h))"
    and step: "login_on_message C sid p h c = (ex, h', c')"
  shows "all_values (good_value C (log @ evs @ proof_events C i sid p h)) (sv_store (lg_world h'))"
proof -
  let ?log = "log @ evs @ proof_events C i sid p h" and ?u = "ls_username (session_at h sid)"
  from vals have old: "all_values (good_value C ?log) (sv_store (lg_world h))"
    by (rule all_values_mono) (rule good_value_append)
  from vals have "values_ok (sv_store (lg_world h))"
    by (auto simp: values_ok_def good_value_def elim: all_values_mono)
  moreover from log have "length ?u < 65536" by (simp add: session_logged_def)
  ultimately consider (same) "sv_store (lg_world h') = sv_store (lg_world h)"
    | (taken) key where
      "sv_store (lg_world h') = snd (store_take key (sv_now (lg_world h)) (sv_store (lg_world h)))"
    | (put) d ch res token where "ls_stage (session_at h sid) = AwaitingProof"
      "login_decode (lc_endian C) p = Some d" "ls_challenge (session_at h sid) = Some ch"
      "proof_accepted C ch (l_A d) (l_M1 d) res" "44 + length token + length ?u \<le> 4096"
      "sv_store (lg_world h') = store_put token (bytes_of ?u)
         (lc_session_ttl C) (sv_now (lg_world h)) (sv_store (lg_world h))"
    using login_store_effect [OF C _ _ step] by blast
  then show ?thesis
  proof cases
    case put
    then have "proof_events C i sid p h = [Proved i sid ?u ch (l_A d) (l_M1 d)]"
      by (simp add: proof_events_def proof_accepted_def)
    moreover have "challenged C (log @ evs) ?u ch"
      using log put(1,3) challenged_append by (auto simp: session_logged_def)
    ultimately have "proved C ?log ?u"
      using proved_now [OF _ put(4)] by (metis append.assoc)
    moreover have "rpc_value_ok (bytes_of ?u)"
      using put(5) by (simp add: rpc_value_ok_def kMaxResponseBytes_def)
    ultimately have "good_value C ?log (bytes_of ?u)"
      by (auto simp: good_value_def earned_def)
    with old show ?thesis by (simp add: put(6) all_values_put)
  qed (use old in \<open>simp_all add: all_values_take\<close>)
qed

lemma inv_to_login:
  assumes C: "login_connected C iter" and inv: "cluster_inv C log s"
    and step: "login_on_message C sid p (login_view s i) c = (ex, h, c')"
  shows "cluster_inv C (log @ challenge_events C i sid p (login_view s i) h @
    proof_events C i sid p (login_view s i)) (login_back i h s)"
proof -
  let ?evs = "challenge_events C i sid p (login_view s i) h @ proof_events C i sid p (login_view s i)"
  have log: "session_logged C log (session_at (login_view s i) sid)"
    using inv unfolding cluster_inv_def view_simps by blast
  have vals: "all_values (good_value C log) (sv_store (lg_world (login_view s i)))"
    using inv by (simp add: cluster_inv_def)
  have store: "all_values (good_value C (log @ ?evs)) (sv_store (lg_world h))"
    by (rule login_step_store [OF C log vals step])
  have mine: "session_logged C (log @ ?evs) (session_at h sid)"
    by (rule login_step_sessions [OF step log])
  have others: "session_at h sid' = session_at (cl_login s i) sid'" if "sid' \<noteq> sid" for sid'
    using login_message_other [OF step] that by simp
  have "session_logged C (log @ ?evs) (session_at h sid')" for sid'
    using mine others inv session_logged_append unfolding cluster_inv_def by metis
  then show ?thesis
    using store inv session_logged_append earned_append
    unfolding cluster_inv_def login_back_def by (simp del: split_paired_All) blast
qed


lemma inv_to_world:
  assumes C: "login_connected C iter" and inv: "cluster_inv C log s"
    and p: "length p \<le> read_buffer_bytes World"
    and step: "world_at (lc_endian C) (lc_openssl C) (lc_store_key C) iter sid p (world_view s j) c = (ex, h, c')"
  shows "cluster_inv C log (world_back j h s)"
proof -
  let ?h = "world_view s j"
  have others: "authenticated_as h sid' u \<longleftrightarrow> authenticated_as (cl_world s j) sid' u" if "sid' \<noteq> sid" for sid' u
    using other_sessions_untouched [OF that step [unfolded world_at_def]]
    by (simp add: authenticated_as_def world_view_def)
  have "all_values (good_value C log) (sv_store (wd_world h)) \<and>
      (\<forall>u. authenticated_as h sid u \<longrightarrow> (\<exists>v. u = string_of v \<and> earned C log v))"
  proof (cases "unauthenticated ?h sid")
    case True
    obtain res w where take: "client_take (lc_endian C) (lc_openssl C) (lc_store_key C)
        (loopback (lc_endian C) (lc_openssl C) (lc_store_key C) iter) (string_of p) (cl_store s) = (res, w)"
      by force
    then have take': "client_take (lc_endian C) (lc_openssl C) (lc_store_key C)
        (loopback (lc_endian C) (lc_openssl C) (lc_store_key C) iter) (string_of p) (wd_world ?h) = (res, w)"
      by simp
    from world_first_message [OF True take' step [unfolded world_at_def]]
    have w: "wd_world h = w" and
      user: "\<And>u. authenticated_as h sid u \<Longrightarrow> \<exists>v. res = Inr (Some v) \<and> u = string_of v"
      by (auto simp: authenticated_as_def unauthenticated_def split: sum.splits option.splits)
    have crypto: "crypto_ok (lc_openssl C) (lc_store_key C)" using C by (simp add: login_connected_def)
    have key: "length (string_of p) < 65536" using p by simp
    note effect = client_take_effect [OF crypto cluster_inv_values_ok [OF inv] key take]
    have vals: "all_values (good_value C log) (sv_store (cl_store s))"
      using inv by (simp add: cluster_inv_def)
    have "all_values (good_value C log) (sv_store w)"
      using effect(1) vals all_values_take by metis
    moreover have "earned C log v" if "res = Inr (Some v)" for v
      using all_values_live [OF vals effect(2) [OF that]] by (simp add: good_value_def)
    ultimately show ?thesis using user w by blast
  next
    case False
    then obtain u where u: "authenticated_as ?h sid u" by (auto simp: unauthenticated_def)
    from authenticated_stays [OF u step [unfolded world_at_def]] u
    have "wd_world h = cl_store s" "\<And>u'. authenticated_as h sid u' \<longleftrightarrow> authenticated_as (cl_world s j) sid u'"
      by (auto simp: authenticated_as_def world_view_def)
    then show ?thesis using inv unfolding cluster_inv_def by (simp del: split_paired_All)
  qed
  then show ?thesis
    using others inv unfolding cluster_inv_def world_back_def by (simp del: split_paired_All) metis
qed

lemma put_keeps_inv:
  assumes "login_connected C iter" and "cluster_inv C log s" and "earned C log v"
    and "length key + length v < 1000000"
    and "client_put (lc_endian C) (lc_openssl C) (lc_store_key C)
       (loopback (lc_endian C) (lc_openssl C) (lc_store_key C) iter) key v heartbeat_ttl (cl_store s) = (res, sv)"
  shows "cluster_inv C log (s\<lparr>cl_store := sv\<rparr>)"
proof (rule cluster_inv_store [OF assms(2)])
  have "crypto_ok (lc_openssl C) (lc_store_key C)" using assms(1) by (simp add: login_connected_def)
  from client_put_effect [OF this assms(4) _ _ assms(5)]
  have "sv_store sv = sv_store (cl_store s) \<or> 44 + length key + length v \<le> 4096 \<and>
      sv_store sv = store_put key v heartbeat_ttl (sv_now (cl_store s)) (sv_store (cl_store s))"
    by (simp add: heartbeat_ttl_def)
  moreover have "all_values (good_value C log) (sv_store (cl_store s))"
    using assms(2) by (simp add: cluster_inv_def)
  ultimately show "all_values (good_value C log) (sv_store sv)"
    using assms(3) by (auto simp: good_value_def rpc_value_ok_def kMaxResponseBytes_def intro!: all_values_put)
qed


lemma login_entry_short:
  "length (a_advertise_host a) < 65536 \<Longrightarrow>
     length (login_registry_key a) + length (login_announcement e a) < 1000000"
  by (simp add: login_registry_key_def login_announcement_def encode_login_info_def kLoginPrefix_def
      kLoginPort_def writer_simps to_string_nat.simps [of 3726] to_string_nat.simps [of 372]
      to_string_nat.simps [of 37] to_string_nat.simps [of 3])

lemma world_entry_short:
  "length (a_advertise_host a) < 65536 \<Longrightarrow> length (a_world_name a) < 65536 \<Longrightarrow>
     length (world_registry_key a) + length (world_announcement e a n) < 1000000"
  by (simp add: world_registry_key_def world_announcement_def encode_world_info_def kWorldPrefix_def
      kTcpPort_def writer_simps to_string_nat.simps [of 8085] to_string_nat.simps [of 808]
      to_string_nat.simps [of 80] to_string_nat.simps [of 8])

lemma cluster_inv_step:
  assumes C: "login_connected C iter" "is_iteration iter" and inv: "cluster_inv C log s"
    and step: "cluster_step C iter ttl s evs s'"
  shows "cluster_inv C (log @ evs) s'"
  using step
proof cases
  case to_master
  then show ?thesis using inv_to_master [OF inv] by simp
next
  case to_login
  then show ?thesis using inv_to_login [OF C(1) inv] by simp
next
  case (login_gone i sid)
  then show ?thesis
    using inv unfolding cluster_inv_def
    by (simp add: login_back_def login_on_disconnect_def session_at_def login_view_def
        del: split_paired_All)
next
  case to_world
  then show ?thesis using inv_to_world [OF C(1) inv] by simp
next
  case (world_gone j sid)
  then show ?thesis
    using inv unfolding cluster_inv_def
    by (auto simp: world_back_def world_on_disconnect_def authenticated_as_def world_view_def
        simp del: split_paired_All)
next
  case (login_beat a res sv)
  have "earned C log (login_announcement (lc_endian C) a)" by (auto simp: earned_def)
  from put_keeps_inv [OF C(1) inv this _ login_beat(4)] login_beat(1-3) login_entry_short [of a]
  show ?thesis by simp
next
  case (world_beat a n res sv)
  have "earned C log (world_announcement (lc_endian C) a n)" by (auto simp: earned_def)
  from put_keeps_inv [OF C(1) inv this _ world_beat(5)] world_beat(1-4) world_entry_short [of a]
  show ?thesis by simp
next
  case (sweep clk)
  then show ?thesis
    using inv C(2) by (simp add: cluster_inv_def all_values_sweep)
next
  case (accounts i r)
  then show ?thesis
    using inv unfolding cluster_inv_def by (simp add: session_at_def del: split_paired_All)
qed

lemma cluster_reachable_inv:
  assumes "login_connected C iter" and "is_iteration iter" and "cluster_reachable C iter ttl log s"
  shows "cluster_inv C log s"
  using assms(3)
proof induction
  case (start s)
  then show ?case
    by (simp add: cluster_inv_def session_at_def authenticated_as_def)
next
  case (step log s evs s')
  then show ?case using cluster_inv_step [OF assms(1,2)] by blast
qed

text \<open>A user of World, and where the name comes from.\<close>

lemma world_user_core:
  assumes "login_connected C iter" and "is_iteration iter" and "cluster_reachable C iter ttl log s"
    and "authenticated_as (cl_world s j) sid u"
  shows "u = [] \<or> (\<exists>a. u = string_of (login_announcement (lc_endian C) a)) \<or>
    (\<exists>a n. u = string_of (world_announcement (lc_endian C) a n)) \<or> proved C log u"
proof -
  from cluster_reachable_inv [OF assms(1-3)] assms(4) obtain v where "u = string_of v" "earned C log v"
    unfolding cluster_inv_def by blast
  then show ?thesis by (auto simp: earned_def string_of_bytes_of)
qed

end
