(* ===== verification/Async_Handlers.thy ===== *)
theory Async_Handlers
  imports Flow
begin

text \<open>
  The handlers of Login, World and Master as coroutines: what they do up to a \<open>co_await\<close> of the store
  client, the call they wait for, and what they do with its result. Between the two the thread runs
  other sessions and the store serves other processes. The main result: run without interruption,
  the pieces of a handler are the handler of \<open>Login_Handler\<close>, \<open>World_Handler\<close> and \<open>Master_Handler\<close>.
\<close>

section \<open>Calls of the store client\<close>

datatype store_call = Put_Call string bytes int | Take_Call string | List_Call string

datatype call_result =
    Put_Done "bool result" | Take_Done "bytes option result" | List_Done "store_list_entry list result"

fun perform :: "endian \<Rightarrow> openssl \<Rightarrow> bytes \<Rightarrow> 'w network \<Rightarrow> store_call \<Rightarrow> 'w \<Rightarrow> call_result \<times> 'w" where
  "perform e E hk net (Put_Call key v ttl) w = (case client_put e E hk net key v ttl w of (r, w') \<Rightarrow> (Put_Done r, w'))"
| "perform e E hk net (Take_Call key) w = (case client_take e E hk net key w of (r, w') \<Rightarrow> (Take_Done r, w'))"
| "perform e E hk net (List_Call prefix) w =
     (case client_list_prefix e E hk net prefix w of (r, w') \<Rightarrow> (List_Done r, w'))"

text \<open>What a call returns when the network fails.\<close>

fun no_answer :: "store_call \<Rightarrow> call_result" where
  "no_answer (Put_Call key v ttl) = Put_Done (Inr False)"
| "no_answer (Take_Call key) = Take_Done (Inr None)"
| "no_answer (List_Call prefix) = List_Done (Inr [])"

lemma perform_without_network:
  assumes "hmac_available E hk" and "\<not> net_resolves net \<or> \<not> net_connects net"
  shows "perform e E hk net call w = (no_answer call, w)"
proof (cases call)
  case (Put_Call key v ttl)
  obtain req where "encode_put e E hk key v (word_of_int ttl) = Inr req"
    using encoders_available(1) [OF assms(1)] by blast
  with assms(2) Put_Call show ?thesis by (auto simp: client_put_def roundtrip_def)
next
  case (Take_Call key)
  obtain req where "encode_get_or_take e E Op_Take hk key = Inr req"
    using encoders_available(2) [OF assms(1)] by blast
  with assms(2) Take_Call show ?thesis by (auto simp: client_take_def get_or_take_def roundtrip_def)
next
  case (List_Call prefix)
  obtain req where "encode_list_prefix e E hk prefix = Inr req"
    using encoders_available(2) [OF assms(1)] unfolding encode_list_prefix_def by blast
  with assms(2) List_Call show ?thesis by (auto simp: client_list_prefix_def roundtrip_def)
qed

text \<open>A piece of a handler: it has returned (or thrown), or it waits for a call.\<close>

datatype ('k, 'h) segment = Ends "exn option" 'h conn | Awaits store_call 'k 'h conn

section \<open>Login\<close>

text \<open>Where a handler of Login waits, with the locals it still needs.\<close>

datatype login_wait = After_Take string | After_Put bytes string | After_List

text \<open>\<open>handle_hello\<close> after its \<open>take\<close>.\<close>

definition hello_taken :: "('w, 'r) login_config \<Rightarrow> nat \<times> nat \<Rightarrow> string \<Rightarrow> bytes option result
    \<Rightarrow> ('w, 'r) login_server \<Rightarrow> conn \<Rightarrow> (login_wait, ('w, 'r) login_server) segment" where
  "hello_taken C sid username found_ticket h c =
     (case found_ticket of
        Inl ex \<Rightarrow> Ends (Some ex) h c
      | Inr None \<Rightarrow> Ends None h (session_close c)
      | Inr (Some _) \<Rightarrow>
          (case acc_find (lc_accounts C) (fst sid) username (lg_accounts h) of
             (Inl _, r) \<Rightarrow>
               Ends None (h\<lparr>lg_accounts := r\<rparr>)
                 (session_close (session_send (lc_endian C) (encode_login_error (lc_endian C)) c))
           | (Inr account, r) \<Rightarrow>
               (let h1 = h\<lparr>lg_accounts := r,
                           lg_draws := (if account = None then Suc (lg_draws h) else lg_draws h)\<rparr>
                in case registration_for C account username (lg_rand h (lg_draws h)) of
                     Inl ex \<Rightarrow> Ends (Some ex) h1 c
                   | Inr reg \<Rightarrow>
                       (let h2 = h1\<lparr>lg_bn_draws := Suc (lg_bn_draws h1)\<rparr>
                        in case server_begin (lc_openssl C) (lc_bn C) (lg_bn_rand h (lg_bn_draws h))
                                  (reg_verifier reg) of
                             Inl ex \<Rightarrow> Ends (Some ex) h2 c
                           | Inr ch \<Rightarrow>
                               Ends None
                                 (set_session sid ((session_at h sid)\<lparr>ls_username := username,
                                    ls_challenge := Some ch, ls_stage := AwaitingProof\<rparr>) h2)
                                 (session_send (lc_endian C)
                                   (encode_server_challenge (lc_endian C) (reg_salt reg) (ch_B_bytes ch)) c)))))"

text \<open>\<open>handle_proof\<close> up to its \<open>put\<close>, and after it up to \<open>list_worlds\<close>, and the rest.\<close>

definition proof_checked :: "('w, 'r) login_config \<Rightarrow> login_session \<Rightarrow> bytes \<Rightarrow> bytes
    \<Rightarrow> ('w, 'r) login_server \<Rightarrow> conn \<Rightarrow> (login_wait, ('w, 'r) login_server) segment" where
  "proof_checked C st A M1 h c =
     (case ls_challenge st of
        None \<Rightarrow> Ends (Some Undefined) h c
      | Some ch \<Rightarrow>
          (case server_verify (lc_openssl C) (lc_bn C) ch A M1 of
             Inl ex \<Rightarrow> Ends (Some ex) h c
           | Inr res \<Rightarrow>
               if \<not> sr_ok res then
                 Ends None h
                   (session_close (session_send (lc_endian C) (encode_login_error (lc_endian C)) c))
               else
                 (case generate_token_hex (lg_rand h (lg_draws h)) of
                    Inl ex \<Rightarrow> Ends (Some ex) (h\<lparr>lg_draws := Suc (lg_draws h)\<rparr>) c
                  | Inr token \<Rightarrow>
                      Awaits (Put_Call token (bytes_of (ls_username st)) (lc_session_ttl C))
                        (After_Put (sr_M2 res) token) (h\<lparr>lg_draws := Suc (lg_draws h)\<rparr>) c)))"

definition proof_stored :: "('w, 'r) login_config \<Rightarrow> bytes \<Rightarrow> string \<Rightarrow> bool result
    \<Rightarrow> ('w, 'r) login_server \<Rightarrow> conn \<Rightarrow> (login_wait, ('w, 'r) login_server) segment" where
  "proof_stored C M2 token stored h c =
     (case stored of
        Inl ex \<Rightarrow> Ends (Some ex) h c
      | Inr _ \<Rightarrow>
          Awaits (List_Call kWorldPrefix) After_List h
            (session_send (lc_endian C) (encode_server_proof (lc_endian C) M2 token) c))"

definition proof_listed :: "('w, 'r) login_config \<Rightarrow> nat \<times> nat \<Rightarrow> store_list_entry list result
    \<Rightarrow> ('w, 'r) login_server \<Rightarrow> conn \<Rightarrow> (login_wait, ('w, 'r) login_server) segment" where
  "proof_listed C sid listed h c =
     (case listed of
        Inl ex \<Rightarrow> Ends (Some ex) h c
      | Inr es \<Rightarrow>
          Ends None (set_session sid ((session_at h sid)\<lparr>ls_stage := Done\<rparr>) h)
            (session_send (lc_endian C) (encode_world_list (lc_endian C)
              (map world_entry_of (List.map_filter (\<lambda>(k, v). decode_world (lc_endian C) v) es))) c))"

text \<open>\<open>on_message\<close> up to the first call, and the piece that follows the result of a call.\<close>

definition login_begin :: "('w, 'r) login_config \<Rightarrow> nat \<times> nat \<Rightarrow> bytes
    \<Rightarrow> ('w, 'r) login_server \<Rightarrow> conn \<Rightarrow> (login_wait, ('w, 'r) login_server) segment" where
  "login_begin C sid payload h c =
     (case login_decode (lc_endian C) payload of
        None \<Rightarrow> Ends None h (session_close c)
      | Some d \<Rightarrow>
          (let st = session_at h sid; h = set_session sid st h
           in if ls_stage st = AwaitingHello \<and> l_op d = ClientHello then
                Awaits (Take_Call (l_ticket d)) (After_Take (l_username d)) h c
              else if ls_stage st = AwaitingProof \<and> l_op d = ClientProof then
                proof_checked C st (l_A d) (l_M1 d) h c
              else Ends None h (session_close c)))"

fun login_resume :: "('w, 'r) login_config \<Rightarrow> nat \<times> nat \<Rightarrow> login_wait \<Rightarrow> call_result
    \<Rightarrow> ('w, 'r) login_server \<Rightarrow> conn \<Rightarrow> (login_wait, ('w, 'r) login_server) segment" where
  "login_resume C sid (After_Take username) (Take_Done r) h c = hello_taken C sid username r h c"
| "login_resume C sid (After_Put M2 token) (Put_Done r) h c = proof_stored C M2 token r h c"
| "login_resume C sid After_List (List_Done r) h c = proof_listed C sid r h c"
| "login_resume C sid _ _ h c = Ends (Some Undefined) h c"

text \<open>The call is made and the handler goes on, with nothing in between.\<close>

fun login_call :: "('w, 'r) login_config \<Rightarrow> nat \<times> nat \<Rightarrow> (login_wait, ('w, 'r) login_server) segment
    \<Rightarrow> (login_wait, ('w, 'r) login_server) segment" where
  "login_call C sid (Ends ex h c) = Ends ex h c"
| "login_call C sid (Awaits call k h c) =
     (case perform (lc_endian C) (lc_openssl C) (lc_store_key C) (lc_net C (lg_world h)) call (lg_world h) of
        (r, w) \<Rightarrow> login_resume C sid k r (h\<lparr>lg_world := w\<rparr>) c)"

definition ended :: "exn option \<times> 'h \<times> conn \<Rightarrow> ('k, 'h) segment" where
  "ended = (\<lambda>(ex, h, c). Ends ex h c)"

lemma hello_pieces:
  assumes "session_at h sid = st"
  shows "login_call C sid (Awaits (Take_Call ticket) (After_Take username) h c) =
    ended (handle_hello C sid st ticket username h c)"
proof -
  obtain res w where "client_take (lc_endian C) (lc_openssl C) (lc_store_key C) (lc_net C (lg_world h)) ticket
      (lg_world h) = (res, w)" by force
  note take = this
  show ?thesis
  proof (cases "\<exists>v. res = Inr (Some v)")
    case False
    with take show ?thesis
      by (cases res) (auto simp: handle_hello_def hello_taken_def ended_def split: option.splits)
  next
    case True
    obtain fnd r where f: "acc_find (lc_accounts C) (fst sid) username (lg_accounts h) = (fnd, r)" by force
    show ?thesis
    proof (cases fnd)
      case (Inl ex)
      with True take f show ?thesis by (auto simp: handle_hello_def hello_taken_def ended_def)
    next
      case (Inr account)
      with True take f assms show ?thesis
        by (cases "registration_for C account username (lg_rand h (lg_draws h))")
          (auto simp: handle_hello_def hello_taken_def ended_def Let_def split: sum.split)
    qed
  qed
qed

lemma proof_pieces:
  assumes "session_at h sid = st"
  shows "login_call C sid (login_call C sid (proof_checked C st A M1 h c)) =
    ended (handle_proof C sid st A M1 h c)"
proof (cases "ls_challenge st")
  case None
  then show ?thesis by (simp add: proof_checked_def handle_proof_def ended_def)
next
  case ch: (Some ch)
  show ?thesis
  proof (cases "server_verify (lc_openssl C) (lc_bn C) ch A M1")
    case (Inl ex)
    then show ?thesis by (simp add: proof_checked_def handle_proof_def ended_def ch)
  next
    case res: (Inr res)
    show ?thesis
    proof (cases "generate_token_hex (lg_rand h (lg_draws h))")
      case (Inl ex)
      then show ?thesis by (simp add: proof_checked_def handle_proof_def ended_def ch res)
    next
      case token: (Inr token)
      obtain r w where put: "client_put (lc_endian C) (lc_openssl C) (lc_store_key C) (lc_net C (lg_world h))
          token (bytes_of (ls_username st)) (lc_session_ttl C) (lg_world h) = (r, w)" by force
      obtain es w' where "client_list_prefix (lc_endian C) (lc_openssl C) (lc_store_key C) (lc_net C w)
          kWorldPrefix w = (es, w')" by force
      then show ?thesis
        using assms
        by (cases r; cases es)
          (simp_all add: proof_checked_def proof_stored_def proof_listed_def handle_proof_def ended_def
            ch res token put list_worlds_def Let_def)
    qed
  qed
qed

lemma login_pieces:
  "login_call C sid (login_call C sid (login_begin C sid payload h c)) = ended (login_on_message C sid payload h c)"
proof (cases "login_decode (lc_endian C) payload")
  case None
  then show ?thesis by (simp add: login_begin_def login_on_message_def ended_def)
next
  case d: (Some d)
  let ?st = "session_at h sid" and ?h = "set_session sid (session_at h sid) h"
  have st: "(case lg_sessions h sid of Some st \<Rightarrow> st | None \<Rightarrow> new_login_session) = ?st"
    by (simp add: session_at_def)
  have ends: "login_call C sid (ended r) = ended r" for r
    by (cases r) (simp add: ended_def)
  consider (greet) "ls_stage ?st = AwaitingHello" "l_op d = ClientHello"
    | (answer) "ls_stage ?st = AwaitingProof" "l_op d = ClientProof"
    | (other) "\<not> (ls_stage ?st = AwaitingHello \<and> l_op d = ClientHello)"
      "\<not> (ls_stage ?st = AwaitingProof \<and> l_op d = ClientProof)" by blast
  then show ?thesis
  proof cases
    case greet
    then show ?thesis
      using hello_pieces [of ?h sid ?st C "l_ticket d" "l_username d" c]
      by (simp add: login_begin_def login_on_message_def d st ends Let_def del: login_call.simps)
  next
    case answer
    then show ?thesis
      using proof_pieces [of ?h sid ?st C "l_A d" "l_M1 d" c]
      by (simp add: login_begin_def login_on_message_def d st Let_def del: login_call.simps)
  next
    case other
    then show ?thesis
      unfolding login_begin_def login_on_message_def d option.case st Let_def ended_def
      by (simp add: if_not_P del: de_Morgan_conj)
  qed
qed

section \<open>World\<close>

datatype world_wait = After_Token

text \<open>The context of a session, which \<open>operator[]\<close> creates.\<close>

definition world_ctx :: "session_id \<Rightarrow> 'w world_server \<Rightarrow> world_session" where
  "world_ctx sid h = (case wd_sessions h sid of Some x \<Rightarrow> x | None \<Rightarrow> new_world_session)"

definition world_begin :: "endian \<Rightarrow> session_id \<Rightarrow> bytes \<Rightarrow> 'w world_server \<Rightarrow> conn
    \<Rightarrow> (world_wait, 'w world_server) segment" where
  "world_begin e sid payload h c =
     (let ctx = world_ctx sid h; h = h\<lparr>wd_sessions := (wd_sessions h)(sid \<mapsto> ctx)\<rparr>
      in if \<not> ws_authenticated ctx then Awaits (Take_Call (string_of payload)) After_Token h c
         else if length payload < 2 then Ends None h c
         else Ends None h (dispatch build_handlers (call_player_fn e)
                (u16_of_mem e (take 2 payload)) (drop 2 payload) c))"

fun world_resume :: "session_id \<Rightarrow> world_wait \<Rightarrow> call_result \<Rightarrow> 'w world_server \<Rightarrow> conn
    \<Rightarrow> (world_wait, 'w world_server) segment" where
  "world_resume sid After_Token (Take_Done (Inl ex)) h c = Ends (Some ex) h c"
| "world_resume sid After_Token (Take_Done (Inr None)) h c = Ends None h (session_close c)"
| "world_resume sid After_Token (Take_Done (Inr (Some found))) h c =
     Ends None (h\<lparr>wd_sessions := (wd_sessions h)
       (sid \<mapsto> \<lparr>ws_authenticated = True, ws_username = string_of found\<rparr>)\<rparr>) c"
| "world_resume sid After_Token _ h c = Ends (Some Undefined) h c"

fun world_call :: "endian \<Rightarrow> openssl \<Rightarrow> bytes \<Rightarrow> ('w \<Rightarrow> 'w network) \<Rightarrow> session_id
    \<Rightarrow> (world_wait, 'w world_server) segment \<Rightarrow> (world_wait, 'w world_server) segment" where
  "world_call e E hk net sid (Ends ex h c) = Ends ex h c"
| "world_call e E hk net sid (Awaits call k h c) =
     (case perform e E hk (net (wd_world h)) call (wd_world h) of
        (r, w) \<Rightarrow> world_resume sid k r (h\<lparr>wd_world := w\<rparr>) c)"

lemma world_pieces:
  "world_call e E hk net sid (world_begin e sid payload h c) = ended (world_on_message e E hk net sid payload h c)"
proof -
  obtain res w where "client_take e E hk (net (wd_world h)) (string_of payload) (wd_world h) = (res, w)" by force
  then show ?thesis
    by (simp add: world_begin_def world_on_message_def world_ctx_def ended_def Let_def split: sum.split option.split)
qed

section \<open>Master\<close>

text \<open>
  \<open>MasterHandler\<close> holds the store itself and does not wait, but other threads of Master may get
  to the mutex between its listing of the logins and the put of its ticket.
\<close>

datatype master_segment =
    Master_Ends "exn option" master_server conn
  | Master_Puts string login_info master_server conn

definition master_begin :: "endian \<Rightarrow> iteration \<Rightarrow> bytes \<Rightarrow> master_server \<Rightarrow> conn \<Rightarrow> master_segment" where
  "master_begin e iter payload m c =
     (let sv = ms_sv m;
          login = pick_login e iter (sv_clock_from sv) (sv_store sv);
          m1 = m\<lparr>ms_sv := sv_tick (store_size (sv_store sv)) sv\<rparr>
      in case login of
           None \<Rightarrow> Master_Ends None m1 (session_send e (encode_master_error e) c)
         | Some li \<Rightarrow>
             (case generate_token_hex (ms_rand m1 (ms_draws m1)) of
                Inl ex \<Rightarrow> Master_Ends (Some ex) (m1\<lparr>ms_draws := Suc (ms_draws m1)\<rparr>) c
              | Inr ticket \<Rightarrow> Master_Puts ticket li (m1\<lparr>ms_draws := Suc (ms_draws m1)\<rparr>) c))"

definition master_resume :: "endian \<Rightarrow> int \<Rightarrow> string \<Rightarrow> login_info \<Rightarrow> master_server \<Rightarrow> conn
    \<Rightarrow> exn option \<times> master_server \<times> conn" where
  "master_resume e ticket_ttl ticket li m c =
     (None,
      m\<lparr>ms_sv := sv_tick 1 ((ms_sv m)\<lparr>sv_store :=
           store_put ticket [] ticket_ttl (sv_now (ms_sv m)) (sv_store (ms_sv m))\<rparr>)\<rparr>,
      session_send e (encode_redirect e ticket (li_host li) (li_port li)) c)"

fun master_rest :: "endian \<Rightarrow> int \<Rightarrow> master_segment \<Rightarrow> exn option \<times> master_server \<times> conn" where
  "master_rest e ticket_ttl (Master_Ends ex m c) = (ex, m, c)"
| "master_rest e ticket_ttl (Master_Puts ticket li m c) = master_resume e ticket_ttl ticket li m c"

lemma master_pieces:
  "master_rest e ticket_ttl (master_begin e iter payload m c) = master_on_message e iter ticket_ttl payload m c"
  by (simp add: master_begin_def master_on_message_def master_resume_def Let_def split: option.split sum.split)

fun after_master :: "master_segment \<Rightarrow> master_server" where
  "after_master (Master_Ends ex m c) = m"
| "after_master (Master_Puts ticket li m c) = m"

lemma master_begin_store:
  "sv_store (ms_sv (after_master (master_begin e iter p m c))) = sv_store (ms_sv m)"
  by (simp add: master_begin_def Let_def split: option.split sum.split)

section \<open>What a piece of a handler of Login does\<close>

lemma lg_world_set_session [simp]: "lg_world (set_session sid st h) = lg_world h"
  by (simp add: set_session_def)

lemma login_begin_cases:
  assumes "login_begin C sid p h c = seg"
  obtains (ends) ex h' c' where "seg = Ends ex h' c'" "lg_world h' = lg_world h"
      "session_at h' = session_at h"
  | (hello) d h' c' where "seg = Awaits (Take_Call (l_ticket d)) (After_Take (l_username d)) h' c'"
      "login_decode (lc_endian C) p = Some d" "lg_world h' = lg_world h" "session_at h' = session_at h"
      "ls_stage (session_at h sid) = AwaitingHello" "lg_accounts h' = lg_accounts h"
  | (checked) d ch res token h' c' where
      "seg = Awaits (Put_Call token (bytes_of (ls_username (session_at h sid))) (lc_session_ttl C))
         (After_Put (sr_M2 res) token) h' c'"
      "login_decode (lc_endian C) p = Some d" "lg_world h' = lg_world h" "session_at h' = session_at h"
      "ls_stage (session_at h sid) = AwaitingProof" "ls_challenge (session_at h sid) = Some ch"
      "proof_accepted C ch (l_A d) (l_M1 d) res" "length token = 32"
proof -
  have same: "session_at (set_session sid (session_at h sid) h) = session_at h"
    by (simp add: fun_eq_iff)
  show thesis
  proof (cases "login_decode (lc_endian C) p")
    case None
    with assms show thesis by (intro ends [of None h "session_close c"]) (simp_all add: login_begin_def)
  next
    case d: (Some d)
    consider (greet) "ls_stage (session_at h sid) = AwaitingHello \<and> l_op d = ClientHello"
      | (answer) "ls_stage (session_at h sid) = AwaitingProof \<and> l_op d = ClientProof"
      | (other) "\<not> (ls_stage (session_at h sid) = AwaitingHello \<and> l_op d = ClientHello)"
        "\<not> (ls_stage (session_at h sid) = AwaitingProof \<and> l_op d = ClientProof)" by blast
    then show thesis
    proof cases
      case greet
      with assms d show thesis
        by (intro hello [of d "set_session sid (session_at h sid) h" c])
          (simp_all add: login_begin_def same Let_def, simp add: set_session_def)
    next
      case other
      then show thesis
        by (intro ends [of None "set_session sid (session_at h sid) h" "session_close c"])
          (use assms d in \<open>auto simp: login_begin_def same Let_def\<close>)
    next
      case answer
      let ?h = "set_session sid (session_at h sid) h"
      from answer assms d have seg: "seg = proof_checked C (session_at h sid) (l_A d) (l_M1 d) ?h c"
        by (auto simp: login_begin_def Let_def)
      show thesis
      proof (cases "\<exists>ch res token. ls_challenge (session_at h sid) = Some ch \<and>
          server_verify (lc_openssl C) (lc_bn C) ch (l_A d) (l_M1 d) = Inr res \<and> sr_ok res \<and>
          generate_token_hex (lg_rand ?h (lg_draws ?h)) = Inr token")
        case True
        then obtain ch res token where ch: "ls_challenge (session_at h sid) = Some ch"
          "server_verify (lc_openssl C) (lc_bn C) ch (l_A d) (l_M1 d) = Inr res" "sr_ok res"
          and token: "generate_token_hex (lg_rand ?h (lg_draws ?h)) = Inr token" by blast
        from token have "length token = 32"
          by (auto simp: generate_token_hex_def random_bytes_def length_to_hex split: option.splits)
        with ch token answer d show thesis
          by (intro checked [of token res "?h\<lparr>lg_draws := Suc (lg_draws ?h)\<rparr>" c d ch])
            (simp_all add: seg proof_checked_def proof_accepted_def same fun_eq_iff)
      next
        case False
        then have "\<exists>ex h' c'. seg = Ends ex h' c' \<and> lg_world h' = lg_world h \<and>
            session_at h' = session_at h"
          by (auto simp: seg proof_checked_def same fun_eq_iff split: option.split sum.split)
        then show thesis using ends by blast
      qed
    qed
  qed
qed

lemma hello_taken_cases:
  assumes "hello_taken C sid username r h c = seg"
  obtains (ends) ex h' c' where "seg = Ends ex h' c'" "lg_world h' = lg_world h"
      "session_at h' = session_at h"
  | (challenge) v account a reg ch h' c' where "r = Inr (Some v)"
      "acc_find (lc_accounts C) (fst sid) username (lg_accounts h) = (Inr account, a)"
      "registration_for C account username (lg_rand h (lg_draws h)) = Inr reg"
      "server_begin (lc_openssl C) (lc_bn C) (lg_bn_rand h (lg_bn_draws h)) (reg_verifier reg) = Inr ch"
      "seg = Ends None h' c'" "lg_world h' = lg_world h"
      "session_at h' = (session_at h)(sid := (session_at h sid)\<lparr>ls_username := username,
         ls_challenge := Some ch, ls_stage := AwaitingProof\<rparr>)"
proof (cases "\<exists>v account a reg ch. r = Inr (Some v) \<and>
    acc_find (lc_accounts C) (fst sid) username (lg_accounts h) = (Inr account, a) \<and>
    registration_for C account username (lg_rand h (lg_draws h)) = Inr reg \<and>
    server_begin (lc_openssl C) (lc_bn C) (lg_bn_rand h (lg_bn_draws h)) (reg_verifier reg) = Inr ch")
  case True
  then obtain v account a reg ch where r: "r = Inr (Some v)"
    "acc_find (lc_accounts C) (fst sid) username (lg_accounts h) = (Inr account, a)"
    "registration_for C account username (lg_rand h (lg_draws h)) = Inr reg"
    "server_begin (lc_openssl C) (lc_bn C) (lg_bn_rand h (lg_bn_draws h)) (reg_verifier reg) = Inr ch" by blast
  with assms have "\<exists>h' c'. seg = Ends None h' c' \<and> lg_world h' = lg_world h \<and>
      session_at h' = (session_at h)(sid := (session_at h sid)\<lparr>ls_username := username,
         ls_challenge := Some ch, ls_stage := AwaitingProof\<rparr>)"
    by (auto simp: hello_taken_def Let_def fun_eq_iff)
  with challenge r show thesis by blast
next
  case False
  obtain fnd a where f: "acc_find (lc_accounts C) (fst sid) username (lg_accounts h) = (fnd, a)" by force
  from False f assms have "\<exists>ex h' c'. seg = Ends ex h' c' \<and> lg_world h' = lg_world h \<and>
      session_at h' = session_at h"
    by (auto simp: hello_taken_def Let_def fun_eq_iff split: sum.splits option.splits)
  then show thesis using ends by blast
qed

lemma login_resume_cases:
  assumes "login_resume C sid k r h c = seg"
  obtains (ends) ex h' c' where "seg = Ends ex h' c'" "lg_world h' = lg_world h"
      "session_at h' = session_at h"
  | (challenge) username v account a reg ch h' c' where "k = After_Take username"
      "r = Take_Done (Inr (Some v))"
      "acc_find (lc_accounts C) (fst sid) username (lg_accounts h) = (Inr account, a)"
      "registration_for C account username (lg_rand h (lg_draws h)) = Inr reg"
      "server_begin (lc_openssl C) (lc_bn C) (lg_bn_rand h (lg_bn_draws h)) (reg_verifier reg) = Inr ch"
      "seg = Ends None h' c'" "lg_world h' = lg_world h"
      "session_at h' = (session_at h)(sid := (session_at h sid)\<lparr>ls_username := username,
         ls_challenge := Some ch, ls_stage := AwaitingProof\<rparr>)"
  | (stored) M2 token c' where "k = After_Put M2 token" "seg = Awaits (List_Call kWorldPrefix) After_List h c'"
  | (listed) c' h' where "k = After_List" "seg = Ends None h' c'" "lg_world h' = lg_world h"
      "session_at h' = (session_at h)(sid := (session_at h sid)\<lparr>ls_stage := Done\<rparr>)"
  using assms
proof (induction C sid k r h c rule: login_resume.induct)
  case (1 C sid username r h c)
  from 1(5) have "hello_taken C sid username r h c = seg" by simp
  then show ?case
  proof (cases rule: hello_taken_cases)
    case ends
    then show thesis by (rule 1(1))
  next
    case challenge
    from 1(2) [OF refl _ this(2-7)] this(1) show thesis by simp
  qed
next
  case (2 C sid M2 token r h c)
  then show ?case by (cases r) (auto simp: proof_stored_def)
next
  case (3 C sid r h c)
  show ?case
  proof (cases r)
    case (Inl ex)
    with 3(5) show thesis by (intro 3(1)) (auto simp: proof_listed_def)
  next
    case (Inr es)
    let ?h = "set_session sid ((session_at h sid)\<lparr>ls_stage := Done\<rparr>) h"
    from Inr 3(5) have "\<exists>c'. seg = Ends None ?h c'" by (auto simp: proof_listed_def)
    then show thesis using 3(4) [OF refl, of ?h] by (auto simp: fun_eq_iff)
  qed
qed auto

end
