(* ===== verification/Async_Cluster.thy ===== *)
theory Async_Cluster
  imports Cluster Async_Handlers
begin

text \<open>
  The processes together, with handlers that wait. A request to the store is sent in one step,
  handled by the store in another and answered in a third, and in between any other session of any
  process may run; an answer may be late or lost, and the store may handle a request whose client
  has given up. Master, which has the store in its memory, puts a ticket in a later step than the
  one in which it lists the logins. The main results: the name under which World runs a session was
  proved at a Login, and a key admits at most as many sessions as it was put. Every step of
  \<open>Cluster\<close> is a sequence of these steps.
\<close>

section \<open>The state\<close>

text \<open>
  Calls are numbered. A call is in flight until the store has handled it; the answer is kept until
  its session reads it. A session that waits holds the number of its call; one of Master that is
  about to put a ticket holds it with the Login it has picked.
\<close>

record 'r async =
  as_cluster :: "'r cluster"
  as_next :: nat
  as_flight :: "nat \<rightharpoonup> store_call"
  as_replies :: "nat \<rightharpoonup> store_call \<times> call_result"
  as_login :: "nat \<Rightarrow> session_id \<rightharpoonup> nat \<times> store_call \<times> login_wait"
  as_world :: "nat \<Rightarrow> session_id \<rightharpoonup> nat \<times> store_call \<times> world_wait"
  as_master :: "session_id \<rightharpoonup> string \<times> login_info"

text \<open>
  The log: what the log of \<open>Cluster\<close> keeps, the keys that are put into the store, and the keys that
  a hello or a first message to World was admitted with.
\<close>

datatype async_event =
    Logged event
  | Put_Served string
  | Ticket_Used nat session_id string
  | World_Opened nat session_id string

fun logged :: "async_event \<Rightarrow> event option" where
  "logged (Logged e) = Some e"
| "logged _ = None"

fun used_key :: "async_event \<Rightarrow> string option" where
  "used_key (Ticket_Used i sid key) = Some key"
| "used_key (World_Opened j sid key) = Some key"
| "used_key _ = None"

definition put_count :: "string \<Rightarrow> async_event list \<Rightarrow> nat" where
  "put_count key log = length (filter (\<lambda>e. e = Put_Served key) log)"

definition use_count :: "string \<Rightarrow> async_event list \<Rightarrow> nat" where
  "use_count key log = length (filter (\<lambda>e. used_key e = Some key) log)"

text \<open>A call is sent, and the session waits for it; or the session does not wait any more.\<close>

definition send_call :: "store_call \<Rightarrow> 'r async \<Rightarrow> 'r async" where
  "send_call call s = s\<lparr>as_next := Suc (as_next s), as_flight := (as_flight s)(as_next s \<mapsto> call)\<rparr>"

fun login_settle :: "nat \<Rightarrow> session_id \<Rightarrow> (login_wait, (store_server, 'r) login_server) segment
    \<Rightarrow> 'r async \<Rightarrow> 'r async" where
  "login_settle i sid (Ends ex h c) s =
     s\<lparr>as_cluster := login_back i h (as_cluster s),
       as_login := (as_login s)(i := (as_login s i)(sid := None))\<rparr>"
| "login_settle i sid (Awaits call k h c) s =
     (send_call call s)\<lparr>as_cluster := login_back i h (as_cluster s),
       as_login := (as_login s)(i := (as_login s i)(sid \<mapsto> (as_next s, call, k)))\<rparr>"

fun world_settle :: "nat \<Rightarrow> session_id \<Rightarrow> (world_wait, store_server world_server) segment
    \<Rightarrow> 'r async \<Rightarrow> 'r async" where
  "world_settle j sid (Ends ex h c) s =
     s\<lparr>as_cluster := world_back j h (as_cluster s),
       as_world := (as_world s)(j := (as_world s j)(sid := None))\<rparr>"
| "world_settle j sid (Awaits call k h c) s =
     (send_call call s)\<lparr>as_cluster := world_back j h (as_cluster s),
       as_world := (as_world s)(j := (as_world s j)(sid \<mapsto> (as_next s, call, k)))\<rparr>"

fun master_settle :: "session_id \<Rightarrow> master_segment \<Rightarrow> 'r async \<Rightarrow> 'r async" where
  "master_settle sid (Master_Ends ex m c) s =
     s\<lparr>as_cluster := master_back m (as_cluster s), as_master := (as_master s)(sid := None)\<rparr>"
| "master_settle sid (Master_Puts ticket li m c) s =
     s\<lparr>as_cluster := master_back m (as_cluster s), as_master := (as_master s)(sid \<mapsto> (ticket, li))\<rparr>"

text \<open>What a call may come back with: its answer, or that of a failed connection at any time.\<close>

definition comes_back :: "'r async \<Rightarrow> nat \<Rightarrow> store_call \<Rightarrow> call_result \<Rightarrow> bool" where
  "comes_back s n call r \<longleftrightarrow> r = no_answer call \<or> (\<exists>call'. as_replies s n = Some (call', r))"

definition read_reply :: "nat \<Rightarrow> 'r async \<Rightarrow> 'r async" where
  "read_reply n s = s\<lparr>as_replies := (as_replies s)(n := None)\<rparr>"

section \<open>What a step adds to the log\<close>

fun served_events :: "store_call \<Rightarrow> async_event list" where
  "served_events (Put_Call key v ttl) = [Put_Served key]"
| "served_events _ = []"

fun after_segment :: "('k, 'h) segment \<Rightarrow> 'h" where
  "after_segment (Ends ex h c) = h"
| "after_segment (Awaits call k h c) = h"

text \<open>A hello whose ticket was taken, and the challenge where one was made.\<close>

fun taken_events :: "(store_server, 'r) login_config \<Rightarrow> nat \<Rightarrow> session_id \<Rightarrow> store_call \<Rightarrow> login_wait
    \<Rightarrow> call_result \<Rightarrow> (store_server, 'r) login_server \<Rightarrow> (store_server, 'r) login_server
    \<Rightarrow> async_event list" where
  "taken_events C i sid (Take_Call key) (After_Take username) (Take_Done (Inr (Some v))) h h' =
     Ticket_Used i sid key #
     (case ls_challenge (session_at h' sid) of
        None \<Rightarrow> []
      | Some ch \<Rightarrow>
          if ls_stage (session_at h sid) = AwaitingHello \<and> ls_stage (session_at h' sid) = AwaitingProof
          then (case fst (acc_find (lc_accounts C) (fst sid) username (lg_accounts h)) of
                  Inl _ \<Rightarrow> []
                | Inr account \<Rightarrow> [Logged (Challenged i sid username account ch)])
          else [])"
| "taken_events C i sid _ _ _ h h' = []"

fun opened_events :: "nat \<Rightarrow> session_id \<Rightarrow> store_call \<Rightarrow> call_result \<Rightarrow> async_event list" where
  "opened_events j sid (Take_Call key) (Take_Done (Inr (Some v))) = [World_Opened j sid key]"
| "opened_events j sid _ _ = []"

section \<open>Steps\<close>

inductive async_step :: "(store_server, 'r) login_config \<Rightarrow> iteration \<Rightarrow> int
    \<Rightarrow> 'r async \<Rightarrow> async_event list \<Rightarrow> 'r async \<Rightarrow> bool"
  for C iter ticket_ttl where
  master_message: "\<lbrakk>length p \<le> read_buffer_bytes Master; as_master s sid = None;
     master_begin (lc_endian C) iter p (master_view (as_cluster s)) c = seg\<rbrakk> \<Longrightarrow>
     async_step C iter ticket_ttl s [] (master_settle sid seg s)"
| master_resumed: "\<lbrakk>as_master s sid = Some (ticket, li);
     master_resume (lc_endian C) ticket_ttl ticket li (master_view (as_cluster s)) c = (ex, m, c')\<rbrakk> \<Longrightarrow>
     async_step C iter ticket_ttl s [Put_Served ticket] (master_settle sid (Master_Ends ex m c') s)"
| login_message: "\<lbrakk>length p \<le> read_buffer_bytes Login; as_login s i sid = None;
     login_begin C sid p (login_view (as_cluster s) i) c = seg\<rbrakk> \<Longrightarrow>
     async_step C iter ticket_ttl s
       (map Logged (proof_events C i sid p (login_view (as_cluster s) i))) (login_settle i sid seg s)"
| login_resumed: "\<lbrakk>as_login s i sid = Some (n, call, k); comes_back s n call r;
     login_resume C sid k r (login_view (as_cluster s) i) c = seg\<rbrakk> \<Longrightarrow>
     async_step C iter ticket_ttl s
       (taken_events C i sid call k r (login_view (as_cluster s) i) (after_segment seg))
       (login_settle i sid seg (read_reply n s))"
| login_closed: "as_login s i sid = None \<Longrightarrow>
     async_step C iter ticket_ttl s [] (s\<lparr>as_cluster :=
       login_back i (login_on_disconnect sid (login_view (as_cluster s) i)) (as_cluster s)\<rparr>)"
| world_message: "\<lbrakk>length p \<le> read_buffer_bytes World; as_world s j sid = None;
     world_begin (lc_endian C) sid p (world_view (as_cluster s) j) c = seg\<rbrakk> \<Longrightarrow>
     async_step C iter ticket_ttl s [] (world_settle j sid seg s)"
| world_resumed: "\<lbrakk>as_world s j sid = Some (n, call, k); comes_back s n call r;
     world_resume sid k r (world_view (as_cluster s) j) c = seg\<rbrakk> \<Longrightarrow>
     async_step C iter ticket_ttl s (opened_events j sid call r) (world_settle j sid seg (read_reply n s))"
| world_closed: "as_world s j sid = None \<Longrightarrow>
     async_step C iter ticket_ttl s [] (s\<lparr>as_cluster :=
       world_back j (world_on_disconnect sid (world_view (as_cluster s) j)) (as_cluster s)\<rparr>)"
| serve: "\<lbrakk>as_flight s n = Some call;
     perform (lc_endian C) (lc_openssl C) (lc_store_key C)
       (loopback (lc_endian C) (lc_openssl C) (lc_store_key C) iter) call (cl_store (as_cluster s)) = (r, sv)\<rbrakk> \<Longrightarrow>
     async_step C iter ticket_ttl s (served_events call)
       (s\<lparr>as_cluster := (as_cluster s)\<lparr>cl_store := sv\<rparr>, as_flight := (as_flight s)(n := None),
          as_replies := (as_replies s)(n \<mapsto> (call, r))\<rparr>)"
| login_beat: "length (a_advertise_host a) < 65536 \<Longrightarrow>
     async_step C iter ticket_ttl s []
       (send_call (Put_Call (login_registry_key a) (login_announcement (lc_endian C) a) heartbeat_ttl) s)"
| world_beat: "\<lbrakk>length (a_advertise_host a) < 65536; length (a_world_name a) < 65536\<rbrakk> \<Longrightarrow>
     async_step C iter ticket_ttl s []
       (send_call (Put_Call (world_registry_key a) (world_announcement (lc_endian C) a n) heartbeat_ttl) s)"
| sweep: "async_step C iter ticket_ttl s [] (s\<lparr>as_cluster := (as_cluster s)\<lparr>cl_store :=
     (cl_store (as_cluster s))\<lparr>sv_store := snd (sweep_expired iter clk (sv_store (cl_store (as_cluster s))))\<rparr>\<rparr>\<rparr>)"
| accounts: "async_step C iter ticket_ttl s [] (s\<lparr>as_cluster := (as_cluster s)\<lparr>cl_login :=
     (cl_login (as_cluster s))(i := (cl_login (as_cluster s) i)\<lparr>lg_accounts := r\<rparr>)\<rparr>\<rparr>)"

text \<open>At the start no process has a session and no call is on its way.\<close>

definition idle :: "'r cluster \<Rightarrow> 'r async" where
  "idle c = \<lparr> as_cluster = c, as_next = 0, as_flight = Map.empty, as_replies = Map.empty,
     as_login = (\<lambda>_. Map.empty), as_world = (\<lambda>_. Map.empty), as_master = Map.empty \<rparr>"

inductive async_reachable :: "(store_server, 'r) login_config \<Rightarrow> iteration \<Rightarrow> int
    \<Rightarrow> async_event list \<Rightarrow> 'r async \<Rightarrow> bool"
  for C iter ticket_ttl where
  start: "\<lbrakk>sv_store (cl_store c) = empty_store; \<And>i. lg_sessions (cl_login c i) = Map.empty;
     \<And>j. wd_sessions (cl_world c j) = Map.empty\<rbrakk> \<Longrightarrow> async_reachable C iter ticket_ttl [] (idle c)"
| step: "\<lbrakk>async_reachable C iter ticket_ttl log s; async_step C iter ticket_ttl s evs s'\<rbrakk> \<Longrightarrow>
     async_reachable C iter ticket_ttl (log @ evs) s'"

section \<open>The invariant\<close>

text \<open>The events of \<open>Cluster\<close> in the log.\<close>

definition history :: "async_event list \<Rightarrow> event list" where
  "history log = List.map_filter logged log"

lemma history_simps [simp]:
  "history [] = []" "history (log @ evs) = history log @ history evs"
  "history (Logged e # evs) = e # history evs" "history (Put_Served key # evs) = history evs"
  "history (Ticket_Used i sid key # evs) = history evs" "history (World_Opened i sid key # evs) = history evs"
  by (simp_all add: history_def map_filter_def)

lemma history_Logged [simp]: "history (map Logged evs) = evs"
  by (induction evs) simp_all

fun call_ok :: "('w, 'r) login_config \<Rightarrow> event list \<Rightarrow> store_call \<Rightarrow> bool" where
  "call_ok C log (Put_Call key v ttl) \<longleftrightarrow>
     earned C log v \<and> length key + length v < 1000000 \<and> 0 \<le> ttl \<and> ttl < 4294967296"
| "call_ok C log (Take_Call key) \<longleftrightarrow> length key < 65536"
| "call_ok C log (List_Call prefix) \<longleftrightarrow> rpc_key_ok prefix"

text \<open>
  The kind of the answer is that of the call, it is not the result of an undefined operation, and a
  value that was taken was earned.
\<close>

fun reply_ok :: "('w, 'r) login_config \<Rightarrow> event list \<Rightarrow> store_call \<Rightarrow> call_result \<Rightarrow> bool" where
  "reply_ok C log (Put_Call key v ttl) (Put_Done r) \<longleftrightarrow> defined r"
| "reply_ok C log (Take_Call key) (Take_Done r) \<longleftrightarrow> defined r \<and> (\<forall>v. r = Inr (Some v) \<longrightarrow> earned C log v)"
| "reply_ok C log (List_Call prefix) (List_Done r) \<longleftrightarrow> defined r"
| "reply_ok C log _ _ \<longleftrightarrow> False"

fun login_wait_ok :: "login_session \<Rightarrow> store_call \<Rightarrow> login_wait \<Rightarrow> bool" where
  "login_wait_ok st (Take_Call key) (After_Take u) \<longleftrightarrow> ls_stage st = AwaitingHello \<and> length u < 65536"
| "login_wait_ok st (Put_Call key v ttl) (After_Put M2 token) \<longleftrightarrow> ls_stage st = AwaitingProof"
| "login_wait_ok st (List_Call prefix) After_List \<longleftrightarrow> ls_stage st = AwaitingProof"
| "login_wait_ok st _ _ \<longleftrightarrow> False"

fun world_wait_ok :: "store_call \<Rightarrow> world_wait \<Rightarrow> bool" where
  "world_wait_ok (Take_Call key) After_Token \<longleftrightarrow> True"
| "world_wait_ok _ _ \<longleftrightarrow> False"

definition calls_inv :: "('w, 'r) login_config \<Rightarrow> event list \<Rightarrow> 'r async \<Rightarrow> bool" where
  "calls_inv C log s \<longleftrightarrow>
     (\<forall>n call. as_flight s n = Some call \<longrightarrow> n < as_next s \<and> call_ok C log call) \<and>
     (\<forall>n call r. as_replies s n = Some (call, r) \<longrightarrow> n < as_next s \<and> reply_ok C log call r)"

text \<open>The call that a session waits for is its own.\<close>

definition own_call :: "'r async \<Rightarrow> nat \<Rightarrow> store_call \<Rightarrow> bool" where
  "own_call s n call \<longleftrightarrow> n < as_next s \<and> (\<forall>call'. as_flight s n = Some call' \<longrightarrow> call' = call) \<and>
     (\<forall>call' r. as_replies s n = Some (call', r) \<longrightarrow> call' = call)"

definition login_waits :: "'r async \<Rightarrow> bool" where
  "login_waits s \<longleftrightarrow> (\<forall>i sid n call k. as_login s i sid = Some (n, call, k) \<longrightarrow>
     own_call s n call \<and> login_wait_ok (session_at (cl_login (as_cluster s) i) sid) call k)"

definition world_waits :: "'r async \<Rightarrow> bool" where
  "world_waits s \<longleftrightarrow> (\<forall>j sid n call k. as_world s j sid = Some (n, call, k) \<longrightarrow>
     own_call s n call \<and> world_wait_ok call k)"

definition async_inv :: "(store_server, 'r) login_config \<Rightarrow> async_event list \<Rightarrow> 'r async \<Rightarrow> bool" where
  "async_inv C log s \<longleftrightarrow> cluster_inv C (history log) (as_cluster s) \<and>
     calls_inv C (history log) s \<and> login_waits s \<and> world_waits s"

lemma call_ok_append: "call_ok C log call \<Longrightarrow> call_ok C (log @ evs) call"
  by (cases call) (simp_all add: earned_append)

lemma reply_ok_append: "reply_ok C log call r \<Longrightarrow> reply_ok C (log @ evs) call r"
  by (cases call; cases r) (simp_all add: earned_append)

lemma calls_inv_append: "calls_inv C log s \<Longrightarrow> calls_inv C (log @ evs) s"
  unfolding calls_inv_def using call_ok_append reply_ok_append by blast

lemma cluster_inv_append: "cluster_inv C log s \<Longrightarrow> cluster_inv C (log @ evs) s"
  using all_values_mono [OF _ good_value_append]
  by (fastforce simp: cluster_inv_def simp del: split_paired_All intro: session_logged_append earned_append)

lemma no_answer_ok: "reply_ok C log call (no_answer call)"
  by (cases call) simp_all

text \<open>Only the calls, the waits and the state of the processes matter to a conjunct.\<close>

lemma inv_cong:
  "calls_inv C log (s\<lparr>as_cluster := c\<rparr>) = calls_inv C log s"
  "calls_inv C log (s\<lparr>as_login := l\<rparr>) = calls_inv C log s"
  "calls_inv C log (s\<lparr>as_world := w\<rparr>) = calls_inv C log s"
  "calls_inv C log (s\<lparr>as_master := m\<rparr>) = calls_inv C log s"
  "own_call (s\<lparr>as_cluster := c\<rparr>) = own_call s"
  "own_call (s\<lparr>as_login := l\<rparr>) = own_call s"
  "own_call (s\<lparr>as_world := w\<rparr>) = own_call s"
  "own_call (s\<lparr>as_master := m\<rparr>) = own_call s"
  by (simp_all add: calls_inv_def own_call_def fun_eq_iff)

lemma send_call_simps [simp]:
  "as_cluster (send_call call s) = as_cluster s" "as_login (send_call call s) = as_login s"
  "as_world (send_call call s) = as_world s" "as_master (send_call call s) = as_master s"
  by (simp_all add: send_call_def)

lemma read_reply_simps [simp]:
  "as_cluster (read_reply n s) = as_cluster s" "as_login (read_reply n s) = as_login s"
  "as_world (read_reply n s) = as_world s" "as_next (read_reply n s) = as_next s"
  "as_master (read_reply n s) = as_master s"
  by (simp_all add: read_reply_def)

lemma calls_send:
  assumes "calls_inv C log s" and "call_ok C log call"
  shows "calls_inv C log (send_call call s)"
  using assms unfolding calls_inv_def send_call_def by (auto simp: less_Suc_eq)

lemma own_send: "own_call s n call' \<Longrightarrow> own_call (send_call call s) n call'"
  by (auto simp: own_call_def send_call_def)

lemma own_sent: "calls_inv C log s \<Longrightarrow> own_call (send_call call s) (as_next s) call"
  by (fastforce simp: calls_inv_def own_call_def send_call_def)

lemma calls_read: "calls_inv C log s \<Longrightarrow> calls_inv C log (read_reply n s)"
  by (auto simp: calls_inv_def read_reply_def)

lemma own_read: "own_call s m call \<Longrightarrow> own_call (read_reply n s) m call"
  by (simp add: own_call_def read_reply_def)

lemma waits_read:
  "login_waits s \<Longrightarrow> login_waits (read_reply n s)" "world_waits s \<Longrightarrow> world_waits (read_reply n s)"
  unfolding login_waits_def world_waits_def read_reply_simps using own_read by blast+

lemma waits_send:
  "login_waits s \<Longrightarrow> login_waits (send_call call s)" "world_waits s \<Longrightarrow> world_waits (send_call call s)"
  unfolding login_waits_def world_waits_def send_call_simps using own_send by blast+

lemma inv_read: "async_inv C log s \<Longrightarrow> async_inv C log (read_reply n s)"
  by (simp add: async_inv_def calls_read waits_read)

lemma inv_send: "async_inv C log s \<Longrightarrow> call_ok C (history log) call \<Longrightarrow> async_inv C log (send_call call s)"
  by (simp add: async_inv_def calls_send waits_send)

text \<open>What comes back for the call of a session.\<close>

lemma comes_back_ok:
  assumes "calls_inv C log s" and "own_call s n call" and "comes_back s n call r"
  shows "reply_ok C log call r"
  using assms no_answer_ok unfolding comes_back_def calls_inv_def own_call_def by blast

section \<open>Each step keeps the invariant\<close>

lemma cluster_inv_login:
  assumes "cluster_inv C log c" and "lg_world h = cl_store c"
    and "\<And>sid. session_logged C log (session_at h sid)"
  shows "cluster_inv C log (login_back i h c)"
  using assms by (simp add: cluster_inv_def login_back_def del: split_paired_All)

lemma inv_login_settle:
  assumes inv: "async_inv C log s" and h: "after_segment seg = h"
    and world: "lg_world h = cl_store (as_cluster s)"
    and others: "\<And>sid'. sid' \<noteq> sid \<Longrightarrow> session_at h sid' = session_at (cl_login (as_cluster s) i) sid'"
    and mine: "session_logged C (history (log @ evs)) (session_at h sid)"
    and call: "\<And>call k h' c. seg = Awaits call k h' c \<Longrightarrow>
      call_ok C (history (log @ evs)) call \<and> login_wait_ok (session_at h sid) call k"
  shows "async_inv C (log @ evs) (login_settle i sid seg s)"
proof -
  have cl: "cluster_inv C (history (log @ evs)) (as_cluster s)"
    and calls: "calls_inv C (history (log @ evs)) s" and lw: "login_waits s" and ww: "world_waits s"
    using inv by (simp_all add: async_inv_def cluster_inv_append calls_inv_append)
  have "session_logged C (history (log @ evs)) (session_at h sid')" for sid'
  proof (cases "sid' = sid")
    case False
    with others cl show ?thesis unfolding cluster_inv_def by metis
  qed (use mine in simp)
  then have cl': "cluster_inv C (history (log @ evs)) (login_back i h (as_cluster s))"
    by (intro cluster_inv_login cl world)
  have login: "cl_login (login_back i h (as_cluster s)) = (cl_login (as_cluster s))(i := h)"
    by (simp add: login_back_def)
  show ?thesis
  proof (cases seg)
    case (Ends ex h' c)
    then have "login_settle i sid seg s = s\<lparr>as_cluster := login_back i h (as_cluster s),
        as_login := (as_login s)(i := (as_login s i)(sid := None))\<rparr>" using h by simp
    then show ?thesis
      using cl' calls lw ww others
      by (simp add: async_inv_def inv_cong login_waits_def world_waits_def login del: split_paired_All)
  next
    case (Awaits call k h' c)
    then have seg: "login_settle i sid seg s = (send_call call s)\<lparr>as_cluster := login_back i h (as_cluster s),
        as_login := (as_login s)(i := (as_login s i)(sid \<mapsto> (as_next s, call, k)))\<rparr>" using h by simp
    have "own_call (send_call call s) (as_next s) call" by (rule own_sent [OF calls])
    with call [OF Awaits] show ?thesis
      unfolding seg
      using cl' calls_send [OF calls] waits_send(1) [OF lw] waits_send(2) [OF ww] others
      by (simp add: async_inv_def inv_cong login_waits_def world_waits_def login del: split_paired_All)
  qed
qed

lemma inv_login_message:
  assumes C: "login_connected C iter" and inv: "async_inv C log s"
    and begins: "login_begin C sid p (login_view (as_cluster s) i) c = seg"
  shows "async_inv C (log @ map Logged (proof_events C i sid p (login_view (as_cluster s) i)))
    (login_settle i sid seg s)"
proof -
  let ?h = "login_view (as_cluster s) i" and ?st = "session_at (cl_login (as_cluster s) i) sid"
  let ?evs = "proof_events C i sid p ?h"
  have log: "session_logged C (history log) ?st"
    using inv by (cases sid) (simp add: async_inv_def cluster_inv_def)
  then have log': "session_logged C (history (log @ map Logged ?evs)) ?st"
    by (simp add: session_logged_append)
  from begins show ?thesis
  proof (cases rule: login_begin_cases)
    case (ends ex h' c')
    then show ?thesis
      by (intro inv_login_settle [OF inv refl]) (use log' in simp_all)
  next
    case (hello d h' c')
    from login_decode_widths [OF hello(2)] hello show ?thesis
      by (intro inv_login_settle [OF inv refl]) (use log' in auto)
  next
    case (checked d ch res token h' c')
    have "?evs = [Proved i sid (ls_username ?st) ch (l_A d) (l_M1 d)]"
      using checked by (simp add: proof_events_def proof_accepted_def)
    moreover have "challenged C (history log) (ls_username ?st) ch"
      using log checked(5,6) by (simp add: session_logged_def)
    ultimately have "proved C (history (log @ map Logged ?evs)) (ls_username ?st)"
      using proved_now [OF _ checked(7)] by simp
    then have "earned C (history (log @ map Logged ?evs)) (bytes_of (ls_username ?st))"
      unfolding earned_def by blast
    moreover have "length (ls_username ?st) < 65536" using log by (simp add: session_logged_def)
    ultimately have "call_ok C (history (log @ map Logged ?evs))
        (Put_Call token (bytes_of (ls_username ?st)) (lc_session_ttl C))"
      using C checked(8) by (simp add: login_connected_def)
    with checked(1,3-5) show ?thesis
      by (intro inv_login_settle [OF inv refl]) (use log' in simp_all)
  qed
qed

lemma inv_login_resumed:
  assumes C: "login_connected C iter" and inv: "async_inv C log s"
    and waits: "as_login s i sid = Some (n, call, k)" and reply: "comes_back s n call r"
    and resumes: "login_resume C sid k r (login_view (as_cluster s) i) c = seg"
  shows "async_inv C (log @ taken_events C i sid call k r (login_view (as_cluster s) i) (after_segment seg))
    (login_settle i sid seg (read_reply n s))"
proof -
  let ?h = "login_view (as_cluster s) i" and ?st = "session_at (cl_login (as_cluster s) i) sid"
  let ?evs = "taken_events C i sid call k r ?h (after_segment seg)"
  have inv': "async_inv C log (read_reply n s)" by (rule inv_read [OF inv])
  have "login_waits s" using inv by (simp add: async_inv_def)
  with waits have k: "login_wait_ok ?st call k" and own: "own_call s n call"
    unfolding login_waits_def by blast+
  have "reply_ok C (history log) call r"
    using inv by (intro comes_back_ok [OF _ own reply]) (simp add: async_inv_def)
  have log: "session_logged C (history log) ?st"
    using inv by (cases sid) (simp add: async_inv_def cluster_inv_def)
  then have log': "session_logged C (history (log @ ?evs)) ?st"
    by (simp add: session_logged_append)
  from resumes show ?thesis
  proof (cases rule: login_resume_cases)
    case (ends ex h' c')
    then show ?thesis
      by (intro inv_login_settle [OF inv' refl]) (use log' in simp_all)
  next
    case (challenge u v account a reg ch h' c')
    from k challenge(1) obtain key where call: "call = Take_Call key" and u: "length u < 65536"
        and st: "ls_stage ?st = AwaitingHello"
      by (cases call) auto
    from st challenge have "history ?evs = [Challenged i sid u account ch]" by (simp add: call)
    moreover have "challenge_from C u account ch"
      using challenge by (auto simp: challenge_from_def)
    ultimately have "challenged C (history (log @ ?evs)) u ch"
      by (intro challengedI [of i sid]) simp_all
    with u challenge(6-8) show ?thesis
      by (intro inv_login_settle [OF inv' refl]) (simp_all add: session_logged_def)
  next
    case (stored M2 token c')
    from k stored(1) have "ls_stage ?st = AwaitingProof" by (cases call) auto
    with stored show ?thesis
      by (intro inv_login_settle [OF inv' refl])
        (use log' in \<open>auto simp: rpc_key_ok_def kWorldPrefix_def\<close>)
  next
    case (listed c' h')
    from k listed(1) have "ls_stage ?st = AwaitingProof" by (cases call) auto
    with log' have "session_logged C (history (log @ ?evs)) (?st\<lparr>ls_stage := Done\<rparr>)"
      by (simp add: session_logged_def)
    with listed show ?thesis
      by (intro inv_login_settle [OF inv' refl]) simp_all
  qed
qed

text \<open>World.\<close>

lemma world_begin_cases:
  assumes "world_begin e sid p h c = seg"
  obtains (ends) ex h' c' where "seg = Ends ex h' c'" "wd_world h' = wd_world h"
      "authenticated_as h' = authenticated_as h"
  | (token) h' c' where "seg = Awaits (Take_Call (string_of p)) After_Token h' c'"
      "wd_world h' = wd_world h" "authenticated_as h' = authenticated_as h"
proof -
  let ?h = "h\<lparr>wd_sessions := (wd_sessions h)(sid \<mapsto> world_ctx sid h)\<rparr>"
  have same: "authenticated_as ?h = authenticated_as h"
    by (auto simp: authenticated_as_def world_ctx_def new_world_session_def fun_eq_iff split: option.splits)
  consider "seg = Awaits (Take_Call (string_of p)) After_Token ?h c" | c' where "seg = Ends None ?h c'"
    using assms by (auto simp: world_begin_def Let_def split: if_splits)
  then show thesis using ends token same by cases auto
qed

lemma world_resume_cases:
  assumes "world_resume sid k r h c = seg"
  obtains (ends) ex c' where "seg = Ends ex h c'"
  | (admitted) v h' where "r = Take_Done (Inr (Some v))" "seg = Ends None h' c" "wd_world h' = wd_world h"
      "\<And>sid' u. authenticated_as h' sid' u \<longleftrightarrow>
         (if sid' = sid then u = string_of v else authenticated_as h sid' u)"
  using assms
proof (induction sid k r h c rule: world_resume.induct)
  case (3 sid found h c)
  then show ?case
    by (intro 3(2) [of found "h\<lparr>wd_sessions := (wd_sessions h)
       (sid \<mapsto> \<lparr>ws_authenticated = True, ws_username = string_of found\<rparr>)\<rparr>"])
      (auto simp: authenticated_as_def)
qed auto

lemma inv_world_settle:
  assumes inv: "async_inv C log s" and h: "after_segment seg = h"
    and world: "wd_world h = cl_store (as_cluster s)"
    and users: "\<And>sid u. authenticated_as h sid u \<Longrightarrow> \<exists>v. u = string_of v \<and> earned C (history log) v"
    and call: "\<And>call k h' c. seg = Awaits call k h' c \<Longrightarrow>
      call_ok C (history log) call \<and> world_wait_ok call k"
  shows "async_inv C log (world_settle j sid seg s)"
proof -
  have cl: "cluster_inv C (history log) (as_cluster s)"
    and calls: "calls_inv C (history log) s" and lw: "login_waits s" and ww: "world_waits s"
    using inv by (simp_all add: async_inv_def)
  have cl': "cluster_inv C (history log) (world_back j h (as_cluster s))"
    using cl users world unfolding cluster_inv_def world_back_def by (simp del: split_paired_All)
  have login: "cl_login (world_back j h (as_cluster s)) = cl_login (as_cluster s)"
    by (simp add: world_back_def)
  show ?thesis
  proof (cases seg)
    case (Ends ex h' c)
    then have "world_settle j sid seg s = s\<lparr>as_cluster := world_back j h (as_cluster s),
        as_world := (as_world s)(j := (as_world s j)(sid := None))\<rparr>" using h by simp
    then show ?thesis
      using cl' calls lw ww
      by (simp add: async_inv_def inv_cong login_waits_def world_waits_def login del: split_paired_All)
  next
    case (Awaits call k h' c)
    then have seg: "world_settle j sid seg s = (send_call call s)\<lparr>as_cluster := world_back j h (as_cluster s),
        as_world := (as_world s)(j := (as_world s j)(sid \<mapsto> (as_next s, call, k)))\<rparr>" using h by simp
    have "own_call (send_call call s) (as_next s) call" by (rule own_sent [OF calls])
    with call [OF Awaits] show ?thesis
      unfolding seg
      using cl' calls_send [OF calls] waits_send(1) [OF lw] waits_send(2) [OF ww]
      by (simp add: async_inv_def inv_cong login_waits_def world_waits_def login del: split_paired_All)
  qed
qed

lemma inv_world_message:
  assumes inv: "async_inv C log s" and p: "length p \<le> read_buffer_bytes World"
    and begins: "world_begin e sid p (world_view (as_cluster s) j) c = seg"
  shows "async_inv C log (world_settle j sid seg s)"
proof -
  have users: "\<exists>v. u = string_of v \<and> earned C (history log) v"
    if "authenticated_as (cl_world (as_cluster s) j) sid u" for sid u
    using inv that unfolding async_inv_def cluster_inv_def by blast
  have "length p < 65536" using p by simp
  with begins show ?thesis
    by (cases rule: world_begin_cases; intro inv_world_settle [OF inv refl]) (auto dest: users)
qed

lemma inv_world_resumed:
  assumes inv: "async_inv C log s" and waits: "as_world s j sid = Some (n, call, k)"
    and reply: "comes_back s n call r"
    and resumes: "world_resume sid k r (world_view (as_cluster s) j) c = seg"
  shows "async_inv C (log @ opened_events j sid call r) (world_settle j sid seg (read_reply n s))"
proof -
  have inv': "async_inv C log (read_reply n s)" by (rule inv_read [OF inv])
  have "world_waits s" using inv by (simp add: async_inv_def)
  with waits have k: "world_wait_ok call k" and own: "own_call s n call"
    unfolding world_waits_def by blast+
  have ok: "reply_ok C (history log) call r"
    using inv by (intro comes_back_ok [OF _ own reply]) (simp add: async_inv_def)
  have users: "\<exists>v. u = string_of v \<and> earned C (history log) v"
    if "authenticated_as (cl_world (as_cluster s) j) sid u" for sid u
    using inv that unfolding async_inv_def cluster_inv_def by blast
  have "async_inv C log (world_settle j sid seg (read_reply n s))"
    using resumes
  proof (cases rule: world_resume_cases)
    case (ends ex c')
    then show ?thesis
      by (intro inv_world_settle [OF inv' refl]) (auto dest: users)
  next
    case (admitted v h')
    from ok k admitted(1) have "earned C (history log) v" by (cases call) auto
    with admitted(2-4) show ?thesis
      by (intro inv_world_settle [OF inv' refl]) (auto dest: users split: if_splits)
  qed
  moreover have "history (opened_events j sid call r) = []"
    by (cases "(j, sid, call, r)" rule: opened_events.cases) simp_all
  ultimately show ?thesis by (simp add: async_inv_def)
qed

text \<open>The store handles a call.\<close>

lemma client_take_value:
  assumes "crypto_ok E hk" and "values_ok (sv_store sv)" and "length key < 65536"
    and "client_take e E hk (loopback e E hk iter) key sv = (Inr (Some v), sv')"
  shows "live (sv_now sv) (sv_store sv) key = Some v \<and>
    sv_store sv' = snd (store_take key (sv_now sv) (sv_store sv))"
proof (cases "rpc_key_ok key")
  case True
  then show ?thesis
    using client_take_loopback [OF assms(1) True, of sv e iter] live_value_ok [OF assms(2)] assms(4) by auto
next
  case False
  with client_take_oversize [OF assms(1) False assms(3), of e iter sv] assms(4) show ?thesis by simp
qed

lemma perform_inv:
  assumes crypto: "crypto_ok E hk" and vals: "all_values (good_value C log) (sv_store sv)"
    and ok: "call_ok C log call" and step: "perform e E hk (loopback e E hk iter) call sv = (r, sv')"
  shows "all_values (good_value C log) (sv_store sv') \<and> reply_ok C log call r"
proof -
  have vok: "values_ok (sv_store sv)"
    using vals by (auto simp: values_ok_def good_value_def elim: all_values_mono)
  show ?thesis
  proof (cases call)
    case (Put_Call key v ttl)
    obtain b where put: "client_put e E hk (loopback e E hk iter) key v ttl sv = (b, sv')" "r = Put_Done b"
      using step Put_Call by (auto split: prod.splits)
    have "good_value C log v" if "44 + length key + length v \<le> 4096"
      using ok that by (simp add: Put_Call good_value_def rpc_value_ok_def kMaxResponseBytes_def)
    moreover have "defined b" using defined_client(2) put(1) by (metis fst_conv)
    ultimately show ?thesis
      using client_put_effect [OF crypto _ _ _ put(1)] ok vals
      by (auto simp: Put_Call put(2) intro!: all_values_put)
  next
    case (Take_Call key)
    obtain res where take: "client_take e E hk (loopback e E hk iter) key sv = (res, sv')" "r = Take_Done res"
      using step Take_Call by (auto split: prod.splits)
    have key: "length key < 65536" using ok by (simp add: Take_Call)
    have "earned C log v" if "res = Inr (Some v)" for v
      using client_take_effect(2) [OF crypto vok key take(1) that] all_values_live [OF vals]
      by (simp add: good_value_def)
    moreover have "all_values (good_value C log) (sv_store sv')"
      using client_take_effect(1) [OF crypto vok key take(1)] vals all_values_take by metis
    moreover have "defined res" using defined_client(1) take(1) by (metis fst_conv)
    ultimately show ?thesis by (simp add: Take_Call take(2))
  next
    case (List_Call prefix)
    obtain res where listed: "client_list_prefix e E hk (loopback e E hk iter) prefix sv = (res, sv')"
        "r = List_Done res"
      using step List_Call by (auto split: prod.splits)
    from ok have "rpc_key_ok prefix" by (simp add: List_Call)
    moreover have "defined res" using defined_client(3) listed(1) by (metis fst_conv)
    ultimately show ?thesis
      using client_list_prefix_same [OF crypto _ listed(1)] vals by (simp add: List_Call listed(2))
  qed
qed

lemma inv_serve:
  assumes C: "login_connected C iter" and inv: "async_inv C log s"
    and flight: "as_flight s n = Some call"
    and step: "perform (lc_endian C) (lc_openssl C) (lc_store_key C)
      (loopback (lc_endian C) (lc_openssl C) (lc_store_key C) iter) call (cl_store (as_cluster s)) = (r, sv)"
  shows "async_inv C (log @ served_events call)
    (s\<lparr>as_cluster := (as_cluster s)\<lparr>cl_store := sv\<rparr>, as_flight := (as_flight s)(n := None),
       as_replies := (as_replies s)(n \<mapsto> (call, r))\<rparr>)" (is "async_inv C _ ?s")
proof -
  have cl: "cluster_inv C (history log) (as_cluster s)" and calls: "calls_inv C (history log) s"
    and lw: "login_waits s" and ww: "world_waits s"
    using inv by (simp_all add: async_inv_def)
  have n: "n < as_next s" and ok: "call_ok C (history log) call"
    using calls flight by (simp_all add: calls_inv_def)
  have crypto: "crypto_ok (lc_openssl C) (lc_store_key C)" using C by (simp add: login_connected_def)
  have vals: "all_values (good_value C (history log)) (sv_store (cl_store (as_cluster s)))"
    using cl by (simp add: cluster_inv_def)
  note eff = perform_inv [OF crypto vals ok step]
  have "cluster_inv C (history log) ((as_cluster s)\<lparr>cl_store := sv\<rparr>)"
    by (rule cluster_inv_store [OF cl conjunct1 [OF eff]])
  moreover have "calls_inv C (history log) ?s"
    using calls n eff by (simp add: calls_inv_def)
  moreover have own: "own_call ?s m call'" if "own_call s m call'" for m call'
    using that flight by (auto simp: own_call_def)
  have "login_waits ?s" "world_waits ?s"
    using lw ww own unfolding login_waits_def world_waits_def
    by (simp_all del: split_paired_All)
  moreover have "history (served_events call) = []" by (cases call) simp_all
  ultimately show ?thesis by (simp add: async_inv_def)
qed

text \<open>The steps that \<open>Cluster\<close> has as well, and the invariant of every run.\<close>

lemma inv_cluster_part:
  assumes "async_inv C log s" and "cluster_inv C (history log) c"
    and "\<And>i sid. as_login s i sid \<noteq> None \<Longrightarrow>
      session_at (cl_login c i) sid = session_at (cl_login (as_cluster s) i) sid"
  shows "async_inv C log (s\<lparr>as_cluster := c\<rparr>)"
  using assms by (fastforce simp: async_inv_def inv_cong login_waits_def world_waits_def simp del: split_paired_All)

lemma inv_master_settle:
  assumes inv: "async_inv C log s"
    and store: "all_values (good_value C (history log)) (sv_store (ms_sv (after_master seg)))"
  shows "async_inv C log (master_settle sid seg s)"
proof -
  have cl: "cluster_inv C (history log) (master_back m (as_cluster s))" if "m = after_master seg" for m
    using inv store that by (simp add: async_inv_def cluster_inv_def master_back_def)
  have "cl_login (master_back m (as_cluster s)) = cl_login (as_cluster s)" for m
    by (simp add: master_back_def)
  with inv cl show ?thesis
    by (cases seg) (simp_all add: async_inv_def inv_cong login_waits_def world_waits_def)
qed

lemma async_inv_step:
  assumes C: "login_connected C iter" "is_iteration iter" and inv: "async_inv C log s"
    and step: "async_step C iter ttl s evs s'"
  shows "async_inv C (log @ evs) s'"
proof -
  have cl: "cluster_inv C (history log) (as_cluster s)" using inv by (simp add: async_inv_def)
  have from_cluster: "async_inv C (log @ evs) (s\<lparr>as_cluster := c\<rparr>)"
    if "cluster_step C iter ttl (as_cluster s) [] c" and "history evs = []"
      and "\<And>i sid. as_login s i sid \<noteq> None \<Longrightarrow>
        session_at (cl_login c i) sid = session_at (cl_login (as_cluster s) i) sid" for c
    using inv_cluster_part [OF inv _ that(3)] cluster_inv_step [OF C cl that(1)] that(2)
    by (simp add: async_inv_def)
  from step show ?thesis
  proof cases
    case (master_message p sid c seg)
    have "all_values (good_value C (history log)) (sv_store (ms_sv (after_master seg)))"
      using cl by (simp add: cluster_inv_def flip: master_message(5)) (simp add: master_begin_store)
    with inv_master_settle [OF inv] show ?thesis by (simp add: master_message(1,2))
  next
    case (master_resumed sid ticket li c ex m c')
    have "all_values (good_value C (history log)) (sv_store (ms_sv m))"
      using cl master_resumed(4) by (auto simp: cluster_inv_def master_resume_def intro!: all_values_put)
    with inv_master_settle [OF inv, of "Master_Ends ex m c'"]
    have "async_inv C log s'" by (simp add: master_resumed(2))
    then show ?thesis by (simp add: master_resumed(1) async_inv_def)
  next
    case login_message
    then show ?thesis unfolding login_message(1,2) by (intro inv_login_message [OF C(1) inv])
  next
    case login_resumed
    then show ?thesis unfolding login_resumed(1,2) by (intro inv_login_resumed [OF C(1) inv])
  next
    case (login_closed i sid)
    then show ?thesis
      unfolding login_closed(2)
      by (intro from_cluster cluster_step.login_gone)
        (auto simp: login_back_def login_on_disconnect_def login_view_def session_at_def)
  next
    case world_message
    with inv_world_message [OF inv world_message(3,5)] show ?thesis by simp
  next
    case world_resumed
    then show ?thesis unfolding world_resumed(1,2) by (intro inv_world_resumed [OF inv])
  next
    case (world_closed j sid)
    then show ?thesis
      unfolding world_closed(2)
      by (intro from_cluster cluster_step.world_gone) (auto simp: world_back_def)
  next
    case serve
    then show ?thesis unfolding serve(1,2) by (intro inv_serve [OF C(1) inv])
  next
    case (login_beat a)
    then show ?thesis
      using login_entry_short [of a] by (auto intro!: inv_send [OF inv] simp: earned_def heartbeat_ttl_def)
  next
    case (world_beat a n)
    have "earned C (history log) (world_announcement (lc_endian C) a n)" by (auto simp: earned_def)
    with world_beat show ?thesis
      using world_entry_short [of a] by (auto intro!: inv_send [OF inv] simp: heartbeat_ttl_def)
  next
    case (sweep clk)
    show ?thesis unfolding sweep(2) by (intro from_cluster cluster_step.sweep) (simp_all add: sweep(1))
  next
    case (accounts i r)
    show ?thesis
      unfolding accounts(2)
      by (intro from_cluster cluster_step.accounts) (auto simp: accounts(1) session_at_def)
  qed
qed

lemma async_reachable_inv:
  assumes "login_connected C iter" and "is_iteration iter" and "async_reachable C iter ttl log s"
  shows "async_inv C log s"
  using assms(3)
proof induction
  case (start c)
  then have "cluster_reachable C iter ttl [] c" by (rule cluster_reachable.start)
  from cluster_reachable_inv [OF assms(1,2) this] show ?case
    by (simp add: async_inv_def idle_def calls_inv_def login_waits_def world_waits_def)
next
  case (step log s evs s')
  then show ?case using async_inv_step [OF assms(1,2)] by blast
qed

lemma async_user_core:
  assumes "login_connected C iter" and "is_iteration iter" and "async_reachable C iter ttl log s"
    and "authenticated_as (cl_world (as_cluster s) j) sid u"
  shows "u = [] \<or> (\<exists>a. u = string_of (login_announcement (lc_endian C) a)) \<or>
    (\<exists>a n. u = string_of (world_announcement (lc_endian C) a n)) \<or> proved C (history log) u"
proof -
  from async_reachable_inv [OF assms(1-3)] assms(4) obtain v where "u = string_of v" "earned C (history log) v"
    unfolding async_inv_def cluster_inv_def by blast
  then show ?thesis by (auto simp: earned_def string_of_bytes_of)
qed

section \<open>A key admits at most as many sessions as it was put\<close>

text \<open>
  What a key can still admit: it stands in the store, or an answer with its value is on its way.
\<close>

definition has_key :: "string \<Rightarrow> shared_store \<Rightarrow> bool" where
  "has_key key st \<longleftrightarrow> map_of (entries st) key \<noteq> None"

definition unread :: "string \<Rightarrow> 'r async \<Rightarrow> nat set" where
  "unread key s = {n. \<exists>v. as_replies s n = Some (Take_Call key, Take_Done (Inr (Some v)))}"

definition credit :: "string \<Rightarrow> 'r async \<Rightarrow> nat" where
  "credit key s = of_bool (has_key key (sv_store (cl_store (as_cluster s)))) + card (unread key s)"

lemma has_key_put: "has_key key (store_put k v ttl now st) \<longleftrightarrow> key = k \<or> has_key key st"
  by (simp add: has_key_def store_put_def update_conv')

lemma has_key_take: "has_key key (snd (store_take k now st)) \<Longrightarrow> has_key key st"
  by (auto simp: has_key_def store_take_def delete_conv' split: option.splits if_splits)

lemma has_key_taken:
  "live now st key = Some v \<Longrightarrow> has_key key st \<and> \<not> has_key key (snd (store_take key now st))"
  by (auto simp: has_key_def store_take_def live_def unexpired_def delete_conv' bind_eq_Some_conv
      split: option.splits if_splits)

lemma has_key_sweep:
  assumes "is_iteration iter" and "has_key key (snd (sweep_expired iter clk st))"
  shows "has_key key st"
proof -
  obtain kept n where "sweep_loop clk 0 (iter (entries st)) = (kept, n)" by force
  with assms sweep_loop_kept [of clk 0 "iter (entries st)" kept n] show ?thesis
    by (auto simp: has_key_def sweep_expired_def set_iteration map_of_eq_None_iff image_iff dest!: map_of_SomeD)
qed

lemma put_use_count_simps [simp]:
  "put_count key [] = 0" "put_count key (e # evs) = of_bool (e = Put_Served key) + put_count key evs"
  "put_count key (log @ evs) = put_count key log + put_count key evs"
  "use_count key [] = 0" "use_count key (e # evs) = of_bool (used_key e = Some key) + use_count key evs"
  "use_count key (log @ evs) = use_count key log + use_count key evs"
  by (simp_all add: put_count_def use_count_def)

lemma put_use_count_Logged [simp]: "put_count key (map Logged evs) = 0" "use_count key (map Logged evs) = 0"
  by (induction evs) simp_all

lemma settle_replies [simp]:
  "as_replies (send_call call s) = as_replies s"
  "as_replies (login_settle i sid seg s) = as_replies s"
  "as_replies (world_settle j sid wseg s) = as_replies s"
  by (simp_all add: send_call_def, cases seg, simp_all add: send_call_def, cases wseg, simp_all add: send_call_def)

lemma settle_store:
  "lg_world (after_segment seg) = cl_store (as_cluster s) \<Longrightarrow>
     cl_store (as_cluster (login_settle i sid seg s)) = cl_store (as_cluster s)"
  by (cases seg) (simp_all add: login_back_def)

lemma world_settle_store:
  "wd_world (after_segment seg) = cl_store (as_cluster s) \<Longrightarrow>
     cl_store (as_cluster (world_settle j sid seg s)) = cl_store (as_cluster s)"
  by (cases seg) (simp_all add: world_back_def)

lemma login_begin_world: "login_begin C sid p h c = seg \<Longrightarrow> lg_world (after_segment seg) = lg_world h"
  by (erule login_begin_cases) simp_all

lemma login_resume_world: "login_resume C sid k r h c = seg \<Longrightarrow> lg_world (after_segment seg) = lg_world h"
  by (erule login_resume_cases) simp_all

lemma world_begin_world: "world_begin e sid p h c = seg \<Longrightarrow> wd_world (after_segment seg) = wd_world h"
  by (erule world_begin_cases) simp_all

lemma world_resume_world: "world_resume sid k r h c = seg \<Longrightarrow> wd_world (after_segment seg) = wd_world h"
  by (erule world_resume_cases) simp_all

text \<open>The answer that a session reads, and what a hello or an admission needs.\<close>

definition brings :: "string \<Rightarrow> store_call \<Rightarrow> call_result \<Rightarrow> bool" where
  "brings key call r \<longleftrightarrow> (\<exists>v. call = Take_Call key \<and> r = Take_Done (Inr (Some v)))"

lemma use_count_taken: "use_count key (taken_events C i sid call k r h h') \<le> of_bool (brings key call r)"
  by (cases "(C, i, sid, call, k, r, h, h')" rule: taken_events.cases)
    (auto simp: brings_def split: option.split sum.split)

lemma use_count_opened: "use_count key (opened_events j sid call r) \<le> of_bool (brings key call r)"
  by (cases "(j, sid, call, r)" rule: opened_events.cases) (auto simp: brings_def)

lemma finite_unread: "calls_inv C log s \<Longrightarrow> finite (unread key s)"
  by (rule finite_subset [of _ "{..<as_next s}"]) (auto simp: unread_def calls_inv_def)

lemma unread_read:
  assumes calls: "calls_inv C log s" and own: "own_call s n call" and reply: "comes_back s n call r"
  shows "card (unread key (read_reply n s)) + of_bool (brings key call r) \<le> card (unread key s)"
proof -
  have sub: "unread key (read_reply n s) \<subseteq> unread key s - {n}"
    by (auto simp: unread_def read_reply_def)
  show ?thesis
  proof (cases "brings key call r")
    case True
    then have "r \<noteq> no_answer call" by (auto simp: brings_def)
    with True own reply have "n \<in> unread key s"
      by (auto simp: brings_def comes_back_def own_call_def unread_def)
    then have "card (unread key s - {n}) + 1 = card (unread key s)"
      using card_Suc_Diff1 [OF finite_unread [OF calls]] by simp
    moreover have "card (unread key (read_reply n s)) \<le> card (unread key s - {n})"
      using sub finite_unread [OF calls] by (intro card_mono) simp_all
    ultimately show ?thesis using True by simp
  next
    case False
    have "card (unread key (read_reply n s)) \<le> card (unread key s)"
      using sub finite_unread [OF calls] by (intro card_mono) auto
    with False show ?thesis by simp
  qed
qed

lemma credit_le:
  assumes "as_replies s' = as_replies s"
    and "has_key key (sv_store (cl_store (as_cluster s'))) \<Longrightarrow>
      has_key key (sv_store (cl_store (as_cluster s))) \<or> e"
  shows "credit key s' \<le> credit key s + of_bool e"
  using assms by (auto simp: credit_def unread_def)

lemma credit_resumed:
  assumes "calls_inv C log s" and "own_call s n call" and "comes_back s n call r"
    and "as_replies s' = as_replies (read_reply n s)" and "cl_store (as_cluster s') = cl_store (as_cluster s)"
    and "use_count key evs \<le> of_bool (brings key call r)"
  shows "credit key s' + use_count key evs \<le> credit key s"
  using unread_read [OF assms(1-3), of key] assms(4-6) by (simp add: credit_def unread_def)

lemma master_settle_simps [simp]:
  "as_replies (master_settle sid seg s) = as_replies s"
  "as_cluster (master_settle sid seg s) = master_back (after_master seg) (as_cluster s)"
  by (cases seg; simp)+

lemma credit_serve:
  assumes crypto: "crypto_ok E hk" and vals: "values_ok (sv_store sv)"
    and ok: "call_ok C log call" and step: "perform e E hk (loopback e E hk iter) call sv = (r, sv')"
  shows "of_bool (has_key key (sv_store sv')) + of_bool (brings key call r)
    \<le> of_bool (has_key key (sv_store sv)) + put_count key (served_events call)"
proof (cases call)
  case (Put_Call k v ttl)
  obtain b where put: "client_put e E hk (loopback e E hk iter) k v ttl sv = (b, sv')"
    using step Put_Call by (auto split: prod.splits)
  from client_put_effect [OF crypto _ _ _ put] ok show ?thesis
    by (auto simp: Put_Call brings_def has_key_put)
next
  case (Take_Call k)
  obtain res where take: "client_take e E hk (loopback e E hk iter) k sv = (res, sv')" "r = Take_Done res"
    using step Take_Call by (auto split: prod.splits)
  have k: "length k < 65536" using ok by (simp add: Take_Call)
  show ?thesis
  proof (cases "brings key call r")
    case True
    then obtain v where "k = key" "res = Inr (Some v)"
      by (auto simp: brings_def Take_Call take(2))
    with client_take_value [OF crypto vals k] take(1)
    have "live (sv_now sv) (sv_store sv) key = Some v"
      "sv_store sv' = snd (store_take key (sv_now sv) (sv_store sv))" by blast+
    with has_key_taken True show ?thesis by fastforce
  next
    case False
    have "has_key key (sv_store sv') \<Longrightarrow> has_key key (sv_store sv)"
      using client_take_effect(1) [OF crypto vals k take(1)] has_key_take by metis
    with False show ?thesis by simp
  qed
next
  case (List_Call prefix)
  obtain res where listed: "client_list_prefix e E hk (loopback e E hk iter) prefix sv = (res, sv')"
    using step List_Call by (auto split: prod.splits)
  from ok have "rpc_key_ok prefix" by (simp add: List_Call)
  from client_list_prefix_same [OF crypto this listed] show ?thesis
    by (simp add: List_Call brings_def)
qed

lemma credit_step:
  assumes C: "login_connected C iter" "is_iteration iter" and inv: "async_inv C log s"
    and step: "async_step C iter ttl s evs s'"
  shows "credit key s' + use_count key evs \<le> credit key s + put_count key evs"
proof -
  have calls: "calls_inv C (history log) s" using inv by (simp add: async_inv_def)
  from step show ?thesis
  proof cases
    case (master_message p sid c seg)
    have "credit key s' \<le> credit key s + of_bool False"
      unfolding master_message(2)
      by (intro credit_le)
        (simp_all add: master_back_def flip: master_message(5), simp add: master_begin_store)
    then show ?thesis by (simp add: master_message(1))
  next
    case (master_resumed sid ticket li c ex m c')
    have "credit key s' \<le> credit key s + of_bool (ticket = key)"
      unfolding master_resumed(2) using master_resumed(4)
      by (intro credit_le) (auto simp: master_back_def master_resume_def has_key_put)
    then show ?thesis by (simp add: master_resumed(1))
  next
    case (login_message p i sid c seg)
    have "credit key s' \<le> credit key s + of_bool False"
      unfolding login_message(2)
      using settle_store [of seg s] login_begin_world [OF login_message(5)] by (intro credit_le) simp_all
    then show ?thesis by (simp add: login_message(1))
  next
    case (login_resumed i sid n call k r c seg)
    have own: "own_call s n call"
      using inv login_resumed(3) unfolding async_inv_def login_waits_def by blast
    have "credit key s' + use_count key evs \<le> credit key s"
      unfolding login_resumed(1,2)
      using settle_store [of seg "read_reply n s" i sid] login_resume_world [OF login_resumed(5)]
      by (intro credit_resumed [OF calls own login_resumed(4)] use_count_taken) simp_all
    then show ?thesis by simp
  next
    case (world_message p j sid c seg)
    have "credit key s' \<le> credit key s + of_bool False"
      unfolding world_message(2)
      using world_settle_store [of seg s] world_begin_world [OF world_message(5)] by (intro credit_le) simp_all
    then show ?thesis by (simp add: world_message(1))
  next
    case (world_resumed j sid n call k r c seg)
    have own: "own_call s n call"
      using inv world_resumed(3) unfolding async_inv_def world_waits_def by blast
    have "credit key s' + use_count key evs \<le> credit key s"
      unfolding world_resumed(1,2)
      using world_settle_store [of seg "read_reply n s" j sid] world_resume_world [OF world_resumed(5)]
      by (intro credit_resumed [OF calls own world_resumed(4)] use_count_opened) simp_all
    then show ?thesis by simp
  next
    case (serve n call r sv)
    have vals: "values_ok (sv_store (cl_store (as_cluster s)))"
      using inv cluster_inv_values_ok by (auto simp: async_inv_def)
    have "crypto_ok (lc_openssl C) (lc_store_key C)" using C(1) by (simp add: login_connected_def)
    moreover have "call_ok C (history log) call" using calls serve(3) by (simp add: calls_inv_def)
    ultimately have "of_bool (has_key key (sv_store sv)) + of_bool (brings key call r)
      \<le> of_bool (has_key key (sv_store (cl_store (as_cluster s)))) + put_count key (served_events call)"
      by (rule credit_serve [OF _ vals _ serve(4)])
    moreover have "card (unread key s') \<le> card (unread key s) + of_bool (brings key call r)"
    proof -
      have "unread key s' \<subseteq> (if brings key call r then insert n (unread key s) else unread key s)"
        by (auto simp: serve(2) unread_def brings_def split: if_splits)
      from card_mono [OF _ this] finite_unread [OF calls] card_insert_le_m1 show ?thesis
        by (auto simp: card_insert_if split: if_splits)
    qed
    moreover have "use_count key (served_events call) = 0" by (cases call) simp_all
    ultimately show ?thesis by (simp add: serve(1,2) credit_def)
  next
    case (sweep clk)
    have "credit key s' \<le> credit key s + of_bool False"
      using has_key_sweep [OF C(2), of key] by (intro credit_le) (auto simp: sweep(2))
    then show ?thesis by (simp add: sweep(1))
  qed (auto simp: credit_def unread_def login_back_def login_on_disconnect_def
      world_back_def world_on_disconnect_def login_view_def world_view_def)
qed

lemma async_use_count_core:
  assumes "login_connected C iter" and "is_iteration iter" and "async_reachable C iter ttl log s"
  shows "credit key s + use_count key log \<le> put_count key log"
  using assms(3)
proof induction
  case (start c)
  then show ?case by (simp add: credit_def unread_def idle_def has_key_def empty_store_def)
next
  case (step log s evs s')
  from credit_step [OF assms(1,2) async_reachable_inv [OF assms(1,2) step(1)] step(2), of key] step.IH
  show ?case by simp
qed

section \<open>Who was admitted is in the log\<close>

definition admissions_logged :: "async_event list \<Rightarrow> 'r async \<Rightarrow> bool" where
  "admissions_logged log s \<longleftrightarrow>
     (\<forall>j sid u. authenticated_as (cl_world (as_cluster s) j) sid u \<longrightarrow> (\<exists>key. World_Opened j sid key \<in> set log)) \<and>
     (\<forall>i sid. ls_stage (session_at (cl_login (as_cluster s) i) sid) \<noteq> AwaitingHello \<longrightarrow>
        (\<exists>key. Ticket_Used i sid key \<in> set log))"

lemma admissions_keep:
  assumes "admissions_logged log s"
    and "\<And>j sid u. authenticated_as (cl_world (as_cluster s') j) sid u \<Longrightarrow>
      authenticated_as (cl_world (as_cluster s) j) sid u \<or> (\<exists>key. World_Opened j sid key \<in> set evs)"
    and "\<And>i sid. ls_stage (session_at (cl_login (as_cluster s') i) sid) \<noteq> AwaitingHello \<Longrightarrow>
      ls_stage (session_at (cl_login (as_cluster s) i) sid) \<noteq> AwaitingHello \<or>
      (\<exists>key. Ticket_Used i sid key \<in> set evs)"
  shows "admissions_logged (log @ evs) s'"
  using assms unfolding admissions_logged_def by (simp del: split_paired_All) blast

lemma settle_cluster:
  "as_cluster (login_settle i sid seg s) = login_back i (after_segment seg) (as_cluster s)"
  "as_cluster (world_settle j sid wseg s) = world_back j (after_segment wseg) (as_cluster s)"
  by (cases seg, simp_all, cases wseg, simp_all)

lemma back_simps [simp]:
  "cl_world (login_back i h c) = cl_world c" "cl_login (login_back i h c) = (cl_login c)(i := h)"
  "cl_login (world_back j wh c) = cl_login c" "cl_world (world_back j wh c) = (cl_world c)(j := wh)"
  "cl_login (master_back m c) = cl_login c" "cl_world (master_back m c) = cl_world c"
  by (simp_all add: login_back_def world_back_def master_back_def)

lemma departed:
  "session_at (login_on_disconnect sid h) sid' = (if sid' = sid then new_login_session else session_at h sid')"
  "authenticated_as (world_on_disconnect sid wh) sid' u \<longleftrightarrow> sid' \<noteq> sid \<and> authenticated_as wh sid' u"
  "ls_stage new_login_session = AwaitingHello"
  by (auto simp: session_at_def login_on_disconnect_def authenticated_as_def world_on_disconnect_def
      new_login_session_def)

lemma resumed_stage:
  assumes "login_resume C sid k r h c = seg" and "login_wait_ok (session_at h sid) call k"
    and "ls_stage (session_at (after_segment seg) sid') \<noteq> AwaitingHello"
  shows "ls_stage (session_at h sid') \<noteq> AwaitingHello \<or>
    sid' = sid \<and> (\<exists>key. Ticket_Used i sid key \<in> set (taken_events C i sid call k r h (after_segment seg)))"
  using assms(1)
proof (cases rule: login_resume_cases)
  case (ends ex h' c')
  then show ?thesis using assms(3) by simp
next
  case (stored M2 token c')
  then show ?thesis using assms(3) by simp
next
  case (challenge username v account a reg ch h' c')
  from assms(2) challenge(1) have "\<exists>key. call = Take_Call key" by (cases call) simp_all
  then obtain key where call: "call = Take_Call key" by blast
  have "Ticket_Used i sid key \<in> set (taken_events C i sid call k r h (after_segment seg))"
    unfolding call challenge(1,2) taken_events.simps by (rule list.set_intros(1))
  moreover have "session_at (after_segment seg) sid' = session_at h sid'" if "sid' \<noteq> sid"
    using challenge(6,8) that by simp
  ultimately show ?thesis using assms(3) by metis
next
  case (listed c' h')
  from assms(2) listed(1) have "ls_stage (session_at h sid) = AwaitingProof" by (cases call) auto
  moreover have "session_at (after_segment seg) sid' = session_at h sid'" if "sid' \<noteq> sid"
    using listed(2,4) that by simp
  ultimately show ?thesis using assms(3) by (metis login_stage.distinct)
qed

lemma admissions_step:
  assumes inv: "async_inv C log s" and adm: "admissions_logged log s" and step: "async_step C iter ttl s evs s'"
  shows "admissions_logged (log @ evs) s'"
  using step
proof cases
  case (login_message p i sid c seg)
  have "session_at (after_segment seg) = session_at (login_view (as_cluster s) i)"
    using login_message(5) by (cases rule: login_begin_cases) simp_all
  then show ?thesis
    by (intro admissions_keep [OF adm]) (simp_all add: login_message(2) settle_cluster split: if_splits)
next
  case (login_resumed i sid n call k r c seg)
  have "login_wait_ok (session_at (login_view (as_cluster s) i) sid) call k"
    using inv login_resumed(3) unfolding async_inv_def login_waits_def view_simps by blast
  from resumed_stage [OF login_resumed(5) this] show ?thesis
    by (intro admissions_keep [OF adm])
      (auto simp: login_resumed(1,2) settle_cluster simp del: taken_events.simps split: if_splits)
next
  case (world_message p j sid c seg)
  have "authenticated_as (after_segment seg) = authenticated_as (world_view (as_cluster s) j)"
    using world_message(5) by (cases rule: world_begin_cases) simp_all
  then show ?thesis
    by (intro admissions_keep [OF adm]) (simp_all add: world_message(2) settle_cluster split: if_splits)
next
  case (world_resumed j sid n call k r c seg)
  have k: "world_wait_ok call k"
    using inv world_resumed(3) unfolding async_inv_def world_waits_def by blast
  from world_resumed(5) have "authenticated_as (after_segment seg) sid' u \<Longrightarrow>
      authenticated_as (cl_world (as_cluster s) j) sid' u \<or>
      sid' = sid \<and> (\<exists>key. World_Opened j sid key \<in> set (opened_events j sid call r))" for sid' u
  proof (cases rule: world_resume_cases)
    case (admitted v h')
    with k obtain key where "call = Take_Call key" by (cases call) auto
    then show "authenticated_as (after_segment seg) sid' u \<Longrightarrow> ?thesis"
      using admitted by (auto split: if_splits)
  qed simp
  then show ?thesis
    by (intro admissions_keep [OF adm])
      (auto simp: world_resumed(1,2) settle_cluster split: if_splits)
next
  case master_message
  then show ?thesis by (intro admissions_keep [OF adm]) auto
next
  case master_resumed
  then show ?thesis by (intro admissions_keep [OF adm]) auto
next
  case login_closed
  then show ?thesis by (intro admissions_keep [OF adm]) (auto simp: departed split: if_splits)
next
  case world_closed
  then show ?thesis by (intro admissions_keep [OF adm]) (auto simp: departed split: if_splits)
next
  case serve
  then show ?thesis by (intro admissions_keep [OF adm]) (auto simp: departed split: if_splits)
next
  case login_beat
  then show ?thesis by (intro admissions_keep [OF adm]) (auto simp: departed split: if_splits)
next
  case world_beat
  then show ?thesis by (intro admissions_keep [OF adm]) (auto simp: departed split: if_splits)
next
  case sweep
  then show ?thesis by (intro admissions_keep [OF adm]) (auto simp: departed split: if_splits)
next
  case accounts
  then show ?thesis by (intro admissions_keep [OF adm]) (auto simp: departed split: if_splits)
qed

lemma admissions_core:
  assumes "login_connected C iter" and "is_iteration iter" and "async_reachable C iter ttl log s"
  shows "admissions_logged log s"
  using assms(3)
proof induction
  case (start c)
  then show ?case
    by (simp add: admissions_logged_def idle_def session_at_def authenticated_as_def new_login_session_def)
next
  case (step log s evs s')
  then show ?case using admissions_step [OF async_reachable_inv [OF assms(1,2) step(1)]] by blast
qed

section \<open>No piece of a handler is undefined\<close>

definition segment_defined :: "('k, 'h) segment \<Rightarrow> bool" where
  "segment_defined seg = (case seg of Ends ex h c \<Rightarrow> ex \<noteq> Some Undefined | Awaits call k h c \<Rightarrow> True)"

lemma segment_defined_simps [simp]:
  "segment_defined (Ends ex h c) \<longleftrightarrow> ex \<noteq> Some Undefined" "segment_defined (Awaits call k h c)"
  by (simp_all add: segment_defined_def)

lemma login_begin_defined:
  assumes "session_logged C log (session_at h sid)"
  shows "segment_defined (login_begin C sid p h c)"
proof (cases "login_decode (lc_endian C) p")
  case None
  then show ?thesis by (simp add: login_begin_def)
next
  case d: (Some d)
  have "segment_defined (proof_checked C (session_at h sid) (l_A d) (l_M1 d) h' c)"
    if "ls_stage (session_at h sid) = AwaitingProof" for h'
  proof -
    from assms that obtain ch where ch: "ls_challenge (session_at h sid) = Some ch"
      by (auto simp: session_logged_def)
    show ?thesis
      by (auto simp: proof_checked_def ch defined_srp(3) [unfolded defined_def]
          defined_crypto(6) [unfolded defined_def] split: sum.split)
  qed
  then show ?thesis by (simp add: login_begin_def d Let_def)
qed

lemma login_resume_defined:
  assumes "login_wait_ok st call k" and "reply_ok C log call r"
  shows "segment_defined (login_resume C' sid k r h c)"
proof (cases k)
  case (After_Take u)
  with assms obtain res where r: "r = Take_Done res" and def: "defined res"
    by (cases call; cases r) auto
  show ?thesis
    using def
    by (auto simp: After_Take r hello_taken_def Let_def defined_def defined_registration [unfolded defined_def]
        defined_srp(2) [unfolded defined_def] split: sum.split option.split prod.split)
next
  case (After_Put M2 token)
  with assms obtain res where r: "r = Put_Done res" and def: "defined res"
    by (cases call; cases r) auto
  show ?thesis
    using def by (auto simp: After_Put r proof_stored_def defined_def split: sum.split)
next
  case After_List
  with assms obtain res where r: "r = List_Done res" and def: "defined res"
    by (cases call; cases r) auto
  show ?thesis
    using def by (auto simp: After_List r proof_listed_def defined_def split: sum.split)
qed

lemma world_resume_defined:
  assumes "world_wait_ok call k" and "reply_ok C log call r"
  shows "segment_defined (world_resume sid k r h c)"
proof (cases k)
  case After_Token
  with assms obtain res where r: "r = Take_Done res" and def: "defined res"
    by (cases call; cases r) auto
  show ?thesis
    unfolding r After_Token
    by (cases "(sid, After_Token, Take_Done res, h, c)" rule: world_resume.cases)
      (use def in \<open>auto simp: defined_def\<close>)
qed

lemma pieces_defined_core:
  assumes "login_connected C iter" and "is_iteration iter" and "async_reachable C iter ttl log s"
  shows "segment_defined (login_begin C sid p (login_view (as_cluster s) i) c) \<and>
    segment_defined (world_begin (lc_endian C) sid p (world_view (as_cluster s) j) c) \<and>
    (\<forall>n call k r. as_login s i sid = Some (n, call, k) \<and> comes_back s n call r \<longrightarrow>
       segment_defined (login_resume C sid k r (login_view (as_cluster s) i) c)) \<and>
    (\<forall>n call k r. as_world s j sid = Some (n, call, k) \<and> comes_back s n call r \<longrightarrow>
       segment_defined (world_resume sid k r (world_view (as_cluster s) j) c))"
proof -
  have inv: "async_inv C log s" by (rule async_reachable_inv [OF assms])
  then have calls: "calls_inv C (history log) s" by (simp add: async_inv_def)
  have "session_logged C (history log) (session_at (login_view (as_cluster s) i) sid)"
    using inv by (cases sid) (simp add: async_inv_def cluster_inv_def)
  then have 1: "segment_defined (login_begin C sid p (login_view (as_cluster s) i) c)"
    by (rule login_begin_defined)
  have 2: "segment_defined (world_begin (lc_endian C) sid p (world_view (as_cluster s) j) c)"
    by (simp add: world_begin_def Let_def)
  have 3: "segment_defined (login_resume C sid k r (login_view (as_cluster s) i) c)"
    if "as_login s i sid = Some (n, call, k)" "comes_back s n call r" for n call k r
  proof -
    from inv that(1) have "own_call s n call" "login_wait_ok (session_at (cl_login (as_cluster s) i) sid) call k"
      unfolding async_inv_def login_waits_def by blast+
    with comes_back_ok [OF calls _ that(2)] login_resume_defined show ?thesis by blast
  qed
  have 4: "segment_defined (world_resume sid k r (world_view (as_cluster s) j) c)"
    if "as_world s j sid = Some (n, call, k)" "comes_back s n call r" for n call k r
  proof -
    from inv that(1) have "own_call s n call" "world_wait_ok call k"
      unfolding async_inv_def world_waits_def by blast+
    with comes_back_ok [OF calls _ that(2)] world_resume_defined show ?thesis by blast
  qed
  show ?thesis using 1 2 3 4 by blast
qed

end
