(* ===== verification/Async_Refinement.thy ===== *)
theory Async_Refinement
  imports Async_Cluster
begin

text \<open>
  What \<open>Cluster\<close> says of atomic handlers is a part of what \<open>Async_Cluster\<close> says of handlers that
  wait: every step of \<open>Cluster\<close> is a sequence of its steps, in which one session runs from one call
  to the next while no other waits, and which leaves the same states and the same log.
\<close>

section \<open>One session runs while no other waits\<close>

text \<open>No session waits.\<close>

definition quiescent :: "'r async \<Rightarrow> bool" where
  "quiescent s \<longleftrightarrow> as_login s = (\<lambda>_. Map.empty) \<and> as_world s = (\<lambda>_. Map.empty) \<and>
     as_master s = Map.empty"

text \<open>One session has come to the end of a segment, and the others do not wait.\<close>

definition login_at :: "nat \<Rightarrow> session_id \<Rightarrow> (login_wait, (store_server, 'r) login_server) segment
    \<Rightarrow> 'r cluster \<Rightarrow> 'r async \<Rightarrow> bool" where
  "login_at i sid seg c0 s \<longleftrightarrow> as_cluster s = login_back i (after_segment seg) c0 \<and>
     as_world s = (\<lambda>_. Map.empty) \<and> as_master s = Map.empty \<and>
     (case seg of
        Ends ex h c \<Rightarrow> as_login s = (\<lambda>_. Map.empty)
      | Awaits call k h c \<Rightarrow> \<exists>n. as_flight s n = Some call \<and>
          as_login s = (\<lambda>_. Map.empty)(i := [sid \<mapsto> (n, call, k)]))"

definition world_at_segment :: "nat \<Rightarrow> session_id \<Rightarrow> (world_wait, store_server world_server) segment
    \<Rightarrow> 'r cluster \<Rightarrow> 'r async \<Rightarrow> bool" where
  "world_at_segment j sid seg c0 s \<longleftrightarrow> as_cluster s = world_back j (after_segment seg) c0 \<and>
     as_login s = (\<lambda>_. Map.empty) \<and> as_master s = Map.empty \<and>
     (case seg of
        Ends ex h c \<Rightarrow> as_world s = (\<lambda>_. Map.empty)
      | Awaits call k h c \<Rightarrow> \<exists>n. as_flight s n = Some call \<and>
          as_world s = (\<lambda>_. Map.empty)(j := [sid \<mapsto> (n, call, k)]))"

lemma login_settle_at:
  assumes "as_cluster s = c0\<lparr>cl_store := sv\<rparr> \<or> as_cluster s = login_back i h0 c0 \<or>
      as_cluster s = (login_back i h0 c0)\<lparr>cl_store := sv\<rparr>"
    and "as_world s = (\<lambda>_. Map.empty)"
    and "(as_login s)(i := (as_login s i)(sid := None)) = (\<lambda>_. Map.empty)" and "as_master s = Map.empty"
  shows "login_at i sid seg c0 (login_settle i sid seg s)"
proof -
  have same: "login_back i h (as_cluster s) = login_back i h c0" for h
    using assms(1) by (auto simp: login_back_def)
  have upd: "(as_login s)(i := (as_login s i)(sid \<mapsto> x)) = (\<lambda>_. Map.empty)(i := [sid \<mapsto> x])" for x
  proof (intro ext)
    fix a b
    show "((as_login s)(i := (as_login s i)(sid \<mapsto> x))) a b = ((\<lambda>_. Map.empty)(i := [sid \<mapsto> x])) a b"
      using fun_cong [OF fun_cong [OF assms(3), of a], of b] by (auto split: if_splits)
  qed
  show ?thesis
    using assms(2-4) by (cases seg) (auto simp: login_at_def same upd send_call_def)
qed

text \<open>The events of the segment that follows the answer to a call.\<close>

definition call_events :: "(store_server, 'r) login_config \<Rightarrow> nat \<Rightarrow> session_id
    \<Rightarrow> (login_wait, (store_server, 'r) login_server) segment \<Rightarrow> event list" where
  "call_events C i sid seg =
     (case seg of
        Ends ex h c \<Rightarrow> []
      | Awaits call k h c \<Rightarrow>
          (case perform (lc_endian C) (lc_openssl C) (lc_store_key C) (lc_net C (lg_world h)) call (lg_world h) of
             (r, w) \<Rightarrow> history (taken_events C i sid call k r (h\<lparr>lg_world := w\<rparr>)
               (after_segment (login_call C sid seg)))))"

lemma login_call_simulated:
  assumes C: "login_connected C iter" and run: "async_reachable C iter ttl log s"
    and here: "login_at i sid seg c0 s"
  shows "\<exists>log' s'. async_reachable C iter ttl log' s' \<and> login_at i sid (login_call C sid seg) c0 s' \<and>
    history log' = history log @ call_events C i sid seg"
proof (cases seg)
  case (Ends ex h c)
  then show ?thesis using run here by (auto simp: call_events_def)
next
  case (Awaits call k h c)
  let ?c = "as_cluster s"
  from here obtain n where c: "?c = login_back i h c0" and world: "as_world s = (\<lambda>_. Map.empty)"
      and flight: "as_flight s n = Some call" and login: "as_login s = (\<lambda>_. Map.empty)(i := [sid \<mapsto> (n, call, k)])"
      and master: "as_master s = Map.empty"
    by (auto simp: login_at_def Awaits)
  have net: "lc_net C w = loopback (lc_endian C) (lc_openssl C) (lc_store_key C) iter" for w
    using C by (simp add: login_connected_def)
  have store: "cl_store ?c = lg_world h" by (simp add: c login_back_def)
  obtain r w where perf: "perform (lc_endian C) (lc_openssl C) (lc_store_key C)
      (loopback (lc_endian C) (lc_openssl C) (lc_store_key C) iter) call (lg_world h) = (r, w)" by force
  let ?s1 = "s\<lparr>as_cluster := ?c\<lparr>cl_store := w\<rparr>, as_flight := (as_flight s)(n := None),
       as_replies := (as_replies s)(n \<mapsto> (call, r))\<rparr>"
  let ?seg = "login_call C sid seg"
  from async_step.serve [OF flight, of C iter r w ttl] perf
  have "async_step C iter ttl s (served_events call) ?s1" by (simp add: store)
  from async_reachable.step [OF run this] have run1: "async_reachable C iter ttl (log @ served_events call) ?s1" .
  have view: "login_view (as_cluster ?s1) i = h\<lparr>lg_world := w\<rparr>"
    by (simp add: c login_view_def login_back_def)
  have seg': "login_resume C sid k r (h\<lparr>lg_world := w\<rparr>) c = ?seg"
    by (simp add: Awaits net perf)
  let ?evs = "taken_events C i sid call k r (h\<lparr>lg_world := w\<rparr>) (after_segment ?seg)"
  let ?s2 = "login_settle i sid ?seg (read_reply n ?s1)"
  have "async_step C iter ttl ?s1 ?evs ?s2"
    unfolding view [symmetric]
    by (rule async_step.login_resumed [where c = c]) (use seg' in \<open>simp_all add: login comes_back_def c login_view_def login_back_def\<close>)
  from async_reachable.step [OF run1 this]
  have "async_reachable C iter ttl ((log @ served_events call) @ ?evs) ?s2" .
  moreover have "login_at i sid ?seg c0 ?s2"
    by (rule login_settle_at [of _ w c0 i h]) (simp_all add: c world login master fun_eq_iff)
  moreover have "history (served_events call) = []" by (cases call) simp_all
  then have "history ((log @ served_events call) @ ?evs) = history log @ call_events C i sid seg"
    by (simp add: call_events_def Awaits net perf)
  ultimately show ?thesis by blast
qed

lemma hello_taken_ends: "\<exists>ex h' c'. hello_taken C sid username r h c = Ends ex h' c'"
  by (cases rule: hello_taken_cases [OF refl, of C sid username r h c]) auto

lemma taken_events_nil:
  "(\<And>u. k \<noteq> After_Take u) \<Longrightarrow> taken_events C i sid call k r h h' = []"
  by (cases "(C, i, sid, call, k, r, h, h')" rule: taken_events.cases) auto

lemma message_events:
  assumes begins: "login_begin C sid p h c = seg"
    and ends: "login_call C sid (login_call C sid seg) = Ends ex h' c'"
  shows "proof_events C i sid p h @ call_events C i sid seg @ call_events C i sid (login_call C sid seg) =
    challenge_events C i sid p h h' @ proof_events C i sid p h"
  using begins
proof (cases rule: login_begin_cases)
  case (ends ex1 h1 c1)
  with assms(2) have "session_at h' = session_at h" by simp
  then have "challenge_events C i sid p h h' = []"
    by (auto simp: challenge_events_def split: option.split)
  with ends show ?thesis by (simp add: call_events_def)
next
  case (hello d h1 c1)
  have none: "proof_events C i sid p h = []"
    by (auto simp: proof_events_def hello(5) split: option.split)
  obtain r w where perf: "perform (lc_endian C) (lc_openssl C) (lc_store_key C) (lc_net C (lg_world h1))
      (Take_Call (l_ticket d)) (lg_world h1) = (r, w)" by force
  have r: "\<exists>res. r = Take_Done res" using perf by (auto split: prod.splits)
  then obtain res where res: "r = Take_Done res" by blast
  have call: "login_call C sid seg = hello_taken C sid (l_username d) res (h1\<lparr>lg_world := w\<rparr>) c1"
    using perf by (simp add: hello(1) res del: perform.simps)
  with hello_taken_ends assms(2) have seg1: "login_call C sid seg = Ends ex h' c'"
    by (metis login_call.simps(1))
  have evs: "call_events C i sid seg =
      history (taken_events C i sid (Take_Call (l_ticket d)) (After_Take (l_username d)) r (h1\<lparr>lg_world := w\<rparr>) h')"
    using perf seg1 by (simp add: call_events_def hello(1) del: perform.simps)
  have "call_events C i sid seg = challenge_events C i sid p h h'"
  proof (cases "\<exists>v. res = Inr (Some v)")
    case True
    then show ?thesis
      by (auto simp: evs res challenge_events_def hello(2,4,5,6) split: option.split sum.split)
  next
    case False
    have "hello_taken C sid (l_username d) res (h1\<lparr>lg_world := w\<rparr>) c1 = Ends ex h' c'"
      using call seg1 by simp
    then have "session_at h' = session_at h"
      using False hello(4) by (cases rule: hello_taken_cases) (auto simp: fun_eq_iff)
    then have "challenge_events C i sid p h h' = []"
      by (auto simp: challenge_events_def split: option.split)
    moreover have "call_events C i sid seg = []"
      using False by (cases res) (auto simp: evs res split: option.split)
    ultimately show ?thesis by simp
  qed
  then show ?thesis by (simp add: none seg1) (simp add: call_events_def)
next
  case (checked d ch res token h1 c1)
  obtain r w where perf: "perform (lc_endian C) (lc_openssl C) (lc_store_key C) (lc_net C (lg_world h1))
      (Put_Call token (bytes_of (ls_username (session_at h sid))) (lc_session_ttl C)) (lg_world h1) = (r, w)"
    by force
  then obtain b where r: "r = Put_Done b" by (auto split: prod.splits)
  have call: "login_call C sid seg = proof_stored C (sr_M2 res) token b (h1\<lparr>lg_world := w\<rparr>) c1"
    using perf by (simp add: checked(1) r del: perform.simps)
  have "call_events C i sid seg = []"
    using perf by (simp add: call_events_def checked(1) taken_events_nil del: perform.simps split: prod.split)
  moreover have "call_events C i sid (login_call C sid seg) = []"
    unfolding call
    by (cases b) (simp_all add: proof_stored_def call_events_def taken_events_nil
        del: perform.simps login_call.simps split: prod.split)
  moreover have "challenge_events C i sid p h h' = []"
    by (auto simp: challenge_events_def checked(5) split: option.split)
  ultimately show ?thesis by simp
qed

lemma login_message_simulated:
  assumes C: "login_connected C iter" and run: "async_reachable C iter ttl log s" and q: "quiescent s"
    and p: "length p \<le> read_buffer_bytes Login"
    and step: "login_on_message C sid p (login_view (as_cluster s) i) c = (ex, h, c')"
  shows "\<exists>log' s'. async_reachable C iter ttl log' s' \<and> quiescent s' \<and>
    as_cluster s' = login_back i h (as_cluster s) \<and>
    history log' = history log @ challenge_events C i sid p (login_view (as_cluster s) i) h @
      proof_events C i sid p (login_view (as_cluster s) i)"
proof -
  let ?h = "login_view (as_cluster s) i"
  obtain seg where seg: "login_begin C sid p ?h c = seg" by blast
  have fin: "login_call C sid (login_call C sid seg) = Ends ex h c'"
    using login_pieces [of C sid p ?h c] step by (simp add: seg ended_def del: login_call.simps)
  have "as_login s i sid = None" using q by (simp add: quiescent_def)
  from async_reachable.step [OF run async_step.login_message [OF p this seg]]
  have run0: "async_reachable C iter ttl (log @ map Logged (proof_events C i sid p ?h)) (login_settle i sid seg s)" .
  have at0: "login_at i sid seg (as_cluster s) (login_settle i sid seg s)"
    by (rule login_settle_at [of _ "cl_store (as_cluster s)"]) (use q in \<open>simp_all add: quiescent_def fun_eq_iff\<close>)
  from login_call_simulated [OF C run0 at0] obtain log1 s1 where
    run1: "async_reachable C iter ttl log1 s1" and
    at1: "login_at i sid (login_call C sid seg) (as_cluster s) s1" and
    log1: "history log1 = history (log @ map Logged (proof_events C i sid p ?h)) @ call_events C i sid seg" by blast
  from login_call_simulated [OF C run1 at1] obtain log2 s2 where
    run2: "async_reachable C iter ttl log2 s2" and at2: "login_at i sid (Ends ex h c') (as_cluster s) s2" and
    log2: "history log2 = history log1 @ call_events C i sid (login_call C sid seg)"
    unfolding fin by blast
  from at2 have "quiescent s2" "as_cluster s2 = login_back i h (as_cluster s)"
    by (simp_all add: login_at_def quiescent_def)
  moreover have "history log2 = history log @ challenge_events C i sid p ?h h @ proof_events C i sid p ?h"
    using message_events [OF seg fin, of i] by (simp add: log2 log1)
  ultimately show ?thesis using run2 by blast
qed

lemma world_settle_at:
  assumes "as_cluster s = c0 \<or> as_cluster s = (world_back j h0 c0)\<lparr>cl_store := sv\<rparr>"
    and "as_login s = (\<lambda>_. Map.empty)"
    and "(as_world s)(j := (as_world s j)(sid := None)) = (\<lambda>_. Map.empty)" and "as_master s = Map.empty"
  shows "world_at_segment j sid seg c0 (world_settle j sid seg s)"
proof -
  have same: "world_back j h (as_cluster s) = world_back j h c0" for h
    using assms(1) by (auto simp: world_back_def)
  have upd: "(as_world s)(j := (as_world s j)(sid \<mapsto> x)) = (\<lambda>_. Map.empty)(j := [sid \<mapsto> x])" for x
  proof (intro ext)
    fix a b
    show "((as_world s)(j := (as_world s j)(sid \<mapsto> x))) a b = ((\<lambda>_. Map.empty)(j := [sid \<mapsto> x])) a b"
      using fun_cong [OF fun_cong [OF assms(3), of a], of b] by (auto split: if_splits)
  qed
  show ?thesis
    using assms(2-4) by (cases seg) (auto simp: world_at_segment_def same upd send_call_def)
qed

lemma world_call_simulated:
  assumes run: "async_reachable C iter ttl log s" and here: "world_at_segment j sid seg c0 s"
  shows "\<exists>log' s'. async_reachable C iter ttl log' s' \<and>
    world_at_segment j sid (world_call (lc_endian C) (lc_openssl C) (lc_store_key C)
      (\<lambda>_. loopback (lc_endian C) (lc_openssl C) (lc_store_key C) iter) sid seg) c0 s' \<and>
    history log' = history log"
proof (cases seg)
  case (Ends ex h c)
  then show ?thesis using run here by auto
next
  case (Awaits call k h c)
  let ?c = "as_cluster s" and ?net = "loopback (lc_endian C) (lc_openssl C) (lc_store_key C) iter"
  from here obtain n where c: "?c = world_back j h c0" and login: "as_login s = (\<lambda>_. Map.empty)"
      and flight: "as_flight s n = Some call" and world: "as_world s = (\<lambda>_. Map.empty)(j := [sid \<mapsto> (n, call, k)])"
      and master: "as_master s = Map.empty"
    by (auto simp: world_at_segment_def Awaits)
  have store: "cl_store ?c = wd_world h" by (simp add: c world_back_def)
  obtain r w where perf: "perform (lc_endian C) (lc_openssl C) (lc_store_key C) ?net call (wd_world h) = (r, w)"
    by force
  let ?s1 = "s\<lparr>as_cluster := ?c\<lparr>cl_store := w\<rparr>, as_flight := (as_flight s)(n := None),
       as_replies := (as_replies s)(n \<mapsto> (call, r))\<rparr>"
  let ?seg = "world_call (lc_endian C) (lc_openssl C) (lc_store_key C) (\<lambda>_. ?net) sid seg"
  from async_step.serve [OF flight, of C iter r w ttl] perf
  have "async_step C iter ttl s (served_events call) ?s1" by (simp add: store)
  note run1 = async_reachable.step [OF run this]
  let ?s2 = "world_settle j sid ?seg (read_reply n ?s1)"
  have "async_step C iter ttl ?s1 (opened_events j sid call r) ?s2"
    by (rule async_step.world_resumed [where c = c and k = k])
      (simp_all add: world comes_back_def c world_view_def world_back_def Awaits perf)
  from async_reachable.step [OF run1 this]
  have "async_reachable C iter ttl ((log @ served_events call) @ opened_events j sid call r) ?s2" .
  moreover have "world_at_segment j sid ?seg c0 ?s2"
    by (rule world_settle_at [of _ c0 w j h]) (simp_all add: c login world master fun_eq_iff)
  moreover have "history (served_events call) = []" by (cases call) simp_all
  moreover have "history (opened_events j sid call r) = []"
    by (cases "(j, sid, call, r)" rule: opened_events.cases) simp_all
  ultimately show ?thesis by (metis history_simps(2) append_Nil2)
qed

lemma world_message_simulated:
  assumes run: "async_reachable C iter ttl log s" and q: "quiescent s"
    and p: "length p \<le> read_buffer_bytes World"
    and step: "world_at (lc_endian C) (lc_openssl C) (lc_store_key C) iter sid p
      (world_view (as_cluster s) j) c = (ex, h, c')"
  shows "\<exists>log' s'. async_reachable C iter ttl log' s' \<and> quiescent s' \<and>
    as_cluster s' = world_back j h (as_cluster s) \<and> history log' = history log"
proof -
  let ?h = "world_view (as_cluster s) j"
  obtain seg where seg: "world_begin (lc_endian C) sid p ?h c = seg" by blast
  have fin: "world_call (lc_endian C) (lc_openssl C) (lc_store_key C)
      (\<lambda>_. loopback (lc_endian C) (lc_openssl C) (lc_store_key C) iter) sid seg = Ends ex h c'"
    using world_pieces [of "lc_endian C" "lc_openssl C" "lc_store_key C" _ sid p ?h c] step
    by (simp add: seg ended_def world_at_def del: world_call.simps)
  have "as_world s j sid = None" using q by (simp add: quiescent_def)
  from async_reachable.step [OF run async_step.world_message [OF p this seg]]
  have run0: "async_reachable C iter ttl log (world_settle j sid seg s)" by simp
  have at0: "world_at_segment j sid seg (as_cluster s) (world_settle j sid seg s)"
    by (rule world_settle_at) (use q in \<open>simp_all add: quiescent_def fun_eq_iff\<close>)
  from world_call_simulated [OF run0 at0] obtain log1 s1 where
    "async_reachable C iter ttl log1 s1" "world_at_segment j sid (Ends ex h c') (as_cluster s) s1"
    "history log1 = history log"
    unfolding fin by blast
  then show ?thesis by (auto simp: world_at_segment_def quiescent_def)
qed

lemma master_message_simulated:
  assumes run: "async_reachable C iter ttl log s" and q: "quiescent s"
    and p: "length p \<le> read_buffer_bytes Master"
    and step: "master_on_message (lc_endian C) iter ttl p (master_view (as_cluster s)) c = (ex, m, c')"
  shows "\<exists>log' s'. async_reachable C iter ttl log' s' \<and> quiescent s' \<and>
    as_cluster s' = master_back m (as_cluster s) \<and> history log' = history log"
proof -
  obtain seg where seg: "master_begin (lc_endian C) iter p (master_view (as_cluster s)) c = seg" by blast
  have fin: "master_rest (lc_endian C) ttl seg = (ex, m, c')"
    using master_pieces [of "lc_endian C" ttl iter p "master_view (as_cluster s)" c] step by (simp add: seg)
  have free: "as_master s undefined = None" using q by (simp add: quiescent_def)
  from async_reachable.step [OF run async_step.master_message [OF p free seg]]
  have run1: "async_reachable C iter ttl log (master_settle undefined seg s)" by simp
  show ?thesis
  proof (cases seg)
    case (Master_Ends ex1 m1 c1)
    with fin q run1 show ?thesis
      by (intro exI [of _ log] exI [of _ "master_settle undefined seg s"]) (simp add: quiescent_def)
  next
    case (Master_Puts ticket li m1 c1)
    let ?s1 = "master_settle undefined seg s"
    have "master_view (as_cluster ?s1) = m1"
      by (simp add: Master_Puts master_view_def master_back_def)
    with fin have "master_resume (lc_endian C) ttl ticket li (master_view (as_cluster ?s1)) c1 = (ex, m, c')"
      by (simp add: Master_Puts)
    from async_reachable.step [OF run1 async_step.master_resumed [OF _ this, of undefined]]
    have "async_reachable C iter ttl (log @ [Put_Served ticket]) (master_settle undefined (Master_Ends ex m c') ?s1)"
      by (simp add: Master_Puts)
    with q show ?thesis
      by (intro exI [of _ "log @ [Put_Served ticket]"] exI [of _ "master_settle undefined (Master_Ends ex m c') ?s1"])
        (simp add: quiescent_def Master_Puts master_back_def)
  qed
qed

section \<open>The refinement\<close>

lemma direct_simulated:
  assumes "async_reachable C iter ttl log s" and "quiescent s"
    and "async_step C iter ttl s evs (s\<lparr>as_cluster := c\<rparr>)" and "history evs = []"
  shows "\<exists>log' s'. async_reachable C iter ttl log' s' \<and> quiescent s' \<and> as_cluster s' = c \<and>
    history log' = history log @ []"
  using async_reachable.step [OF assms(1,3)] assms(2,4)
  by (intro exI [of _ "log @ evs"] exI [of _ "s\<lparr>as_cluster := c\<rparr>"]) (simp add: quiescent_def)

lemma beat_simulated:
  assumes run: "async_reachable C iter ttl log s" and q: "quiescent s"
    and beat: "async_step C iter ttl s [] (send_call (Put_Call key v heartbeat_ttl) s)"
    and put: "client_put (lc_endian C) (lc_openssl C) (lc_store_key C)
       (loopback (lc_endian C) (lc_openssl C) (lc_store_key C) iter) key v heartbeat_ttl
       (cl_store (as_cluster s)) = (res, sv)"
  shows "\<exists>log' s'. async_reachable C iter ttl log' s' \<and> quiescent s' \<and>
    as_cluster s' = (as_cluster s)\<lparr>cl_store := sv\<rparr> \<and> history log' = history log @ []"
proof -
  let ?s = "send_call (Put_Call key v heartbeat_ttl) s"
  from async_reachable.step [OF run beat] have run1: "async_reachable C iter ttl log ?s" by simp
  have "as_flight ?s (as_next s) = Some (Put_Call key v heartbeat_ttl)" by (simp add: send_call_def)
  from async_step.serve [OF this, of C iter "Put_Done res" sv ttl] put
  have "async_step C iter ttl ?s [Put_Served key] (?s\<lparr>as_cluster := (as_cluster s)\<lparr>cl_store := sv\<rparr>,
      as_flight := (as_flight ?s)(as_next s := None),
      as_replies := (as_replies s)(as_next s \<mapsto> (Put_Call key v heartbeat_ttl, Put_Done res))\<rparr>)" by simp
  note run2 = async_reachable.step [OF run1 this]
  show ?thesis
    by (intro exI conjI, rule run2) (use q in \<open>simp_all add: quiescent_def\<close>)
qed

lemma cluster_step_simulated:
  assumes C: "login_connected C iter" and run: "async_reachable C iter ttl log s" and q: "quiescent s"
    and step: "cluster_step C iter ttl (as_cluster s) evs c"
  shows "\<exists>log' s'. async_reachable C iter ttl log' s' \<and> quiescent s' \<and> as_cluster s' = c \<and>
    history log' = history log @ evs"
proof -
  have free: "as_login s i sid = None" "as_world s i sid = None" for i sid
    using q by (simp_all add: quiescent_def)
  from step show ?thesis
  proof cases
    case (to_master p c' ex m c'')
    from master_message_simulated [OF run q to_master(3,4)] show ?thesis by (simp add: to_master(1,2))
  next
    case (to_login p sid i c' ex h c'')
    from login_message_simulated [OF C run q to_login(3,4)] show ?thesis by (simp add: to_login(1,2))
  next
    case (login_gone i sid)
    from direct_simulated [OF run q async_step.login_closed [OF free(1)]]
    show ?thesis by (simp add: login_gone(1,2))
  next
    case (to_world p sid j c' ex h c'')
    from world_message_simulated [OF run q to_world(3,4)] show ?thesis by (simp add: to_world(1,2))
  next
    case (world_gone j sid)
    from direct_simulated [OF run q async_step.world_closed [OF free(2)]]
    show ?thesis by (simp add: world_gone(1,2))
  next
    case (login_beat a res sv)
    from beat_simulated [OF run q async_step.login_beat [OF login_beat(3)] login_beat(4)]
    show ?thesis by (simp add: login_beat(1,2))
  next
    case (world_beat a n res sv)
    from beat_simulated [OF run q async_step.world_beat [OF world_beat(3,4)] world_beat(5)]
    show ?thesis by (simp add: world_beat(1,2))
  next
    case (sweep clk)
    from direct_simulated [OF run q async_step.sweep] show ?thesis by (simp add: sweep(1,2))
  next
    case (accounts i r)
    from direct_simulated [OF run q async_step.accounts] show ?thesis by (simp add: accounts(1,2))
  qed
qed

lemma cluster_refines_core:
  assumes "login_connected C iter" and "cluster_reachable C iter ttl log c"
  shows "\<exists>log' s. async_reachable C iter ttl log' s \<and> quiescent s \<and> as_cluster s = c \<and> history log' = log"
  using assms(2)
proof induction
  case (start c)
  then have "async_reachable C iter ttl [] (idle c)" by (rule async_reachable.start)
  then show ?case by (intro exI [of _ "[]"] exI [of _ "idle c"]) (simp add: quiescent_def idle_def)
next
  case (step log c evs c')
  then obtain log1 s1 where run: "async_reachable C iter ttl log1 s1" and q: "quiescent s1"
      and c: "as_cluster s1 = c" and log: "history log1 = log" by blast
  from cluster_step_simulated [OF assms(1) run q] step(2) show ?case unfolding c log by blast
qed

end
