(* ===== verification/Client_Sim.thy ===== *)
theory Client_Sim
  imports Cluster
begin

text \<open>
  The client of the game as \<open>tools/client_sim.cpp\<close> plays it: Master for a ticket and the address
  of a Login, SRP6 with that Login, then the list of the worlds. The network is a parameter of the
  client, over any state of the world. The main results: on any network the client shows a list
  of worlds only after it verified the proof of the server, and against the modelled Master and
  Login, started in any state in which a Login is registered and the account exists, it ends with
  the list and a token that the store shows under its username.
\<close>

section \<open>The client's network\<close>

text \<open>
  \<open>sn_resolve\<close> and \<open>sn_connect\<close> throw (the calls have no \<open>as_tuple\<close>); a write tells whether
  it completed; a read of \<open>n\<close> bytes delivers them or fails.
\<close>

datatype sim_socket = Master_Socket | Login_Socket

record ('ep, 'w) sim_net =
  sn_resolve :: "string \<Rightarrow> string \<Rightarrow> 'w \<Rightarrow> 'ep result \<times> 'w"
  sn_connect :: "sim_socket \<Rightarrow> 'ep \<Rightarrow> 'w \<Rightarrow> unit result \<times> 'w"
  sn_write :: "sim_socket \<Rightarrow> bytes \<Rightarrow> 'w \<Rightarrow> bool \<times> 'w"
  sn_read :: "sim_socket \<Rightarrow> nat \<Rightarrow> 'w \<Rightarrow> bytes option \<times> 'w"
  sn_close :: "sim_socket \<Rightarrow> 'w \<Rightarrow> 'w"

text \<open>How \<open>run\<close> ends: each \<open>co_return\<close> with the message it prints before.\<close>

datatype sim_end =
    No_Master_Reply | No_Login_Available | Unreadable_Redirect
  | No_Hello_Reply | Login_Refused
  | No_Proof_Reply | Auth_Refused | Server_Proof_Invalid
  | No_World_List | Unreadable_World_List
  | Listed string "world_entry list"

text \<open>A part of \<open>run\<close>: it goes on with a value, has returned, or has thrown.\<close>

datatype 'a sim = Go 'a | Ended sim_end | Thrown exn

definition bind_sim :: "('w \<Rightarrow> 'a sim \<times> 'w) \<Rightarrow> ('a \<Rightarrow> 'w \<Rightarrow> 'b sim \<times> 'w) \<Rightarrow> 'w \<Rightarrow> 'b sim \<times> 'w" where
  "bind_sim f g w =
     (case f w of (Go a, w') \<Rightarrow> g a w' | (Ended x, w') \<Rightarrow> (Ended x, w') | (Thrown ex, w') \<Rightarrow> (Thrown ex, w'))"

definition lift_sim :: "('w \<Rightarrow> 'a result \<times> 'w) \<Rightarrow> 'w \<Rightarrow> 'a sim \<times> 'w" where
  "lift_sim f w = (case f w of (Inl ex, w') \<Rightarrow> (Thrown ex, w') | (Inr a, w') \<Rightarrow> (Go a, w'))"

definition return_sim :: "'a sim \<Rightarrow> 'w \<Rightarrow> 'a sim \<times> 'w" where
  "return_sim x w = (x, w)"

section \<open>Frames\<close>

definition sim_read_frame :: "endian \<Rightarrow> ('ep, 'w) sim_net \<Rightarrow> sim_socket \<Rightarrow> 'w \<Rightarrow> bytes option \<times> 'w" where
  "sim_read_frame e N sock w =
     (case sn_read N sock kFrameHeaderSize w of
        (None, w') \<Rightarrow> (None, w')
      | (Some header, w') \<Rightarrow>
          (let len = from_network e (u32_of_mem e header)
           in if len = 0 \<or> unat len > 2 ^ 20 then (None, w') else sn_read N sock (unat len) w'))"

definition sim_write_frame :: "endian \<Rightarrow> ('ep, 'w) sim_net \<Rightarrow> sim_socket \<Rightarrow> bytes \<Rightarrow> 'w \<Rightarrow> bool \<times> 'w" where
  "sim_write_frame e N sock payload w =
     sn_write N sock (mem_of_u32 e (to_network e (word_of_nat (length payload))) @ payload) w"

text \<open>\<open>run\<close> does not look at the result of \<open>write_frame\<close>.\<close>

definition sim_send :: "endian \<Rightarrow> ('ep, 'w) sim_net \<Rightarrow> sim_socket \<Rightarrow> bytes \<Rightarrow> 'w \<Rightarrow> unit sim \<times> 'w" where
  "sim_send e N sock payload w = (Go (), snd (sim_write_frame e N sock payload w))"

definition sim_receive :: "endian \<Rightarrow> ('ep, 'w) sim_net \<Rightarrow> sim_socket \<Rightarrow> sim_end \<Rightarrow> 'w \<Rightarrow> bytes sim \<times> 'w" where
  "sim_receive e N sock otherwise w =
     (case sim_read_frame e N sock w of (None, w') \<Rightarrow> (Ended otherwise, w') | (Some m, w') \<Rightarrow> (Go m, w'))"

section \<open>The run\<close>

definition sim_connect :: "('ep, 'w) sim_net \<Rightarrow> sim_socket \<Rightarrow> string \<Rightarrow> u16 \<Rightarrow> 'w \<Rightarrow> unit sim \<times> 'w" where
  "sim_connect N sock host port =
     bind_sim (lift_sim (sn_resolve N host (to_string_nat (unat port)))) (\<lambda>ep.
     lift_sim (sn_connect N sock ep))"

definition sim_master :: "endian \<Rightarrow> ('ep, 'w) sim_net \<Rightarrow> string \<Rightarrow> u16 \<Rightarrow> 'w \<Rightarrow> redirect sim \<times> 'w" where
  "sim_master e N master_host master_port =
     bind_sim (sim_connect N Master_Socket master_host master_port) (\<lambda>_.
     bind_sim (sim_send e N Master_Socket (bytes_of ''hello'')) (\<lambda>_.
     bind_sim (sim_receive e N Master_Socket No_Master_Reply) (\<lambda>master_resp.
     if is_error e master_resp then return_sim (Ended No_Login_Available)
     else case decode_redirect e master_resp of
            None \<Rightarrow> return_sim (Ended Unreadable_Redirect)
          | Some redirect \<Rightarrow> (\<lambda>w. (Go redirect, sn_close N Master_Socket w)))))"

definition sim_hello :: "endian \<Rightarrow> ('ep, 'w) sim_net \<Rightarrow> redirect \<Rightarrow> string \<Rightarrow> 'w \<Rightarrow> login_decoded sim \<times> 'w" where
  "sim_hello e N redirect username =
     bind_sim (sim_connect N Login_Socket (r_login_host redirect) (r_login_port redirect)) (\<lambda>_.
     bind_sim (sim_send e N Login_Socket (encode_client_hello e (r_ticket redirect) username)) (\<lambda>_.
     bind_sim (sim_receive e N Login_Socket No_Hello_Reply) (\<lambda>challenge_msg.
     return_sim (case login_decode e challenge_msg of
        None \<Rightarrow> Ended Login_Refused
      | Some challenge \<Rightarrow> if l_op challenge \<noteq> ServerChallenge then Ended Login_Refused else Go challenge))))"

definition sim_proof :: "endian \<Rightarrow> openssl \<Rightarrow> bn_lib \<Rightarrow> nat option \<Rightarrow> ('ep, 'w) sim_net \<Rightarrow> string \<Rightarrow> string
    \<Rightarrow> login_decoded \<Rightarrow> 'w \<Rightarrow> (client_proof \<times> login_decoded) sim \<times> 'w" where
  "sim_proof e E L rand N username password challenge =
     bind_sim (lift_sim (\<lambda>w. (client_respond E L rand username password (l_salt challenge) (l_B challenge), w)))
       (\<lambda>pr.
     bind_sim (sim_send e N Login_Socket (encode_client_proof e (cp_A_bytes pr) (cp_M1 pr))) (\<lambda>_.
     bind_sim (sim_receive e N Login_Socket No_Proof_Reply) (\<lambda>proof_msg.
     case login_decode e proof_msg of
       None \<Rightarrow> return_sim (Ended Auth_Refused)
     | Some server_proof \<Rightarrow>
         if l_op server_proof \<noteq> ServerProof then return_sim (Ended Auth_Refused)
         else bind_sim (lift_sim (\<lambda>w. (client_verify_server E pr (l_M2 server_proof), w))) (\<lambda>ok.
           return_sim (if \<not> ok then Ended Server_Proof_Invalid else Go (pr, server_proof))))))"

definition sim_worlds :: "endian \<Rightarrow> ('ep, 'w) sim_net \<Rightarrow> string \<Rightarrow> 'w \<Rightarrow> unit sim \<times> 'w" where
  "sim_worlds e N token =
     bind_sim (sim_receive e N Login_Socket No_World_List) (\<lambda>worlds_msg.
     return_sim (case login_decode e worlds_msg of
        None \<Rightarrow> Ended Unreadable_World_List
      | Some worlds \<Rightarrow>
          if l_op worlds \<noteq> WorldList then Ended Unreadable_World_List
          else Ended (Listed token (l_worlds worlds))))"

definition sim_run :: "endian \<Rightarrow> openssl \<Rightarrow> bn_lib \<Rightarrow> nat option \<Rightarrow> ('ep, 'w) sim_net \<Rightarrow> string \<Rightarrow> u16
    \<Rightarrow> string \<Rightarrow> string \<Rightarrow> 'w \<Rightarrow> unit sim \<times> 'w" where
  "sim_run e E L rand N master_host master_port username password =
     bind_sim (sim_master e N master_host master_port) (\<lambda>redirect.
     bind_sim (sim_hello e N redirect username) (\<lambda>challenge.
     bind_sim (sim_proof e E L rand N username password challenge) (\<lambda>(pr, server_proof).
     sim_worlds e N (l_session_token server_proof))))"

text \<open>
  \<open>main\<close>: the exit code, and how the run ended where there was one. An exception, also the one
  of \<open>stoi\<close>, is caught and becomes exit code 1.
\<close>

definition sim_main :: "endian \<Rightarrow> openssl \<Rightarrow> bn_lib \<Rightarrow> nat option \<Rightarrow> ('ep, 'w) sim_net \<Rightarrow> string list \<Rightarrow> 'w
    \<Rightarrow> (int \<times> sim_end option) \<times> 'w" where
  "sim_main e E L rand N argv w =
     (case argv of
        [prog, master_host, master_port, username, password] \<Rightarrow>
          (case stoi 10 master_port of
             Inl ex \<Rightarrow> ((1, None), w)
           | Inr port \<Rightarrow>
               (case sim_run e E L rand N master_host (word_of_int port) username password w of
                  (Thrown ex, w') \<Rightarrow> ((1, None), w')
                | (Ended how, w') \<Rightarrow> ((0, Some how), w')
                | (Go _, w') \<Rightarrow> ((0, None), w')))
      | _ \<Rightarrow> ((1, None), w))"


section \<open>No list without a verified server\<close>

lemma bind_sim_Ended:
  "bind_sim f g w = (Ended x, w') \<longleftrightarrow>
     f w = (Ended x, w') \<or> (\<exists>a w1. f w = (Go a, w1) \<and> g a w1 = (Ended x, w'))"
  by (auto simp: bind_sim_def split: prod.splits sim.splits)

lemma bind_sim_Go:
  "bind_sim f g w = (Go b, w') \<longleftrightarrow> (\<exists>a w1. f w = (Go a, w1) \<and> g a w1 = (Go b, w'))"
  by (auto simp: bind_sim_def split: prod.splits sim.splits)

lemma bind_sim_step: "f w = (Go a, w1) \<Longrightarrow> bind_sim f g w = g a w1"
  by (simp add: bind_sim_def)

lemma basic_ends:
  "lift_sim h w \<noteq> (Ended x, w')" "sim_send e N sock p w \<noteq> (Ended x, w')"
  "sim_connect N sock host port w \<noteq> (Ended x, w')"
  by (auto simp: lift_sim_def sim_send_def sim_connect_def bind_sim_Ended split: prod.splits sum.splits)

lemma sim_receive_Ended: "sim_receive e N sock y w = (Ended x, w') \<Longrightarrow> x = y"
  by (auto simp: sim_receive_def split: prod.splits option.splits)

lemmas sim_ends = bind_sim_Ended bind_sim_Go basic_ends return_sim_def

lemma sim_early_ends:
  "sim_master e N host port w \<noteq> (Ended (Listed token ws), w')"
  "sim_hello e N rd user w \<noteq> (Ended (Listed token ws), w')"
  "sim_proof e E L rand N user pw ch w \<noteq> (Ended (Listed token ws), w')"
  by (auto simp: sim_master_def sim_hello_def sim_proof_def sim_ends dest: sim_receive_Ended
      split: if_splits option.splits)

lemma sim_proof_Go:
  assumes "sim_proof e E L rand N user pw ch w = (Go (pr, d), w')"
  shows "client_respond E L rand user pw (l_salt ch) (l_B ch) = Inr pr \<and> l_op d = ServerProof \<and>
    client_verify_server E pr (l_M2 d) = Inr True"
proof -
  from assms obtain pr' m w1 where
    r: "client_respond E L rand user pw (l_salt ch) (l_B ch) = Inr pr'" and
    rest: "(case login_decode e m of
       None \<Rightarrow> return_sim (Ended Auth_Refused)
     | Some d' \<Rightarrow>
         if l_op d' \<noteq> ServerProof then return_sim (Ended Auth_Refused)
         else bind_sim (lift_sim (\<lambda>w. (client_verify_server E pr' (l_M2 d'), w))) (\<lambda>ok.
           return_sim (if \<not> ok then Ended Server_Proof_Invalid else Go (pr', d')))) w1 = (Go (pr, d), w')"
    unfolding sim_proof_def bind_sim_Go
    by (auto simp: lift_sim_def split: sum.splits)
  from rest obtain d' where d': "login_decode e m = Some d'" "l_op d' = ServerProof"
    by (auto simp: return_sim_def split: option.splits if_splits)
  with rest have "bind_sim (lift_sim (\<lambda>w. (client_verify_server E pr' (l_M2 d'), w))) (\<lambda>ok.
      return_sim (if \<not> ok then Ended Server_Proof_Invalid else Go (pr', d'))) w1 = (Go (pr, d), w')"
    by simp
  then show ?thesis
    using r d' by (auto simp: bind_sim_Go lift_sim_def return_sim_def split: sum.splits if_splits)
qed

lemma sim_worlds_token: "sim_worlds e N t w = (Ended (Listed token ws), w') \<Longrightarrow> token = t"
  by (auto simp: sim_worlds_def sim_ends dest: sim_receive_Ended split: if_splits option.splits)

lemma sim_listed_core:
  assumes "sim_run e E L rand N host port user pw w = (Ended (Listed token ws), w')"
  shows "\<exists>rd w1 ch w2 pr d w3.
    sim_master e N host port w = (Go rd, w1) \<and> sim_hello e N rd user w1 = (Go ch, w2) \<and>
    sim_proof e E L rand N user pw ch w2 = (Go (pr, d), w3) \<and>
    client_respond E L rand user pw (l_salt ch) (l_B ch) = Inr pr \<and>
    client_verify_server E pr (l_M2 d) = Inr True \<and> token = l_session_token d"
proof -
  from assms obtain rd w1 ch w2 pr d w3 where run:
    "sim_master e N host port w = (Go rd, w1)" "sim_hello e N rd user w1 = (Go ch, w2)"
    "sim_proof e E L rand N user pw ch w2 = (Go (pr, d), w3)"
    "sim_worlds e N (l_session_token d) w3 = (Ended (Listed token ws), w')"
    by (auto simp: sim_run_def bind_sim_Ended sim_early_ends split: prod.splits)
  with sim_proof_Go [OF run(3)] sim_worlds_token [OF run(4)] show ?thesis by blast
qed

section \<open>The modelled servers as the client's network\<close>

text \<open>
  The client's two connections to the cluster: what it has not read yet, and the state of the
  server's side. A frame the client writes is read by the session of the server and handed to
  its handler; what the handler sends is put in the inbox. Login runs the session \<open>sid\<close>.
\<close>

record 'r deployed =
  dp_cluster :: "'r cluster"
  dp_inbox :: "sim_socket \<Rightarrow> bytes"
  dp_conn :: "sim_socket \<Rightarrow> conn"

definition handled :: "sim_socket \<Rightarrow> exn option \<Rightarrow> conn \<Rightarrow> 'r cluster \<Rightarrow> 'r deployed \<Rightarrow> 'r deployed" where
  "handled sock ex c cl s =
     s\<lparr>dp_cluster := cl, dp_inbox := (dp_inbox s)(sock := dp_inbox s sock @ sent c),
       dp_conn := (dp_conn s)(sock := (if ex = None then c\<lparr>sent := []\<rparr> else session_close c))\<rparr>"

definition dp_connect :: "(string \<times> string) \<Rightarrow> (string \<times> string) \<Rightarrow> sim_socket \<Rightarrow> (string \<times> string)
    \<Rightarrow> 'r deployed \<Rightarrow> unit result \<times> 'r deployed" where
  "dp_connect master_addr login_addr sock ep s =
     (if ep = (case sock of Master_Socket \<Rightarrow> master_addr | Login_Socket \<Rightarrow> login_addr)
      then (Inr (), s\<lparr>dp_inbox := (dp_inbox s)(sock := []), dp_conn := (dp_conn s)(sock := fresh_conn)\<rparr>)
      else (Inl (Runtime_Error ''connect''), s))"

definition dp_write :: "(store_server, 'r) login_config \<Rightarrow> iteration \<Rightarrow> int \<Rightarrow> nat \<Rightarrow> nat \<times> nat
    \<Rightarrow> sim_socket \<Rightarrow> bytes \<Rightarrow> 'r deployed \<Rightarrow> bool \<times> 'r deployed" where
  "dp_write C iter ticket_ttl i sid sock bs s =
     (let cl = dp_cluster s; c = dp_conn s sock in
      case sock of
        Master_Socket \<Rightarrow>
          (case read_frame (lc_endian C) (read_buffer_bytes Master) bs of
             None \<Rightarrow> (False, s)
           | Some (p, _) \<Rightarrow>
               (case master_on_message (lc_endian C) iter ticket_ttl p (master_view cl) c of
                  (ex, m, c') \<Rightarrow> (True, handled sock ex c' (master_back m cl) s)))
      | Login_Socket \<Rightarrow>
          (case read_frame (lc_endian C) (read_buffer_bytes Login) bs of
             None \<Rightarrow> (False, s)
           | Some (p, _) \<Rightarrow>
               (case login_on_message C sid p (login_view cl i) c of
                  (ex, h, c') \<Rightarrow> (True, handled sock ex c' (login_back i h cl) s))))"

definition dp_read :: "sim_socket \<Rightarrow> nat \<Rightarrow> 'r deployed \<Rightarrow> bytes option \<times> 'r deployed" where
  "dp_read sock n s =
     (if length (dp_inbox s sock) < n then (None, s)
      else (Some (take n (dp_inbox s sock)),
            s\<lparr>dp_inbox := (dp_inbox s)(sock := drop n (dp_inbox s sock))\<rparr>))"

definition deployment :: "(store_server, 'r) login_config \<Rightarrow> iteration \<Rightarrow> int \<Rightarrow> nat \<Rightarrow> nat \<times> nat
    \<Rightarrow> (string \<times> string) \<Rightarrow> (string \<times> string) \<Rightarrow> (string \<times> string, 'r deployed) sim_net" where
  "deployment C iter ticket_ttl i sid master_addr login_addr =
     \<lparr> sn_resolve = (\<lambda>host port s. (Inr (host, port), s)),
       sn_connect = dp_connect master_addr login_addr,
       sn_write = dp_write C iter ticket_ttl i sid,
       sn_read = dp_read,
       sn_close = (\<lambda>sock s. s\<lparr>dp_conn := (dp_conn s)(sock := session_close (dp_conn s sock))\<rparr>) \<rparr>"

text \<open>Reading a whole frame from the inbox.\<close>

lemma sim_read_frame_deployed:
  assumes "dp_inbox s sock = frame e m @ rest" and "frame_fits (2 ^ 20) m"
  shows "sim_read_frame e (deployment C iter ttl i sid ma la) sock s =
    (Some m, s\<lparr>dp_inbox := (dp_inbox s)(sock := rest)\<rparr>)"
proof -
  from assms(2) have len: "unat (word_of_nat (length m) :: u32) = length m" "length m \<noteq> 0"
    and m: "length m \<le> 2 ^ 20"
    by (simp_all add: frame_fits_def)
  then have "(word_of_nat (length m) :: u32) \<noteq> 0" by (metis unsigned_0)
  with len m show ?thesis
    by (simp add: sim_read_frame_def deployment_def dp_read_def assms(1) frame_def kFrameHeaderSize_def)
qed


section \<open>A login against the modelled servers\<close>

text \<open>One message to a server, and the first of the frames that answer it.\<close>

lemma receive_deployed:
  assumes "dp_inbox s sock = frame e m @ rest" and "frame_fits (2 ^ 20) m"
  shows "sim_receive e (deployment C iter ttl i sid ma la) sock x s =
    (Go m, s\<lparr>dp_inbox := (dp_inbox s)(sock := rest)\<rparr>)"
  using sim_read_frame_deployed [OF assms] by (simp add: sim_receive_def)

lemma exchange_login:
  assumes "login_on_message C sid p (login_view (dp_cluster s) i) (dp_conn s Login_Socket) = (None, h, c')"
    and "sent c' = frame (lc_endian C) m @ rest" and "dp_inbox s Login_Socket = []"
    and "frame_fits (read_buffer_bytes Login) p" and "frame_fits (2 ^ 20) m"
  shows "\<exists>s'. bind_sim (sim_send (lc_endian C) (deployment C iter ttl i sid ma la) Login_Socket p)
      (\<lambda>_. bind_sim (sim_receive (lc_endian C) (deployment C iter ttl i sid ma la) Login_Socket x) g) s =
    g m s' \<and> dp_cluster s' = login_back i h (dp_cluster s) \<and> dp_inbox s' Login_Socket = rest \<and>
    dp_conn s' Login_Socket = c'\<lparr>sent := []\<rparr>"
proof -
  let ?N = "deployment C iter ttl i sid ma la"
  define s1 where "s1 = handled Login_Socket None c' (login_back i h (dp_cluster s)) s"
  have send: "sim_send (lc_endian C) ?N Login_Socket p s = (Go (), s1)"
    using frames.dec_enc [OF assms(4), of "lc_endian C" "[]"] assms(1)
    by (simp add: sim_send_def sim_write_frame_def deployment_def dp_write_def Let_def s1_def flip: frame_def)
  have "dp_inbox s1 Login_Socket = frame (lc_endian C) m @ rest"
    by (simp add: handled_def assms(2,3) s1_def)
  note receive = receive_deployed [OF this assms(5), of C iter ttl i sid ma la x]
  show ?thesis
    by (intro exI [of _ "s1\<lparr>dp_inbox := (dp_inbox s1)(Login_Socket := rest)\<rparr>"])
      (simp add: bind_sim_def send receive, simp add: s1_def handled_def)
qed

lemma exchange_master:
  assumes "master_on_message (lc_endian C) iter ttl p (master_view (dp_cluster s)) (dp_conn s Master_Socket) =
      (None, m', c')"
    and "sent c' = frame (lc_endian C) m @ rest" and "dp_inbox s Master_Socket = []"
    and "frame_fits (read_buffer_bytes Master) p" and "frame_fits (2 ^ 20) m"
  shows "\<exists>s'. bind_sim (sim_send (lc_endian C) (deployment C iter ttl i sid ma la) Master_Socket p)
      (\<lambda>_. bind_sim (sim_receive (lc_endian C) (deployment C iter ttl i sid ma la) Master_Socket x) g) s =
    g m s' \<and> dp_cluster s' = master_back m' (dp_cluster s)"
proof -
  let ?N = "deployment C iter ttl i sid ma la"
  define s1 where "s1 = handled Master_Socket None c' (master_back m' (dp_cluster s)) s"
  have send: "sim_send (lc_endian C) ?N Master_Socket p s = (Go (), s1)"
    using frames.dec_enc [OF assms(4), of "lc_endian C" "[]"] assms(1)
    by (simp add: sim_send_def sim_write_frame_def deployment_def dp_write_def Let_def s1_def flip: frame_def)
  have "dp_inbox s1 Master_Socket = frame (lc_endian C) m @ rest"
    by (simp add: handled_def assms(2,3) s1_def)
  note receive = receive_deployed [OF this assms(5), of C iter ttl i sid ma la x]
  show ?thesis
    by (intro exI [of _ "s1\<lparr>dp_inbox := (dp_inbox s1)(Master_Socket := rest)\<rparr>"])
      (simp add: bind_sim_def send receive, simp add: s1_def handled_def)
qed

lemma connect_deployed:
  assumes "(host, to_string_nat (unat port)) = (case sock of Master_Socket \<Rightarrow> ma | Login_Socket \<Rightarrow> la)"
  shows "bind_sim (sim_connect (deployment C iter ttl i sid ma la) sock host port) g s =
    g () (s\<lparr>dp_inbox := (dp_inbox s)(sock := []), dp_conn := (dp_conn s)(sock := fresh_conn)\<rparr>)"
  using assms by (simp add: sim_connect_def bind_sim_def lift_sim_def deployment_def dp_connect_def)


text \<open>The store after Master's redirection, and after Login took the ticket.\<close>

definition after_ticket :: "bytes \<Rightarrow> int \<Rightarrow> store_server \<Rightarrow> store_server" where
  "after_ticket rnd ttl sv =
     sv_tick 1 ((sv_tick (store_size (sv_store sv)) sv)\<lparr>sv_store :=
       store_put (to_hex rnd) [] ttl (put_time sv) (sv_store sv)\<rparr>)"

definition after_take :: "string \<Rightarrow> store_server \<Rightarrow> store_server" where
  "after_take key sv =
     sv_tick 1 (sv\<lparr>sv_store := snd (store_take key (sv_now sv) (sv_store sv))\<rparr>)"

lemma after_ticket_live:
  "live t (sv_store (after_ticket rnd ttl sv)) (to_hex rnd) =
     (if t < put_time sv + ttl * ns_per_second then Some [] else None)"
  by (simp add: after_ticket_def live_put)

lemma after_ticket_values: "values_ok (sv_store sv) \<Longrightarrow> values_ok (sv_store (after_ticket rnd ttl sv))"
  by (simp add: after_ticket_def values_ok_put rpc_value_ok_def kMaxResponseBytes_def)

lemma master_redirects:
  assumes "pick_login e iter (sv_clock_from (ms_sv m)) (sv_store (ms_sv m)) = Some li"
    and "ms_rand m (ms_draws m) = Some rnd" and "length rnd = 16" and "quiet c"
  shows "\<exists>m'. master_on_message e iter ttl p m c =
      (None, m', c\<lparr>sent := sent c @ frame e (encode_redirect e (to_hex rnd) (li_host li) (li_port li))\<rparr>) \<and>
    ms_sv m' = after_ticket rnd ttl (ms_sv m)"
  using assms
  by (simp add: master_on_message_def Let_def quiet_send generate_token_hex_def random_bytes_def
      after_ticket_def put_time_def sv_now_def)

lemma quiet_fresh [simp]: "quiet fresh_conn" "sent fresh_conn = []"
  by (simp_all add: quiet_def fresh_conn_def)

lemma redirect_frame_fits:
  assumes "length h < 65536" and "length t = 32"
  shows "frame_fits (2 ^ 20) (encode_redirect e t h p)"
  using assms by (intro frame_fitsI) (simp_all add: body_redirect enc_str16_def)

lemma hello_fits: "frame_fits (read_buffer_bytes Master) (bytes_of ''hello'')"
  by (simp add: frame_fits_def bytes_of_def)

lemma sim_master_core:
  assumes ma: "ma = (host, to_string_nat (unat port))"
    and pick: "pick_login (lc_endian C) iter (sv_clock_from (cl_store (dp_cluster s)))
      (sv_store (cl_store (dp_cluster s))) = Some li" "length (li_host li) < 65536"
    and rnd: "ms_rand (cl_master (dp_cluster s)) (ms_draws (cl_master (dp_cluster s))) = Some rnd"
      "length rnd = 16"
  shows "\<exists>s' m'. sim_master (lc_endian C) (deployment C iter ttl i sid ma la) host port s =
      (Go \<lparr>r_ticket = to_hex rnd, r_login_host = li_host li, r_login_port = li_port li\<rparr>, s') \<and>
    dp_cluster s' = (dp_cluster s)\<lparr>cl_store := after_ticket rnd ttl (cl_store (dp_cluster s)), cl_master := m'\<rparr>"
proof -
  let ?e = "lc_endian C" and ?N = "deployment C iter ttl i sid ma la"
  let ?m = "encode_redirect ?e (to_hex rnd) (li_host li) (li_port li)"
  let ?s = "s\<lparr>dp_inbox := (dp_inbox s)(Master_Socket := []), dp_conn := (dp_conn s)(Master_Socket := fresh_conn)\<rparr>"
  have ticket: "length (to_hex rnd) = 32" using rnd(2) by (simp add: length_to_hex)
  obtain m' where m': "master_on_message ?e iter ttl (bytes_of ''hello'') (master_view (dp_cluster ?s)) fresh_conn =
      (None, m', fresh_conn\<lparr>sent := frame ?e ?m\<rparr>)" "ms_sv m' = after_ticket rnd ttl (cl_store (dp_cluster s))"
    using master_redirects [of ?e iter "master_view (dp_cluster ?s)" li rnd fresh_conn ttl "bytes_of ''hello''"] pick rnd
    by (auto simp: master_view_def)
  note answers = is_error_redirect [of "to_hex rnd" ?e "li_host li" "li_port li"]
    decode_encode_redirect [of "to_hex rnd" "li_host li" ?e "li_port li"]
  define g where "g = (\<lambda>master_resp.
     if is_error ?e master_resp then return_sim (Ended No_Login_Available)
     else case decode_redirect ?e master_resp of
            None \<Rightarrow> return_sim (Ended Unreadable_Redirect)
          | Some redirect \<Rightarrow> (\<lambda>w. (Go redirect, sn_close ?N Master_Socket w)))"
  obtain s' where s': "bind_sim (sim_send ?e ?N Master_Socket (bytes_of ''hello''))
      (\<lambda>_. bind_sim (sim_receive ?e ?N Master_Socket No_Master_Reply) g) ?s = g ?m s'"
      "dp_cluster s' = master_back m' (dp_cluster ?s)"
    using exchange_master [where c' = "fresh_conn\<lparr>sent := frame ?e ?m\<rparr>" and rest = "[]" and s = ?s and g = g
        and C = C and iter = iter and ttl = ttl and p = "bytes_of ''hello''" and m' = m' and m = ?m and i = i
        and sid = sid and ma = ma and la = la and x = No_Master_Reply]
      m'(1) redirect_frame_fits [OF pick(2) ticket] hello_fits by auto
  have "sim_master ?e ?N host port s = g ?m s'"
    unfolding sim_master_def g_def [symmetric] by (subst connect_deployed, simp add: ma) (rule s'(1))
  also have "\<dots> = (Go \<lparr>r_ticket = to_hex rnd, r_login_host = li_host li, r_login_port = li_port li\<rparr>,
      sn_close ?N Master_Socket s')"
    using answers ticket pick(2) by (simp add: g_def)
  finally show ?thesis
    using s'(2) m'(2) by (auto simp: deployment_def master_back_def)
qed


lemma login_view_back [simp]: "lg_world h = lg_world h \<Longrightarrow> login_view (login_back i h cl) i = h"
  by (simp add: login_view_def login_back_def)

lemma sim_hello_core:
  assumes C: "login_connected C iter" and lib: "bn_documented (lc_bn C)"
    and la: "la = (r_login_host rd, to_string_nat (unat (r_login_port rd)))"
    and h: "session_at (cl_login (dp_cluster s) i) sid = new_login_session"
    and ticket: "rpc_key_ok (r_ticket rd)" "values_ok (sv_store (cl_store (dp_cluster s)))"
      "live (sv_now (cl_store (dp_cluster s))) (sv_store (cl_store (dp_cluster s))) (r_ticket rd) \<noteq> None"
    and user: "length user < 1000"
    and acc: "acc_find (lc_accounts C) (fst sid) user (lg_accounts (cl_login (dp_cluster s) i)) = (Inr (Some a), r)"
    and ch: "server_begin (lc_openssl C) (lc_bn C)
      (lg_bn_rand (cl_login (dp_cluster s) i) (lg_bn_draws (cl_login (dp_cluster s) i))) (ac_verifier a) = Inr ch"
    and salt: "length (ac_salt a) < 65536" and short: "length (r_ticket rd) = 32"
  shows "\<exists>s' h'. sim_hello (lc_endian C) (deployment C iter ttl i sid ma la) rd user s =
      (Go (decoded_login_msg (MChallenge (ac_salt a) (ch_B_bytes ch))), s') \<and>
    dp_cluster s' = login_back i h' (dp_cluster s) \<and> lg_world h' = after_take (r_ticket rd) (cl_store (dp_cluster s)) \<and>
    session_at h' sid = \<lparr>ls_stage = AwaitingProof, ls_username = user, ls_challenge = Some ch\<rparr> \<and>
    lg_rand h' = lg_rand (cl_login (dp_cluster s) i) \<and> lg_draws h' = lg_draws (cl_login (dp_cluster s) i) \<and>
    dp_inbox s' Login_Socket = [] \<and> quiet (dp_conn s' Login_Socket) \<and> sent (dp_conn s' Login_Socket) = []"
proof -
  let ?e = "lc_endian C" and ?N = "deployment C iter ttl i sid ma la"
  let ?s = "s\<lparr>dp_inbox := (dp_inbox s)(Login_Socket := []), dp_conn := (dp_conn s)(Login_Socket := fresh_conn)\<rparr>"
  let ?h = "login_view (dp_cluster s) i" and ?p = "encode_client_hello ?e (r_ticket rd) user"
  let ?m = "encode_server_challenge ?e (ac_salt a) (ch_B_bytes ch)"
  obtain ex h' c' where step: "login_on_message C sid ?p ?h fresh_conn = (ex, h', c')" by (metis prod_cases3)
  have reg: "registration_for C (Some a) user (lg_rand ?h (lg_draws ?h)) =
      Inr \<lparr>reg_salt = ac_salt a, reg_verifier = ac_verifier a\<rparr>"
    by (simp add: registration_for_def)
  have ch': "server_begin (lc_openssl C) (lc_bn C) (lg_bn_rand ?h (lg_bn_draws ?h))
      (reg_verifier \<lparr>reg_salt = ac_salt a, reg_verifier = ac_verifier a\<rparr>) = Inr ch"
    using ch by (simp add: login_view_def)
  have acc': "acc_find (lc_accounts C) (fst sid) user (lg_accounts ?h) = (Inr (Some a), r)"
    using acc by (simp add: login_view_def)
  have "session_at ?h sid = new_login_session" using h by simp
  from hello_core [OF C this ticket(1) _ _ _ acc' reg ch' quiet_fresh(1) step] ticket(2,3) user
  have ex: "ex = None" and c': "c' = fresh_conn\<lparr>sent := frame ?e ?m\<rparr>" and
    h': "session_at h' sid = \<lparr>ls_stage = AwaitingProof, ls_username = user, ls_challenge = Some ch\<rparr>"
      "lg_world h' = after_take (r_ticket rd) (cl_store (dp_cluster s))"
      "lg_rand h' = lg_rand (cl_login (dp_cluster s) i)" "lg_draws h' = lg_draws (cl_login (dp_cluster s) i)"
    by (auto simp: after_take_def login_view_def)
  have B: "length (ch_B_bytes ch) = 256" using B_length [OF lib ch] .
  define g where "g = (\<lambda>challenge_msg. return_sim (case login_decode ?e challenge_msg of
        None \<Rightarrow> Ended Login_Refused
      | Some challenge \<Rightarrow> if l_op challenge \<noteq> ServerChallenge then Ended Login_Refused else Go challenge)
      :: 'a deployed \<Rightarrow> _)"
  have fits: "frame_fits (read_buffer_bytes Login) ?p" "frame_fits (2 ^ 20) ?m"
    using short user salt B
    by (simp_all add: login_bodies enc_str16_def enc_bytes16_def enc_bytes32_def frame_fits_def
        flip: length_greater_0_conv)
  obtain s' where s': "bind_sim (sim_send ?e ?N Login_Socket ?p)
      (\<lambda>_. bind_sim (sim_receive ?e ?N Login_Socket No_Hello_Reply) g) ?s = g ?m s'"
      "dp_cluster s' = login_back i h' (dp_cluster s)" "dp_inbox s' Login_Socket = []"
      "dp_conn s' Login_Socket = c'\<lparr>sent := []\<rparr>"
    using exchange_login [where c' = c' and rest = "[]" and s = ?s and g = g and C = C and sid = sid
        and p = ?p and m = ?m and h = h' and i = i and iter = iter and ttl = ttl and ma = ma and la = la
        and x = No_Hello_Reply] step fits
    by (auto simp: ex c')
  have "sim_hello ?e ?N rd user s = g ?m s'"
    unfolding sim_hello_def g_def [symmetric] by (subst connect_deployed, simp add: la) (rule s'(1))
  also have "\<dots> = (Go (decoded_login_msg (MChallenge (ac_salt a) (ch_B_bytes ch))), s')"
    using login_decode_encode [of "MChallenge (ac_salt a) (ch_B_bytes ch)" ?e "[]"] salt B
    by (simp add: g_def return_sim_def login_decoded_init_def)
  finally show ?thesis
    using s'(2-4) h' c' by (auto simp: quiet_def fresh_conn_def)
qed


lemma sim_proof_core:
  assumes C: "login_connected C iter" and lib: "bn_documented (lc_bn C)"
    and st: "session_at (cl_login (dp_cluster s) i) sid =
      \<lparr>ls_stage = AwaitingProof, ls_username = user, ls_challenge = Some ch\<rparr>"
    and world: "lg_world (cl_login (dp_cluster s) i) = cl_store (dp_cluster s)"
    and ready: "dp_inbox s Login_Socket = []" "quiet (dp_conn s Login_Socket)" "sent (dp_conn s Login_Socket) = []"
    and client: "client_respond (lc_openssl C) (lc_bn C) ra user pw (l_salt d) (l_B d) = Inr pr"
    and acc: "server_verify (lc_openssl C) (lc_bn C) ch (cp_A_bytes pr) (cp_M1 pr) = Inr res" "sr_ok res"
      "client_verify_server (lc_openssl C) pr (sr_M2 res) = Inr True" "length (sr_M2 res) = 32"
    and rnd: "lg_rand (cl_login (dp_cluster s) i) (lg_draws (cl_login (dp_cluster s) i)) = Some rnd" "length rnd = 16"
    and fits: "rpc_put_ok (to_hex rnd) (bytes_of user) (lc_session_ttl C)"
      "listing_fits (world_listing iter (after_token C (to_hex rnd) user (cl_store (dp_cluster s))))"
  shows "\<exists>s'. sim_proof (lc_endian C) (lc_openssl C) (lc_bn C) ra (deployment C iter ttl i sid ma la) user pw d s =
      (Go (pr, decoded_login_msg (MServerProof (sr_M2 res) (to_hex rnd))), s') \<and>
    dp_inbox s' Login_Socket = frame (lc_endian C) (encode_world_list (lc_endian C)
      (worlds_of (lc_endian C) (world_listing iter (after_token C (to_hex rnd) user (cl_store (dp_cluster s)))))) \<and>
    live t (sv_store (cl_store (dp_cluster s'))) = (live t (sv_store (cl_store (dp_cluster s))))
      (to_hex rnd := if t < sv_now (cl_store (dp_cluster s)) + lc_session_ttl C * ns_per_second
                     then Some (bytes_of user) else None) \<and>
    sv_clock (cl_store (dp_cluster s')) = sv_clock (cl_store (dp_cluster s))"
proof -
  let ?e = "lc_endian C" and ?N = "deployment C iter ttl i sid ma la"
  let ?h = "login_view (dp_cluster s) i" and ?p = "encode_client_proof ?e (cp_A_bytes pr) (cp_M1 pr)"
  let ?m = "encode_server_proof ?e (sr_M2 res) (to_hex rnd)"
  let ?ws = "encode_world_list ?e (worlds_of ?e (world_listing iter (after_token C (to_hex rnd) user
    (cl_store (dp_cluster s)))))"
  have widths: "length (cp_A_bytes pr) = 256" "length (cp_M1 pr) = 32"
    using client_proof_widths [OF lib client] by simp_all
  obtain ex h' c' where step: "login_on_message C sid ?p ?h (dp_conn s Login_Socket) = (ex, h', c')"
    by (metis prod_cases3)
  have st': "session_at ?h sid = \<lparr>ls_stage = AwaitingProof, ls_username = user, ls_challenge = Some ch\<rparr>"
    using st by simp
  have rnd': "lg_rand ?h (lg_draws ?h) = Some rnd" using rnd(1) by (simp add: login_view_def)
  have pa: "proof_accepted C ch (cp_A_bytes pr) (cp_M1 pr) res" using acc(1,2) by (simp add: proof_accepted_def)
  have "length (cp_A_bytes pr) < 4294967296" using widths by simp
  note fin = proof_core [OF C st' pa this widths(2) rnd' rnd(2) fits(1) _ ready(2) step, of t]
  have listing: "listing_fits (world_listing iter (after_token C (to_hex rnd) user (lg_world ?h)))"
    using fits(2) by simp
  from fin [OF listing] have ex: "ex = None" and c': "sent c' = frame ?e ?m @ frame ?e ?ws" and
    lv: "live t (sv_store (lg_world h')) = (live t (sv_store (cl_store (dp_cluster s))))
      (to_hex rnd := if t < sv_now (cl_store (dp_cluster s)) + lc_session_ttl C * ns_per_second
                     then Some (bytes_of user) else None)"
    and clk: "sv_clock (lg_world h') = sv_clock (cl_store (dp_cluster s))"
    using ready(3) by simp_all
  have token: "length (to_hex rnd) = 32" using rnd(2) by (simp add: length_to_hex)
  define g where "g = (\<lambda>proof_msg.
     case login_decode ?e proof_msg of
       None \<Rightarrow> return_sim (Ended Auth_Refused)
     | Some server_proof \<Rightarrow>
         if l_op server_proof \<noteq> ServerProof then return_sim (Ended Auth_Refused)
         else bind_sim (lift_sim (\<lambda>w. (client_verify_server (lc_openssl C) pr (l_M2 server_proof), w))) (\<lambda>ok.
           return_sim (if \<not> ok then Ended Server_Proof_Invalid else Go (pr, server_proof))
             :: 'a deployed \<Rightarrow> _))"
  have msg_fits: "frame_fits (read_buffer_bytes Login) ?p" "frame_fits (2 ^ 20) ?m"
    using widths acc(4) token
    by (simp_all add: login_bodies enc_str16_def enc_bytes32_def frame_fits_def flip: length_greater_0_conv)
  obtain s' where s': "bind_sim (sim_send ?e ?N Login_Socket ?p)
      (\<lambda>_. bind_sim (sim_receive ?e ?N Login_Socket No_Proof_Reply) g) s = g ?m s'"
      "dp_cluster s' = login_back i h' (dp_cluster s)" "dp_inbox s' Login_Socket = frame ?e ?ws"
    using exchange_login [where c' = c' and rest = "frame ?e ?ws" and s = s and g = g and C = C and sid = sid
        and p = ?p and m = ?m and h = h' and i = i and iter = iter and ttl = ttl and ma = ma and la = la
        and x = No_Proof_Reply] step msg_fits ready(1)
    by (auto simp: ex c')
  have "sim_proof ?e (lc_openssl C) (lc_bn C) ra ?N user pw d s = g ?m s'"
    unfolding sim_proof_def
    by (subst bind_sim_step [where a = pr and ?w1.0 = s])
      (simp add: lift_sim_def client, simp only: g_def [symmetric] s'(1))
  also have "\<dots> = (Go (pr, decoded_login_msg (MServerProof (sr_M2 res) (to_hex rnd))), s')"
    using login_decode_encode [of "MServerProof (sr_M2 res) (to_hex rnd)" ?e "[]"] acc(3,4) token
    by (simp add: g_def return_sim_def login_decoded_init_def bind_sim_def lift_sim_def)
  finally show ?thesis
    using s'(2,3) lv clk by (auto simp: login_back_def)
qed

lemma sim_worlds_core:
  assumes "dp_inbox s Login_Socket = frame (lc_endian C) (encode_world_list (lc_endian C) ws)"
    and "login_msg_fits (MWorlds ws)" and "length (encode_world_list (lc_endian C) ws) \<le> 2 ^ 20"
  shows "\<exists>s'. sim_worlds (lc_endian C) (deployment C iter ttl i sid ma la) token s =
      (Ended (Listed token ws), s') \<and> dp_cluster s' = dp_cluster s"
proof -
  have "frame_fits (2 ^ 20) (encode_world_list (lc_endian C) ws)"
    using assms(3) by (intro frame_fitsI) (simp_all add: body_world_list)
  with receive_deployed [of s Login_Socket "lc_endian C" "encode_world_list (lc_endian C) ws" "[]" C iter ttl i sid
      ma la No_World_List] assms(1)
  show ?thesis
    using login_decode_encode [OF assms(2), of "lc_endian C" "[]"]
    by (simp add: sim_worlds_def bind_sim_def return_sim_def login_decoded_init_def)
qed


text \<open>The whole run.\<close>

lemma verified_width:
  assumes "openssl_documented E" and "client_verify_server E pr M2 = Inr True"
  shows "length M2 = 32"
proof -
  obtain x where x: "compute_M2 E (cp_A_bytes pr) (cp_M1 pr) (cp_K pr) = Inr x"
      "constant_time_equal E x M2"
    using assms(2) unfolding client_verify_server_def bind_result_eq_Inr by auto
  have "M2 = x" using x(2) unfolding constant_time_equal_iff [OF assms(1)] by (rule sym)
  moreover have "length x = 32" using x(1) unfolding compute_M2_def by (rule length_sha256)
  ultimately show ?thesis by simp
qed

lemma sim_run_core:
  assumes states: "cl_store (dp_cluster s) = sv" "cl_login (dp_cluster s) i = h"
      "after_ticket rnd ttl sv = sv1" "after_take (to_hex rnd) sv1 = sv2"
    and C: "login_connected C iter" and lib: "bn_documented (lc_bn C)" "sha256_available (lc_openssl C)"
    and master: "pick_login (lc_endian C) iter (sv_clock_from sv) (sv_store sv) = Some li"
      "length (li_host li) < 65536"
      "ms_rand (cl_master (dp_cluster s)) (ms_draws (cl_master (dp_cluster s))) = Some rnd" "length rnd = 16"
    and ma: "ma = (host, to_string_nat (unat port))"
    and la: "la = (li_host li, to_string_nat (unat (li_port li)))"
    and time: "sv_now sv1 < put_time sv + ttl * ns_per_second"
    and store: "values_ok (sv_store sv)"
    and account: "compute_verifier_with_salt (lc_openssl C) (lc_bn C) user pw salt = Inr reg"
      "length salt < 65536" "length user < 1000"
      "acc_find (lc_accounts C) (fst sid) user (lg_accounts h) =
         (Inr (Some \<lparr>ac_username = user, ac_salt = reg_salt reg, ac_verifier = reg_verifier reg\<rparr>), r)"
    and h: "session_at h sid = new_login_session"
    and challenge: "server_begin (lc_openssl C) (lc_bn C) (lg_bn_rand h (lg_bn_draws h)) (reg_verifier reg) = Inr ch"
    and client: "client_respond (lc_openssl C) (lc_bn C) ra user pw salt (ch_B_bytes ch) = Inr pr"
      "compute_u (lc_openssl C) (lc_bn C) (cp_A_bytes pr) (ch_B_bytes ch) \<noteq> Inr 0"
    and rnd2: "lg_rand h (lg_draws h) = Some rnd2" "length rnd2 = 16"
    and fits: "rpc_put_ok (to_hex rnd2) (bytes_of user) (lc_session_ttl C)"
      "listing_fits (world_listing iter (after_token C (to_hex rnd2) user sv2))"
      "ws = worlds_of (lc_endian C) (world_listing iter (after_token C (to_hex rnd2) user sv2))"
      "login_msg_fits (MWorlds ws)" "length (encode_world_list (lc_endian C) ws) \<le> 2 ^ 20"
  shows "\<exists>s'. sim_run (lc_endian C) (lc_openssl C) (lc_bn C) ra (deployment C iter ttl i sid ma la) host port user pw s =
      (Ended (Listed (to_hex rnd2) ws), s') \<and>
    live t (sv_store (cl_store (dp_cluster s'))) (to_hex rnd2) =
      (if t < sv_now sv2 + lc_session_ttl C * ns_per_second then Some (bytes_of user) else None) \<and>
    sv_clock (cl_store (dp_cluster s')) = sv_clock sv"
proof -
  let ?e = "lc_endian C" and ?N = "deployment C iter ttl i sid ma la"
  let ?a = "\<lparr>ac_username = user, ac_salt = reg_salt reg, ac_verifier = reg_verifier reg\<rparr>"
  let ?rd = "\<lparr>r_ticket = to_hex rnd, r_login_host = li_host li, r_login_port = li_port li\<rparr>"
  have doc: "openssl_documented (lc_openssl C)" using C by (simp add: login_connected_def crypto_ok_def)
  have salt: "reg_salt reg = salt" using compute_verifier_closed [OF lib(1) account(1)] by auto
  have ticket: "length (to_hex rnd) = 32" using master(4) by (simp add: length_to_hex)
  obtain s1 m' where s1: "sim_master ?e ?N host port s = (Go ?rd, s1)"
      "dp_cluster s1 = (dp_cluster s)\<lparr>cl_store := sv1, cl_master := m'\<rparr>"
    using sim_master_core [OF ma, of C iter s li rnd ttl i sid la] master states by auto
  have login1: "cl_login (dp_cluster s1) i = h" "cl_store (dp_cluster s1) = sv1"
    by (simp_all add: s1(2) states)
  have "live (sv_now sv1) (sv_store sv1) (to_hex rnd) \<noteq> None"
    using time after_ticket_live states by auto
  moreover have "values_ok (sv_store sv1)" using after_ticket_values store states by auto
  moreover have "rpc_key_ok (to_hex rnd)" using ticket by (simp add: rpc_key_ok_def)
  ultimately obtain s2 h' where s2: "sim_hello ?e ?N ?rd user s1 =
      (Go (decoded_login_msg (MChallenge salt (ch_B_bytes ch))), s2)"
    "dp_cluster s2 = login_back i h' (dp_cluster s1)" "lg_world h' = sv2"
    "session_at h' sid = \<lparr>ls_stage = AwaitingProof, ls_username = user, ls_challenge = Some ch\<rparr>"
    "lg_rand h' = lg_rand h" "lg_draws h' = lg_draws h"
    "dp_inbox s2 Login_Socket = []" "quiet (dp_conn s2 Login_Socket)" "sent (dp_conn s2 Login_Socket) = []"
    using sim_hello_core [OF C lib(1), of la ?rd s1 i sid user ?a r ch ttl ma] la h account challenge login1 ticket salt
    by (auto simp: states)
  have login2: "cl_login (dp_cluster s2) i = h'" "cl_store (dp_cluster s2) = sv2"
    by (simp_all add: s2(2,3) login_back_def)
  obtain M2 where acc: "server_verify (lc_openssl C) (lc_bn C) ch (cp_A_bytes pr) (cp_M1 pr) =
        Inr \<lparr> sr_ok = True, sr_K = cp_K pr, sr_M2 = M2 \<rparr>"
      and M2: "client_verify_server (lc_openssl C) pr M2 = Inr True"
    using srp_agreement_core [OF lib(1) doc lib(2) account(1) challenge] client salt by auto
  have width: "length M2 = 32" using verified_width [OF doc M2] .
  obtain s3 where s3: "sim_proof ?e (lc_openssl C) (lc_bn C) ra ?N user pw
      (decoded_login_msg (MChallenge salt (ch_B_bytes ch))) s2 =
      (Go (pr, decoded_login_msg (MServerProof M2 (to_hex rnd2))), s3)"
    "dp_inbox s3 Login_Socket = frame ?e (encode_world_list ?e ws)"
    "live t (sv_store (cl_store (dp_cluster s3))) = (live t (sv_store sv2))
      (to_hex rnd2 := if t < sv_now sv2 + lc_session_ttl C * ns_per_second
                     then Some (bytes_of user) else None)"
    "sv_clock (cl_store (dp_cluster s3)) = sv_clock sv2"
    using sim_proof_core [OF C lib(1), of s2 i sid user ch ra pw "decoded_login_msg (MChallenge salt (ch_B_bytes ch))" pr
        "\<lparr> sr_ok = True, sr_K = cp_K pr, sr_M2 = M2 \<rparr>" rnd2 ttl ma la t] s2(3-9) login2 client acc M2 width rnd2 fits
    by (auto simp: login_decoded_init_def)
  obtain s' where s': "sim_worlds ?e ?N (to_hex rnd2) s3 = (Ended (Listed (to_hex rnd2) ws), s')"
      "dp_cluster s' = dp_cluster s3"
    using sim_worlds_core [OF s3(2) fits(4,5)] by blast
  have "sim_run ?e (lc_openssl C) (lc_bn C) ra ?N host port user pw s = (Ended (Listed (to_hex rnd2) ws), s')"
    unfolding sim_run_def
    by (simp add: bind_sim_def s1(1) s2(1) s3(1) s'(1) login_decoded_init_def del: decoded_login_msg.simps)
      (simp add: s'(1) login_decoded_init_def)
  moreover have "sv_clock sv2 = sv_clock sv"
    by (simp add: states [symmetric] after_take_def after_ticket_def)
  ultimately show ?thesis using s3(3,4) s'(2) by auto
qed


section \<open>A client is part of the cluster\<close>

text \<open>What every call of the network keeps, every run of the client keeps.\<close>

definition net_keeps :: "('w \<Rightarrow> bool) \<Rightarrow> ('ep, 'w) sim_net \<Rightarrow> bool" where
  "net_keeps P N \<longleftrightarrow>
     (\<forall>host port w. P w \<longrightarrow> P (snd (sn_resolve N host port w))) \<and>
     (\<forall>sock ep w. P w \<longrightarrow> P (snd (sn_connect N sock ep w))) \<and>
     (\<forall>sock bs w. P w \<longrightarrow> P (snd (sn_write N sock bs w))) \<and>
     (\<forall>sock n w. P w \<longrightarrow> P (snd (sn_read N sock n w))) \<and>
     (\<forall>sock w. P w \<longrightarrow> P (sn_close N sock w))"

definition keeps :: "('w \<Rightarrow> bool) \<Rightarrow> ('w \<Rightarrow> 'a sim \<times> 'w) \<Rightarrow> bool" where
  "keeps P f \<longleftrightarrow> (\<forall>w. P w \<longrightarrow> P (snd (f w)))"

lemma keeps_bind [intro]:
  assumes "keeps P f" and "\<And>a. keeps P (g a)"
  shows "keeps P (bind_sim f g)"
  unfolding keeps_def
proof (intro allI impI)
  fix w
  assume "P w"
  obtain x w' where f: "f w = (x, w')" by force
  then have "P w'" using assms(1) \<open>P w\<close> unfolding keeps_def by (metis snd_conv)
  then show "P (snd (bind_sim f g w))"
    using assms(2) by (cases x) (simp_all add: bind_sim_def f keeps_def)
qed

lemma keeps_return [intro]: "keeps P (return_sim x)" "keeps P (\<lambda>w. (x, w))"
  by (simp_all add: keeps_def return_sim_def)

lemma keeps_lift: "(\<And>w. P w \<Longrightarrow> P (snd (f w))) \<Longrightarrow> keeps P (lift_sim f)"
  unfolding keeps_def lift_sim_def
  by (intro allI impI, case_tac "f w", case_tac a) (force split: sum.splits)+

lemma net_keeps_read:
  "net_keeps P N \<Longrightarrow> P w \<Longrightarrow> sn_read N sock n w = (x, w') \<Longrightarrow> P w'"
  unfolding net_keeps_def by (metis snd_conv)

lemma keeps_receive:
  assumes N: "net_keeps P N"
  shows "keeps P (sim_receive e N sock x)"
  unfolding keeps_def
proof (intro allI impI)
  fix w
  assume w: "P w"
  obtain header w1 where r1: "sn_read N sock kFrameHeaderSize w = (header, w1)" by force
  then have w1: "P w1" using net_keeps_read [OF N w] by blast
  obtain body w2 where r2: "sn_read N sock (unat (from_network e (u32_of_mem e (the header)))) w1 = (body, w2)"
    by force
  then have "P w2" using net_keeps_read [OF N w1] by blast
  with w1 show "P (snd (sim_receive e N sock x w))"
    using r1 r2 by (auto simp: sim_receive_def sim_read_frame_def Let_def split: option.split prod.split)
qed

lemma keeps_send: "net_keeps P N \<Longrightarrow> keeps P (sim_send e N sock p)"
  by (simp add: keeps_def sim_send_def sim_write_frame_def net_keeps_def)

lemma keeps_connect:
  assumes "net_keeps P N"
  shows "keeps P (sim_connect N sock host port)"
  unfolding sim_connect_def
  by (intro keeps_bind keeps_lift) (use assms in \<open>simp_all add: net_keeps_def\<close>)

lemmas keeps_frames = keeps_send keeps_receive keeps_connect

lemma sim_run_keeps:
  assumes "net_keeps P N"
  shows "keeps P (sim_run e E L rand N host port user pw)"
proof -
  have "keeps P (sim_master e N host port)"
    using assms unfolding sim_master_def
    by (intro keeps_bind keeps_frames assms)
      (auto simp: keeps_def return_sim_def net_keeps_def split: option.splits)
  moreover have "keeps P (sim_hello e N rd user)" for rd
    unfolding sim_hello_def by (intro keeps_bind keeps_frames keeps_return assms)
  moreover have "keeps P (sim_proof e E L rand N user pw ch)" for ch
    unfolding sim_proof_def
    by (intro keeps_bind keeps_frames assms keeps_lift)
      (auto split: option.splits intro!: keeps_lift)
  moreover have "keeps P (sim_worlds e N token)" for token
    unfolding sim_worlds_def by (intro keeps_bind keeps_frames keeps_return assms)
  ultimately show ?thesis
    unfolding sim_run_def by (intro keeps_bind) auto
qed

lemma handled_cluster [simp]: "dp_cluster (handled sock ex c cl s) = cl"
  by (simp add: handled_def)

text \<open>Every run of the client against the servers is a run of the cluster.\<close>

lemma deployment_reachable:
  "net_keeps (\<lambda>s. \<exists>log. cluster_reachable C iter ttl log (dp_cluster s)) (deployment C iter ttl i sid ma la)"
proof -
  let ?P = "\<lambda>s. \<exists>log. cluster_reachable C iter ttl log (dp_cluster s)"
  have "?P (snd (dp_write C iter ttl i sid sock bs s))" if "?P s" for sock bs s
  proof (cases "snd (dp_write C iter ttl i sid sock bs s) = s")
    case True
    with that show ?thesis by simp
  next
    case False
    from that obtain log where log: "cluster_reachable C iter ttl log (dp_cluster s)" by blast
    show ?thesis
    proof (cases sock)
      case Master_Socket
      with False obtain p rest where p: "read_frame (lc_endian C) (read_buffer_bytes Master) bs = Some (p, rest)"
        by (auto simp: dp_write_def Let_def split: option.splits)
      obtain ex m c' where m: "master_on_message (lc_endian C) iter ttl p (master_view (dp_cluster s))
          (dp_conn s Master_Socket) = (ex, m, c')" by (metis prod_cases3)
      from p have "length p \<le> read_buffer_bytes Master" unfolding frames.dec_iff by (simp add: frame_fits_def)
      from cluster_reachable.step [OF log cluster_step.to_master [OF this m]] show ?thesis
        using Master_Socket p m by (auto simp: dp_write_def)
    next
      case Login_Socket
      with False obtain p rest where p: "read_frame (lc_endian C) (read_buffer_bytes Login) bs = Some (p, rest)"
        by (auto simp: dp_write_def Let_def split: option.splits)
      obtain ex h c' where h: "login_on_message C sid p (login_view (dp_cluster s) i)
          (dp_conn s Login_Socket) = (ex, h, c')" by (metis prod_cases3)
      from p have "length p \<le> read_buffer_bytes Login" unfolding frames.dec_iff by (simp add: frame_fits_def)
      from cluster_reachable.step [OF log cluster_step.to_login [OF this h]] show ?thesis
        using Login_Socket p h by (auto simp: dp_write_def)
    qed
  qed
  then show ?thesis
    by (auto simp: net_keeps_def deployment_def dp_connect_def dp_read_def)
qed

end
