(* ===== verification/Server_Run.thy ===== *)
theory Server_Run
  imports Server
begin

text \<open>
  The start and the stop of a server, \<open>include/server.hpp\<close> around the accept loop: the threads
  of \<open>start\<close>, the sockets they open and share through \<open>include/reuse_port.hpp\<close>, the protocols
  of \<open>include/protocol.hpp\<close>, and \<open>stop\<close>, which waits for every thread to run out of work. The
  sockets of the operating system are a parameter. The main results: where the platform has
  \<open>SO_REUSEPORT\<close> every thread of a server serves on the one port of its server, and after the close
  of a stop a server comes to rest in a bounded number of steps, but for the sessions that wait for
  the store.
\<close>

section \<open>Protocols\<close>

datatype protocol = Tcp_Protocol | Udp_Protocol

fun connection_oriented :: "protocol \<Rightarrow> bool" where
  "connection_oriented Tcp_Protocol \<longleftrightarrow> True"
| "connection_oriented Udp_Protocol \<longleftrightarrow> False"

fun protocol_name :: "protocol \<Rightarrow> string" where
  "protocol_name Tcp_Protocol = ''TCP''"
| "protocol_name Udp_Protocol = ''UDP''"

section \<open>Sockets\<close>

text \<open>
  \<open>Reuse_Port\<close> is the option of \<open>reuse_port.hpp\<close>: level \<open>SOL_SOCKET\<close>, name
  \<open>SO_REUSEPORT\<close>, data the \<open>int\<close> that its constructor makes of a \<open>bool\<close>.
\<close>

datatype sock_option = Reuse_Address bool | Reuse_Port int

definition reuse_port :: "bool \<Rightarrow> sock_option" where
  "reuse_port enabled = Reuse_Port (if enabled then 1 else 0)"

text \<open>
  The calls a server makes on the operating system \<open>'o\<close>: they throw, with the exception of
  \<open>set_option\<close>, which reports through its \<open>error_code\<close> argument.
\<close>

record 'o os_api =
  make_address :: "string \<Rightarrow> unit result"
  os_open :: "'o \<Rightarrow> nat result \<times> 'o"
  os_set_option :: "nat \<Rightarrow> sock_option \<Rightarrow> 'o \<Rightarrow> bool \<times> 'o"
  os_bind :: "nat \<Rightarrow> string \<Rightarrow> u16 \<Rightarrow> 'o \<Rightarrow> unit result \<times> 'o"
  os_listen :: "nat \<Rightarrow> 'o \<Rightarrow> unit result \<times> 'o"

text \<open>\<open>has_reuseport\<close> is the macro \<open>NETSRV_HAS_REUSEPORT\<close> of the platform.\<close>

definition enable_port_sharing :: "'o os_api \<Rightarrow> bool \<Rightarrow> nat \<Rightarrow> 'o \<Rightarrow> 'o" where
  "enable_port_sharing api has_reuseport s w =
     (let w1 = snd (os_set_option api s (Reuse_Address True) w)
      in if has_reuseport then snd (os_set_option api s (reuse_port True) w1) else w1)"

section \<open>Threads\<close>

text \<open>The start of \<open>accept_loop\<close> and of \<open>datagram_loop\<close>.\<close>

definition open_acceptor :: "'o os_api \<Rightarrow> bool \<Rightarrow> string \<Rightarrow> u16 \<Rightarrow> 'o \<Rightarrow> nat result \<times> 'o" where
  "open_acceptor api has_reuseport bind_address port w =
     (case make_address api bind_address of
        Inl ex \<Rightarrow> (Inl ex, w)
      | Inr _ \<Rightarrow>
          (case os_open api w of
             (Inl ex, w) \<Rightarrow> (Inl ex, w)
           | (Inr s, w) \<Rightarrow>
               (case os_bind api s bind_address port (enable_port_sharing api has_reuseport s w) of
                  (Inl ex, w) \<Rightarrow> (Inl ex, w)
                | (Inr _, w) \<Rightarrow>
                    (case os_listen api s w of
                       (Inl ex, w) \<Rightarrow> (Inl ex, w)
                     | (Inr _, w) \<Rightarrow> (Inr s, w)))))"

definition open_datagram :: "'o os_api \<Rightarrow> bool \<Rightarrow> string \<Rightarrow> u16 \<Rightarrow> 'o \<Rightarrow> nat result \<times> 'o" where
  "open_datagram api has_reuseport bind_address port w =
     (case make_address api bind_address of
        Inl ex \<Rightarrow> (Inl ex, w)
      | Inr _ \<Rightarrow>
          (case os_open api w of
             (Inl ex, w) \<Rightarrow> (Inl ex, w)
           | (Inr s, w) \<Rightarrow>
               (case os_bind api s bind_address port (enable_port_sharing api has_reuseport s w) of
                  (Inl ex, w) \<Rightarrow> (Inl ex, w)
                | (Inr _, w) \<Rightarrow> (Inr s, w))))"

text \<open>
  What a thread has become once its coroutine was started: it serves on a socket, or the
  coroutine threw before its loop.
\<close>

datatype thread_state = Listening nat worker | Receiving nat | Failed exn

definition run_worker_impl :: "'o os_api \<Rightarrow> bool \<Rightarrow> protocol \<Rightarrow> string \<Rightarrow> u16 \<Rightarrow> 'o \<Rightarrow> thread_state \<times> 'o" where
  "run_worker_impl api has_reuseport proto bind_address port w =
     (if connection_oriented proto then
        (case open_acceptor api has_reuseport bind_address port w of
           (Inl ex, w') \<Rightarrow> (Failed ex, w')
         | (Inr s, w') \<Rightarrow> (Listening s (new_worker True), w'))
      else
        (case open_datagram api has_reuseport bind_address port w of
           (Inl ex, w') \<Rightarrow> (Failed ex, w')
         | (Inr s, w') \<Rightarrow> (Receiving s, w')))"

text \<open>The core a thread is pinned to, where the number of cores is known.\<close>

definition pin_to_core :: "nat \<Rightarrow> nat \<Rightarrow> nat option" where
  "pin_to_core hardware_concurrency index =
     (if hardware_concurrency = 0 then None else Some (index mod hardware_concurrency))"

text \<open>The threads \<open>i, ..., i + k - 1\<close>; each runs up to its loop before the next.\<close>

fun start_loop :: "'o os_api \<Rightarrow> bool \<Rightarrow> nat \<Rightarrow> protocol \<Rightarrow> string \<Rightarrow> u16 \<Rightarrow> nat \<Rightarrow> nat \<Rightarrow> 'o
    \<Rightarrow> (nat option \<times> thread_state) list \<times> 'o" where
  "start_loop api has_reuseport cores proto bind_address port i 0 w = ([], w)"
| "start_loop api has_reuseport cores proto bind_address port i (Suc k) w =
     (let (t, w1) = run_worker_impl api has_reuseport proto bind_address port w;
          (ts, w2) = start_loop api has_reuseport cores proto bind_address port (Suc i) k w1
      in ((pin_to_core cores i, t) # ts, w2))"

definition start_server :: "'o os_api \<Rightarrow> bool \<Rightarrow> nat \<Rightarrow> server_role \<Rightarrow> protocol \<Rightarrow> string \<Rightarrow> u16 \<Rightarrow> 'o
    \<Rightarrow> (nat option \<times> thread_state) list \<times> 'o" where
  "start_server api has_reuseport cores role proto bind_address port w =
     start_loop api has_reuseport cores proto bind_address port 0 (thread_count role cores) w"


section \<open>Who gets to listen\<close>

text \<open>
  What operating systems with \<open>SO_REUSEPORT\<close> document of it: an address and a port take a further
  socket where all sockets on the port, the new one included, have the option set (and belong to
  the same user). \<open>bindable\<close> says which addresses and ports the process may bind at all (local
  addresses, permitted ports), \<open>bound\<close> are the sockets with their ports, and \<open>shares\<close> says which
  have the option. Nothing is said of a bind in any other case, nor of a system without the option.
  That sockets can be opened and put to listen is a system with resources left.
\<close>

definition sharing_os :: "'o os_api \<Rightarrow> (string \<Rightarrow> u16 \<Rightarrow> bool) \<Rightarrow> ('o \<Rightarrow> (nat \<times> u16) set) \<Rightarrow> ('o \<Rightarrow> nat \<Rightarrow> bool)
    \<Rightarrow> bool" where
  "sharing_os api bindable bound shares \<longleftrightarrow>
     (\<forall>w. \<exists>s w'. os_open api w = (Inr s, w') \<and> s \<notin> fst ` bound w \<and> bound w' = bound w \<and>
        shares w' = (shares w)(s := False)) \<and>
     (\<forall>s opt w. bound (snd (os_set_option api s opt w)) = bound w \<and>
        shares (snd (os_set_option api s opt w)) =
          (case opt of Reuse_Port v \<Rightarrow> (shares w)(s := (v \<noteq> 0)) | Reuse_Address _ \<Rightarrow> shares w)) \<and>
     (\<forall>s addr p w. bindable addr p \<and> (\<forall>(s', p') \<in> bound w. p' = p \<longrightarrow> shares w s' \<and> shares w s) \<and> shares w s \<longrightarrow>
        (\<exists>w'. os_bind api s addr p w = (Inr (), w') \<and> bound w' = insert (s, p) (bound w) \<and>
          shares w' = shares w)) \<and>
     (\<forall>s w. \<exists>w'. os_listen api s w = (Inr (), w') \<and> bound w' = bound w \<and> shares w' = shares w)"

lemma sharing_calls:
  assumes "sharing_os api bindable bound shares"
  shows "\<exists>s w'. os_open api w = (Inr s, w') \<and> s \<notin> fst ` bound w \<and> bound w' = bound w \<and>
      shares w' = (shares w)(s := False)"
    and "bound (snd (os_set_option api s opt w)) = bound w"
    and "shares (snd (os_set_option api s opt w)) =
      (case opt of Reuse_Port v \<Rightarrow> (shares w)(s := (v \<noteq> 0)) | Reuse_Address _ \<Rightarrow> shares w)"
    and "bindable addr p \<Longrightarrow> \<forall>(s', p') \<in> bound w. p' = p \<longrightarrow> shares w s' \<and> shares w s \<Longrightarrow> shares w s \<Longrightarrow>
      \<exists>w'. os_bind api s addr p w = (Inr (), w') \<and> bound w' = insert (s, p) (bound w) \<and> shares w' = shares w"
    and "\<exists>w'. os_listen api s w = (Inr (), w') \<and> bound w' = bound w \<and> shares w' = shares w"
proof -
  note os = assms [unfolded sharing_os_def]
  show "\<exists>s w'. os_open api w = (Inr s, w') \<and> s \<notin> fst ` bound w \<and> bound w' = bound w \<and>
      shares w' = (shares w)(s := False)"
    using os [THEN conjunct1] by (rule spec)
  show "bound (snd (os_set_option api s opt w)) = bound w"
    and "shares (snd (os_set_option api s opt w)) =
      (case opt of Reuse_Port v \<Rightarrow> (shares w)(s := (v \<noteq> 0)) | Reuse_Address _ \<Rightarrow> shares w)"
    using os [THEN conjunct2, THEN conjunct1, rule_format, of s opt w] by simp_all
  note bind = os [THEN conjunct2, THEN conjunct2, THEN conjunct1, THEN spec, THEN spec, THEN spec, THEN spec]
  show "bindable addr p \<Longrightarrow> \<forall>(s', p') \<in> bound w. p' = p \<longrightarrow> shares w s' \<and> shares w s \<Longrightarrow> shares w s \<Longrightarrow>
      \<exists>w'. os_bind api s addr p w = (Inr (), w') \<and> bound w' = insert (s, p) (bound w) \<and> shares w' = shares w"
    by (rule bind [THEN mp]) (intro conjI)
  show "\<exists>w'. os_listen api s w = (Inr (), w') \<and> bound w' = bound w \<and> shares w' = shares w"
    using os [THEN conjunct2, THEN conjunct2, THEN conjunct2, THEN spec, THEN spec] .
qed

text \<open>A socket as \<open>enable_port_sharing\<close> leaves it, where the platform has the option.\<close>

lemma sharing_setup:
  assumes os: "sharing_os api bindable bound shares"
  shows "\<exists>s w'. os_open api w = (Inr s, w') \<and> s \<notin> fst ` bound w \<and>
    bound (enable_port_sharing api True s w') = bound w \<and>
    shares (enable_port_sharing api True s w') = (shares w)(s := True)"
proof -
  obtain s w' where "os_open api w = (Inr s, w')" "s \<notin> fst ` bound w" "bound w' = bound w"
      "shares w' = (shares w)(s := False)"
    using sharing_calls(1) [OF os] by blast
  then show ?thesis
    by (intro exI [of _ s] exI [of _ w'])
      (simp add: enable_port_sharing_def reuse_port_def Let_def sharing_calls(2,3) [OF os])
qed

text \<open>Every socket on the ports \<open>P\<close> shares its port.\<close>

definition ports_share :: "('o \<Rightarrow> (nat \<times> u16) set) \<Rightarrow> ('o \<Rightarrow> nat \<Rightarrow> bool) \<Rightarrow> u16 set \<Rightarrow> 'o \<Rightarrow> bool" where
  "ports_share bound shares P w \<longleftrightarrow> (\<forall>(s, p) \<in> bound w. p \<in> P \<longrightarrow> shares w s)"

fun serves :: "protocol \<Rightarrow> thread_state \<Rightarrow> bool" where
  "serves proto (Listening s w) \<longleftrightarrow> proto = Tcp_Protocol \<and> w = new_worker True"
| "serves proto (Receiving s) \<longleftrightarrow> proto = Udp_Protocol"
| "serves proto (Failed ex) \<longleftrightarrow> False"

lemma run_worker_shared:
  assumes os: "sharing_os api bindable bound shares" and addr: "make_address api addr = Inr ()" "bindable addr port"
    and P: "port \<in> P" and all: "ports_share bound shares P w"
  shows "\<exists>t w'. run_worker_impl api True proto addr port w = (t, w') \<and> serves proto t \<and> ports_share bound shares P w'"
proof -
  obtain s w1 where s: "os_open api w = (Inr s, w1)" "s \<notin> fst ` bound w" and
    w1: "bound (enable_port_sharing api True s w1) = bound w"
      "shares (enable_port_sharing api True s w1) = (shares w)(s := True)"
    using sharing_setup [OF os] by blast
  let ?w = "enable_port_sharing api True s w1"
  have "\<forall>(s', p') \<in> bound ?w. p' = port \<longrightarrow> shares ?w s' \<and> shares ?w s" "shares ?w s"
    using all P unfolding w1 ports_share_def by fastforce+
  from sharing_calls(4) [OF os addr(2) this] obtain w2 where
    w2: "os_bind api s addr port ?w = (Inr (), w2)" "bound w2 = insert (s, port) (bound ?w)" "shares w2 = shares ?w"
    by blast
  obtain w3 where w3: "os_listen api s w2 = (Inr (), w3)" "bound w3 = bound w2" "shares w3 = shares w2"
    using sharing_calls(5) [OF os] by blast
  have "ports_share bound shares P w2" "ports_share bound shares P w3"
    using all unfolding ports_share_def w3 w2 w1 by fastforce+
  then show ?thesis
    by (cases proto)
      (simp_all add: run_worker_impl_def open_acceptor_def open_datagram_def addr(1) s(1) w2(1) w3(1))
qed

lemma start_loop_serves:
  assumes os: "sharing_os api bindable bound shares" and addr: "make_address api addr = Inr ()" "bindable addr port"
    and P: "port \<in> P"
  shows "ports_share bound shares P w \<Longrightarrow> start_loop api True cores proto addr port i k w = (ts, w') \<Longrightarrow>
    length ts = k \<and> (\<forall>t \<in> set ts. serves proto (snd t)) \<and> ports_share bound shares P w'"
proof (induction k arbitrary: i w ts w')
  case (Suc k)
  obtain t w1 where "run_worker_impl api True proto addr port w = (t, w1)" "serves proto t" "ports_share bound shares P w1"
    using run_worker_shared [OF os addr P Suc.prems(1)] by blast
  then show ?case
    using Suc.prems(2) Suc.IH [of w1 "Suc i"] by (auto split: prod.splits)
qed simp

text \<open>Every thread of a server serves, also next to other servers of the process.\<close>

lemma start_server_serves:
  assumes "sharing_os api bindable bound shares" and "make_address api addr = Inr ()" and "bindable addr port"
    and "port \<in> P" and "ports_share bound shares P w"
  shows "\<exists>ts w'. start_server api True cores role proto addr port w = (ts, w') \<and>
    length ts = thread_count role cores \<and> (\<forall>t \<in> set ts. serves proto (snd t)) \<and> ports_share bound shares P w'"
  using start_loop_serves [OF assms] by (metis start_server_def surj_pair)

section \<open>Stopping\<close>

text \<open>
  \<open>stop\<close> joins a thread when \<open>io_context.run\<close> has returned: no accept is outstanding, no
  session is alive and the thread is between two handlers.
\<close>

definition thread_done :: "worker \<Rightarrow> bool" where
  "thread_done w \<longleftrightarrow> \<not> accept_loop_runs w \<and> \<not> accept_ready w \<and> registry w = {} \<and> w_pc w = Idle"

definition threads_done :: "nat \<Rightarrow> server \<Rightarrow> bool" where
  "threads_done n s \<longleftrightarrow> (\<forall>i < n. thread_done (workers s i))"

text \<open>
  A step that changes more than which sessions wait, and what is left to do for a thread that was
  closed. \<open>stop_run role n s k s'\<close>: \<open>s'\<close> is reached from \<open>s\<close>, \<open>k\<close> of the steps being of that kind.
\<close>

definition without_waits :: "server \<Rightarrow> server" where
  "without_waits s = s\<lparr>workers := (\<lambda>i. (workers s i)\<lparr>waiting := {}\<rparr>)\<rparr>"

definition busy_step :: "server_role \<Rightarrow> nat \<Rightarrow> server \<Rightarrow> server \<Rightarrow> bool" where
  "busy_step role n s s' \<longleftrightarrow> server_step role n s s' \<and> without_waits s' \<noteq> without_waits s"

inductive stop_run :: "server_role \<Rightarrow> nat \<Rightarrow> server \<Rightarrow> nat \<Rightarrow> server \<Rightarrow> bool" for role n s where
  none: "stop_run role n s 0 s"
| busy: "\<lbrakk>stop_run role n s k s1; busy_step role n s1 s2\<rbrakk> \<Longrightarrow> stop_run role n s (Suc k) s2"
| other: "\<lbrakk>stop_run role n s k s1; server_step role n s1 s2\<rbrakk> \<Longrightarrow> stop_run role n s k s2"

definition work_left :: "worker \<Rightarrow> nat" where
  "work_left w = 2 * card (registry w) + pc_closing (w_pc w) + (if accept_loop_runs w then 1 else 0)"

lemma total_less:
  assumes "i < n" and "f w < f (workers s i)"
  shows "total f n (set_worker i w s) < total f n s"
  using total_set_worker [OF assms(1), of f w s] assms(2) by linarith

lemma quiesced_stop: "quiesced w \<Longrightarrow> stop_worker w = w"
  by (simp add: quiesced_def stop_worker_def registry_close_all_def)

lemma total_discounted: "total f n (set_worker i w (fst (on_connection_closed s))) = total f n (set_worker i w s)"
  by (simp add: total_def set_worker_def on_connection_closed_def)

lemma total_same:
  assumes "i < n" and "f w = f (workers s i)"
  shows "total f n (set_worker i w s) = total f n s"
  using total_set_worker [OF assms(1), of f w s] assms(2) by linarith

lemma quiet_step:
  assumes "server_step role n s s'" and "\<And>i. i < n \<Longrightarrow> quiesced (workers s i) \<and> worker_ok (workers s i)"
  shows "total work_left n s' < total work_left n s \<or>
    total work_left n s' = total work_left n s \<and> without_waits s' = without_waits s"
  using assms(1)
proof (cases rule: server_step.cases)
  case (accept_fails i w)
  then show ?thesis
    using assms(2) [of i] by (auto intro!: total_less simp: work_left_def)
next
  case (finished i w sid)
  then have "finite (registry w)" "sid \<in> registry w" using assms(2) [of i] by (auto simp: worker_ok_def)
  then have "Suc (card (registry w - {sid})) = card (registry w)" by (intro card_Suc_Diff1)
  then show ?thesis
    using finished by (auto intro!: total_less simp: work_left_def registry_remove_def)
next
  case (closed i w)
  then show ?thesis by (auto intro!: total_less simp: work_left_def total_discounted)
next
  case (await i w sid)
  then have "total work_left n s' = total work_left n s"
    by (auto intro!: total_same simp: work_left_def)
  with await show ?thesis by (auto simp: without_waits_def set_worker_def fun_eq_iff)
next
  case (resume i w sid)
  then have "total work_left n s' = total work_left n s"
    by (auto intro!: total_same simp: work_left_def)
  with resume show ?thesis by (auto simp: without_waits_def set_worker_def fun_eq_iff)
next
  case (stop i w)
  then have "s' = s"
    using assms(2) [of i] quiesced_stop by (simp add: set_worker_def)
  then show ?thesis by simp
qed (use assms(2) in \<open>auto simp: quiesced_def\<close>)

text \<open>Work that is not a waiting session can be done.\<close>

lemma busyI:
  assumes "server_step role n s s'" and "g (without_waits s') \<noteq> g (without_waits s)"
  shows "\<exists>s'. busy_step role n s s'"
  using assms unfolding busy_step_def by metis

lemma work_enables:
  assumes i: "i < n" and "quiesced (workers s i)"
    and left: "accept_loop_runs (workers s i) \<or> w_pc (workers s i) = Closing \<or>
      \<not> registry (workers s i) \<subseteq> waiting (workers s i)"
  shows "\<exists>s'. busy_step role n s s'"
proof (cases "w_pc (workers s i)")
  case Idle
  show ?thesis
  proof (cases "accept_loop_runs (workers s i)")
    case True
    show ?thesis
      by (rule busyI [OF server_step.accept_fails [OF i refl Idle True],
            where g = "\<lambda>s. accept_loop_runs (workers s i)"])
        (use assms(2) True in \<open>simp_all add: quiesced_def without_waits_def\<close>)
  next
    case False
    with left Idle obtain sid where sid: "sid \<in> registry (workers s i)" "sid \<notin> waiting (workers s i)" by auto
    show ?thesis
      by (rule busyI [OF server_step.finished [OF i refl Idle sid], where g = "\<lambda>s. w_pc (workers s i)"])
        (simp add: Idle without_waits_def registry_remove_def)
  qed
next
  case (Admitting sid)
  with assms(2) show ?thesis by (simp add: quiesced_def)
next
  case Closing
  show ?thesis
    by (rule busyI [OF server_step.closed [OF i refl Closing], where g = "\<lambda>s. w_pc (workers s i)"])
      (simp add: Closing without_waits_def)
qed

text \<open>What is left of a closed server that has no such step: the sessions that wait for the store.\<close>

definition only_waiting :: "worker \<Rightarrow> bool" where
  "only_waiting w \<longleftrightarrow> \<not> accept_loop_runs w \<and> \<not> accept_ready w \<and> w_pc w = Idle \<and> registry w = waiting w"

lemma stuck_waits:
  assumes inv: "server_inv role n s" and quiet: "\<And>i. i < n \<Longrightarrow> quiesced (workers s i)"
    and none: "\<nexists>s'. busy_step role n s s'"
  shows "(\<forall>i < n. only_waiting (workers s i)) \<and> active_connections s = total (\<lambda>w. card (waiting w)) n s"
proof -
  have ow: "only_waiting (workers s i)" if i: "i < n" for i
  proof -
    have "waiting (workers s i) \<subseteq> registry (workers s i)" using inv i by (simp add: server_inv_def worker_ok_def)
    moreover have "\<not> accept_loop_runs (workers s i)" "w_pc (workers s i) \<noteq> Closing"
        "registry (workers s i) \<subseteq> waiting (workers s i)"
      using work_enables [OF i quiet [OF i]] none by blast+
    ultimately show ?thesis
      using quiet [OF i] by (cases "w_pc (workers s i)") (auto simp: only_waiting_def quiesced_def)
  qed
  then have "total counted n s = total (\<lambda>w. card (waiting w)) n s"
    unfolding total_def by (intro sum.cong) (simp_all add: only_waiting_def counted_def)
  with ow inv show ?thesis by (simp add: server_inv_def)
qed

lemma stop_run_bound:
  assumes "stop_run role n s k s'" and "server_inv role n s" and "\<And>i. i < n \<Longrightarrow> quiesced (workers s i)"
  shows "server_inv role n s' \<and> (\<forall>i < n. quiesced (workers s' i)) \<and> k + total work_left n s' \<le> total work_left n s"
  using assms(1)
proof induction
  case (busy k s1 s2)
  have step: "server_step role n s1 s2" using busy.hyps by (simp add: busy_step_def)
  have "total work_left n s2 < total work_left n s1"
    using quiet_step [OF step] busy by (auto simp: server_inv_def busy_step_def)
  then show ?case using busy.IH server_inv_step [OF _ step] quiesced_step [OF step] by auto
next
  case (other k s1 s2)
  have "total work_left n s2 \<le> total work_left n s1"
    using quiet_step [OF other.hyps(2)] other.IH by (fastforce simp: server_inv_def)
  then show ?case using other.IH server_inv_step [OF _ other.hyps(2)] quiesced_step [OF other.hyps(2)] by auto
qed (use assms(2,3) in simp)

lemma stop_terminates_core:
  assumes "server_inv role n s" and "\<And>i. i < n \<Longrightarrow> quiesced (workers s i)" and "stop_run role n s k s'"
  shows "k + total work_left n s' \<le> total work_left n s \<and>
    ((\<exists>s''. busy_step role n s' s'') \<or>
     (\<forall>i < n. only_waiting (workers s' i)) \<and> active_connections s' = total (\<lambda>w. card (waiting w)) n s')"
proof -
  note run = stop_run_bound [OF assms(3,1,2)]
  then show ?thesis using stuck_waits [of role n s'] by blast
qed

lemma none_waiting_done: "only_waiting w \<Longrightarrow> waiting w = {} \<Longrightarrow> thread_done w"
  by (simp add: only_waiting_def thread_done_def)

end
