(* ===== verification/Process.thy ===== *)
theory Process
  imports Server_Run Main_Cli Accounts
begin

text \<open>
  The processes of \<open>src/main.cpp\<close>: what \<open>run_master\<close>, \<open>run_login\<close> and \<open>run_world\<close> start, and
  how a signal ends them. Each process has the threads of its servers and one orchestrator thread,
  which runs the background loop, completes the operations of the store client and, on a signal,
  stops the servers one after the other and returns. The main results: every thread of every
  service of the role serves, and nothing but the internal service listens on the loopback
  address; a process returns only when all its servers are drained; and a session that waits for
  the store while the orchestrator waits for its thread keeps the process from ever returning.
\<close>

section \<open>Services\<close>

datatype service_handler = By_Master | By_Store | By_Login | By_World | By_World_Udp

record service =
  sc_protocol :: protocol
  sc_role :: server_role
  sc_handler :: service_handler
  sc_port :: u16
  sc_bind :: string

definition kMasterPort :: u16 where "kMasterPort = 3724"
definition kUdpPort :: u16 where "kUdpPort = 8086"

text \<open>The loop that the orchestrator runs: \<open>sweep_loop\<close>, or a heartbeat with its key and value.\<close>

datatype background = Sweep | Heartbeat string "nat \<Rightarrow> bytes"

text \<open>
  A process that has started: its key, the peer of its store client, its accounts, the services in
  the order in which they were started (and will be stopped) with their threads, and its
  background loop.
\<close>

type_synonym threads = "(nat option \<times> thread_state) list"

record 'db process =
  pr_key :: bytes
  pr_store_peer :: "(string \<times> u16) option"
  pr_accounts :: "'db repo option"
  pr_services :: "(service \<times> threads) list"
  pr_background :: background

datatype 'db outcome = Exited int | Uncaught exn | Serving "'db process"

section \<open>Start\<close>

text \<open>The platform: its sockets, \<open>NETSRV_HAS_REUSEPORT\<close> and \<open>hardware_concurrency()\<close>.\<close>

record 'o platform =
  pf_api :: "'o os_api"
  pf_reuseport :: bool
  pf_cores :: nat

definition start_service :: "'o platform \<Rightarrow> service \<Rightarrow> 'o \<Rightarrow> (service \<times> threads) \<times> 'o" where
  "start_service F sc w =
     (case start_server (pf_api F) (pf_reuseport F) (pf_cores F) (sc_role sc) (sc_protocol sc) (sc_bind sc)
             (sc_port sc) w of
        (ts, w') \<Rightarrow> ((sc, ts), w'))"

definition run_master :: "'o platform \<Rightarrow> args \<Rightarrow> string option \<Rightarrow> 'o \<Rightarrow> 'db outcome \<times> 'o" where
  "run_master F a env w =
     (case load_hmac_secret env of
        Inl ex \<Rightarrow> (Uncaught ex, w)
      | Inr None \<Rightarrow> (Exited 1, w)
      | Inr (Some hmac_key) \<Rightarrow>
          (let (client_server, w1) = start_service F \<lparr>sc_protocol = Tcp_Protocol, sc_role = Master,
                 sc_handler = By_Master, sc_port = kMasterPort, sc_bind = a_bind_address a\<rparr> w;
               (internal_server, w2) = start_service F \<lparr>sc_protocol = Tcp_Protocol, sc_role = Internal,
                 sc_handler = By_Store, sc_port = a_store_port a, sc_bind = ''127.0.0.1''\<rparr> w1
           in (Serving \<lparr>pr_key = hmac_key, pr_store_peer = None, pr_accounts = None,
                 pr_services = [client_server, internal_server], pr_background = Sweep\<rparr>, w2)))"

definition run_login :: "endian \<Rightarrow> 'o platform \<Rightarrow> 'db sqlite \<Rightarrow> 'db \<Rightarrow> args \<Rightarrow> string option \<Rightarrow> 'o
    \<Rightarrow> 'db outcome \<times> 'o" where
  "run_login e F Q db a env w =
     (case load_hmac_secret env of
        Inl ex \<Rightarrow> (Uncaught ex, w)
      | Inr None \<Rightarrow> (Exited 1, w)
      | Inr (Some hmac_key) \<Rightarrow>
          (case new_repo Q 0 (a_accounts_db a) db of
             (Inl ex, _) \<Rightarrow> (Uncaught ex, w)
           | (Inr _, repository) \<Rightarrow>
               (let (server, w1) = start_service F \<lparr>sc_protocol = Tcp_Protocol, sc_role = Login,
                      sc_handler = By_Login, sc_port = kLoginPort, sc_bind = a_bind_address a\<rparr> w
                in (Serving \<lparr>pr_key = hmac_key, pr_store_peer = Some (a_store_host a, a_store_port a),
                      pr_accounts = Some repository, pr_services = [server],
                      pr_background = Heartbeat (login_registry_key a) (\<lambda>_. login_announcement e a)\<rparr>, w1))))"

definition run_world :: "endian \<Rightarrow> 'o platform \<Rightarrow> args \<Rightarrow> string option \<Rightarrow> 'o \<Rightarrow> 'db outcome \<times> 'o" where
  "run_world e F a env w =
     (case load_hmac_secret env of
        Inl ex \<Rightarrow> (Uncaught ex, w)
      | Inr None \<Rightarrow> (Exited 1, w)
      | Inr (Some hmac_key) \<Rightarrow>
          (let (tcp_server, w1) = start_service F \<lparr>sc_protocol = Tcp_Protocol, sc_role = World,
                 sc_handler = By_World, sc_port = kTcpPort, sc_bind = a_bind_address a\<rparr> w;
               (udp_server, w2) = start_service F \<lparr>sc_protocol = Udp_Protocol, sc_role = World,
                 sc_handler = By_World_Udp, sc_port = kUdpPort, sc_bind = a_bind_address a\<rparr> w1
           in (Serving \<lparr>pr_key = hmac_key, pr_store_peer = Some (a_store_host a, a_store_port a),
                 pr_accounts = None, pr_services = [tcp_server, udp_server],
                 pr_background = Heartbeat (world_registry_key a) (world_announcement e a)\<rparr>, w2)))"

text \<open>\<open>main\<close> up to the point where the orchestrator runs.\<close>

definition main_start :: "endian \<Rightarrow> 'o platform \<Rightarrow> 'db sqlite \<Rightarrow> 'db \<Rightarrow> string list \<Rightarrow> string option \<Rightarrow> 'o
    \<Rightarrow> 'db outcome \<times> 'o" where
  "main_start e F Q db argv env w =
     (case main_dispatch argv of
        Inl ex \<Rightarrow> (Uncaught ex, w)
      | Inr Usage \<Rightarrow> (Exited 1, w)
      | Inr (Run_Master a) \<Rightarrow> run_master F a env w
      | Inr (Run_Login a) \<Rightarrow> run_login e F Q db a env w
      | Inr (Run_World a) \<Rightarrow> run_world e F a env w)"

section \<open>What each role serves\<close>

text \<open>The services of each role, and what it says of them in the documentation of the programme.\<close>

definition role_endpoints :: "args \<Rightarrow> (service_handler \<times> protocol \<times> u16 \<times> string) list" where
  "role_endpoints a =
     (if a_role a = ''master''
      then [(By_Master, Tcp_Protocol, kMasterPort, a_bind_address a), (By_Store, Tcp_Protocol, a_store_port a, ''127.0.0.1'')]
      else if a_role a = ''login'' then [(By_Login, Tcp_Protocol, kLoginPort, a_bind_address a)]
      else [(By_World, Tcp_Protocol, kTcpPort, a_bind_address a), (By_World_Udp, Udp_Protocol, kUdpPort, a_bind_address a)])"

definition endpoint :: "service \<Rightarrow> service_handler \<times> protocol \<times> u16 \<times> string" where
  "endpoint sc = (sc_handler sc, sc_protocol sc, sc_port sc, sc_bind sc)"

definition service_up :: "nat \<Rightarrow> service \<times> threads \<Rightarrow> bool" where
  "service_up cores = (\<lambda>(sc, ts). length ts = thread_count (sc_role sc) cores \<and>
     (\<forall>t \<in> set ts. serves (sc_protocol sc) (snd t)))"

text \<open>The address of a service can be bound at its port, which is one of \<open>P\<close>.\<close>

definition can_bind :: "'o platform \<Rightarrow> (string \<Rightarrow> u16 \<Rightarrow> bool) \<Rightarrow> u16 set \<Rightarrow> service \<Rightarrow> bool" where
  "can_bind F bindable P sc \<longleftrightarrow> make_address (pf_api F) (sc_bind sc) = Inr () \<and>
     bindable (sc_bind sc) (sc_port sc) \<and> sc_port sc \<in> P"

lemma start_service_up:
  assumes "sharing_os (pf_api F) bindable bound shares" and "can_bind F bindable P sc"
    and "pf_reuseport F" and "ports_share bound shares P w"
  shows "\<exists>ts w'. start_service F sc w = ((sc, ts), w') \<and> service_up (pf_cores F) (sc, ts) \<and> ports_share bound shares P w'"
proof -
  obtain ts w' where "start_server (pf_api F) True (pf_cores F) (sc_role sc) (sc_protocol sc) (sc_bind sc)
      (sc_port sc) w = (ts, w')" "length ts = thread_count (sc_role sc) (pf_cores F)"
      "\<forall>t \<in> set ts. serves (sc_protocol sc) (snd t)" "ports_share bound shares P w'"
    using start_server_serves [OF assms(1) _ _ _ assms(4)] assms(2) unfolding can_bind_def by blast
  then show ?thesis
    by (intro exI [of _ ts] exI [of _ w']) (simp add: start_service_def service_up_def assms(3))
qed

lemma start_two_up:
  assumes os: "sharing_os (pf_api F) bindable bound shares"
    and addr: "can_bind F bindable P sc1" "can_bind F bindable P sc2"
    and F: "pf_reuseport F" and all: "ports_share bound shares P w"
  shows "\<exists>ts1 ts2 w1 w2. start_service F sc1 w = ((sc1, ts1), w1) \<and> start_service F sc2 w1 = ((sc2, ts2), w2) \<and>
    service_up (pf_cores F) (sc1, ts1) \<and> service_up (pf_cores F) (sc2, ts2)"
proof -
  obtain ts1 w1 where 1: "start_service F sc1 w = ((sc1, ts1), w1)" "service_up (pf_cores F) (sc1, ts1)"
      "ports_share bound shares P w1"
    using start_service_up [OF os addr(1) F all] by auto
  obtain ts2 w2 where "start_service F sc2 w1 = ((sc2, ts2), w2)" "service_up (pf_cores F) (sc2, ts2)"
    using start_service_up [OF os addr(2) F 1(3)] by auto
  with 1 show ?thesis by blast
qed

text \<open>The ports of the programme.\<close>

definition role_ports :: "args \<Rightarrow> u16 set" where
  "role_ports a = {kMasterPort, a_store_port a, kLoginPort, kTcpPort, kUdpPort}"

lemma main_start_core:
  assumes os: "sharing_os (pf_api F) bindable bound shares" and F: "pf_reuseport F"
    and all: "ports_share bound shares (role_ports a) w"
    and argv: "parse_args argv = Inr (Some a)"
    and bind: "\<And>h pr p addr. (h, pr, p, addr) \<in> set (role_endpoints a) \<Longrightarrow> bindable addr p"
    and addr: "make_address (pf_api F) (a_bind_address a) = Inr ()" "make_address (pf_api F) ''127.0.0.1'' = Inr ()"
    and env: "load_hmac_secret env = Inr (Some key)"
    and repository: "new_repo Q 0 (a_accounts_db a) db = (Inr (), r)"
  shows "\<exists>p w'. main_start e F Q db argv env w = (Serving p, w') \<and> pr_key p = key \<and>
    map (endpoint \<circ> fst) (pr_services p) = role_endpoints a \<and>
    (\<forall>sv \<in> set (pr_services p). service_up (pf_cores F) sv)"
proof -
  from argv have "a_role a \<in> {''master'', ''login'', ''world''}"
    unfolding parse_args_def bind_result_eq_Inr by (auto split: if_splits)
  then consider "a_role a = ''master''" | "a_role a = ''login''" | "a_role a = ''world''" by blast
  then show ?thesis
  proof cases
    case 0: 1
    let ?sc1 = "\<lparr>sc_protocol = Tcp_Protocol, sc_role = Master, sc_handler = By_Master, sc_port = kMasterPort,
      sc_bind = a_bind_address a\<rparr>"
    let ?sc2 = "\<lparr>sc_protocol = Tcp_Protocol, sc_role = Internal, sc_handler = By_Store, sc_port = a_store_port a,
      sc_bind = ''127.0.0.1''\<rparr>"
    have "can_bind F bindable (role_ports a) ?sc1" "can_bind F bindable (role_ports a) ?sc2"
      using addr bind by (auto simp: can_bind_def role_endpoints_def role_ports_def 0)
    from start_two_up [OF os this F all] obtain ts1 ts2 w1 w2 where "start_service F ?sc1 w = ((?sc1, ts1), w1)"
        "start_service F ?sc2 w1 = ((?sc2, ts2), w2)"
        "service_up (pf_cores F) (?sc1, ts1)" "service_up (pf_cores F) (?sc2, ts2)"
      by blast
    with 0 show ?thesis
      by (simp add: main_start_def main_dispatch_def argv run_master_def env role_endpoints_def endpoint_def)
  next
    case 0: 2
    let ?sc = "\<lparr>sc_protocol = Tcp_Protocol, sc_role = Login, sc_handler = By_Login, sc_port = kLoginPort,
      sc_bind = a_bind_address a\<rparr>"
    have "can_bind F bindable (role_ports a) ?sc"
      using addr bind by (auto simp: can_bind_def role_endpoints_def role_ports_def 0)
    from start_service_up [OF os this F all] obtain ts w1 where "start_service F ?sc w = ((?sc, ts), w1)" "service_up (pf_cores F) (?sc, ts)"
      by blast
    with 0 show ?thesis
      by (simp add: main_start_def main_dispatch_def argv run_login_def env repository role_endpoints_def endpoint_def)
  next
    case 0: 3
    let ?sc1 = "\<lparr>sc_protocol = Tcp_Protocol, sc_role = World, sc_handler = By_World, sc_port = kTcpPort,
      sc_bind = a_bind_address a\<rparr>"
    let ?sc2 = "\<lparr>sc_protocol = Udp_Protocol, sc_role = World, sc_handler = By_World_Udp, sc_port = kUdpPort,
      sc_bind = a_bind_address a\<rparr>"
    have "can_bind F bindable (role_ports a) ?sc1" "can_bind F bindable (role_ports a) ?sc2"
      using addr bind by (auto simp: can_bind_def role_endpoints_def role_ports_def 0)
    from start_two_up [OF os this F all] obtain ts1 ts2 w1 w2 where "start_service F ?sc1 w = ((?sc1, ts1), w1)"
        "start_service F ?sc2 w1 = ((?sc2, ts2), w2)"
        "service_up (pf_cores F) (?sc1, ts1)" "service_up (pf_cores F) (?sc2, ts2)"
      by blast
    with 0 show ?thesis
      by (simp add: main_start_def main_dispatch_def argv run_world_def env role_endpoints_def endpoint_def)
  qed
qed

end
