(* ===== verification/Shutdown.thy ===== *)
theory Shutdown
  imports Process
begin

text \<open>
  A running process of \<open>src/main.cpp\<close> and its end. The handler of the signal runs on the
  orchestrator thread: \<open>stop()\<close> of each server in turn, which joins the server's threads, then
  \<open>orchestrator.stop()\<close>. While it joins, the orchestrator completes no operation, also not those
  of the store client, whose resolver and sockets are made on its executor. The main results: the
  process returns only when every server has drained; a session that waits for the store when
  the handler starts keeps it from returning; and where none waits it can return.
\<close>

section \<open>State\<close>

text \<open>
  The orchestrator runs handlers, is in \<open>stop()\<close> of the \<open>k\<close>-th server, or has returned.
  \<open>rn_receiving\<close> are the threads of a datagram server whose loop runs. \<open>rn_waiting\<close> are the sessions
  (by server, thread and session) whose handler waits for an operation of the store client.
\<close>

datatype phase = Handling | Joining nat | Returned

record running =
  rn_phase :: phase
  rn_servers :: "nat \<Rightarrow> server"
  rn_receiving :: "nat \<Rightarrow> nat set"

definition rn_waiting :: "running \<Rightarrow> (nat \<times> nat \<times> nat) set" where
  "rn_waiting r = {(k, i, sid). sid \<in> waiting (workers (rn_servers r k) i)}"

text \<open>A thread that could not open its socket has no loop.\<close>

fun initial_worker :: "thread_state \<Rightarrow> worker" where
  "initial_worker (Listening s w) = w"
| "initial_worker (Receiving s) = new_worker False"
| "initial_worker (Failed ex) = new_worker False"

definition initial_server :: "threads \<Rightarrow> server" where
  "initial_server ts =
     \<lparr>active_connections = 0,
      workers = (\<lambda>i. if i < length ts then initial_worker (snd (ts ! i)) else new_worker False)\<rparr>"

definition receiving_threads :: "threads \<Rightarrow> nat set" where
  "receiving_threads ts = {i. i < length ts \<and> (\<exists>s. snd (ts ! i) = Receiving s)}"

definition launched :: "'db process \<Rightarrow> running" where
  "launched p =
     \<lparr>rn_phase = Handling, 
      rn_servers = (\<lambda>k. initial_server (if k < length (pr_services p) then snd (pr_services p ! k) else [])),
      rn_receiving = (\<lambda>k. if k < length (pr_services p) then receiving_threads (snd (pr_services p ! k)) else {})\<rparr>"

section \<open>Steps\<close>

definition stop_requested :: "phase \<Rightarrow> nat \<Rightarrow> bool" where
  "stop_requested ph k \<longleftrightarrow> (case ph of Handling \<Rightarrow> False | Joining j \<Rightarrow> k \<le> j | Returned \<Rightarrow> True)"

text \<open>The handlers that call the store client in a session.\<close>

fun uses_store_client :: "service_handler \<Rightarrow> bool" where
  "uses_store_client By_Login \<longleftrightarrow> True"
| "uses_store_client By_World \<longleftrightarrow> True"
| "uses_store_client _ \<longleftrightarrow> False"

text \<open>What \<open>stop()\<close> of a server waits for: every thread of it has returned.\<close>

definition service_done :: "nat \<Rightarrow> nat \<Rightarrow> running \<Rightarrow> bool" where
  "service_done n k r \<longleftrightarrow> threads_done n (rn_servers r k) \<and> rn_receiving r k = {}"

text \<open>
  \<open>serve\<close>: a step of a thread, whose acceptor is only closed after the stop was requested. \<open>ask\<close> and
  \<open>answer\<close>: the handler of a session starts an operation of the store client, and the orchestrator,
  while it runs handlers, completes it.
\<close>

inductive process_step :: "(service \<times> threads) list \<Rightarrow> running \<Rightarrow> running \<Rightarrow> bool" for svs where
  serve: "\<lbrakk>k < length svs; server_step (sc_role (fst (svs ! k))) (length (snd (svs ! k))) (rn_servers r k) s';
     \<forall>i. waiting (workers s' i) = waiting (workers (rn_servers r k) i);
     stop_requested (rn_phase r) k \<or>
       (\<forall>i. acceptor_open (workers s' i) = acceptor_open (workers (rn_servers r k) i))\<rbrakk> \<Longrightarrow>
   process_step svs r (r\<lparr>rn_servers := (rn_servers r)(k := s')\<rparr>)"
| receive_ends: "i \<in> rn_receiving r k \<Longrightarrow>
   process_step svs r (r\<lparr>rn_receiving := (rn_receiving r)(k := rn_receiving r k - {i})\<rparr>)"
| ask: "\<lbrakk>k < length svs; uses_store_client (sc_handler (fst (svs ! k))); i < length (snd (svs ! k));
     w = workers (rn_servers r k) i; w_pc w = Idle; sid \<in> registry w\<rbrakk> \<Longrightarrow>
   process_step svs r (r\<lparr>rn_servers := (rn_servers r)
     (k := set_worker i (w\<lparr>waiting := insert sid (waiting w)\<rparr>) (rn_servers r k))\<rparr>)"
| answer: "\<lbrakk>k < length svs; i < length (snd (svs ! k)); rn_phase r = Handling;
     w = workers (rn_servers r k) i; w_pc w = Idle; sid \<in> waiting w\<rbrakk> \<Longrightarrow>
   process_step svs r (r\<lparr>rn_servers := (rn_servers r)
     (k := set_worker i (w\<lparr>waiting := waiting w - {sid}\<rparr>) (rn_servers r k))\<rparr>)"
| signal: "rn_phase r = Handling \<Longrightarrow> process_step svs r (r\<lparr>rn_phase := Joining 0\<rparr>)"
| joined: "\<lbrakk>rn_phase r = Joining k; k < length svs; service_done (length (snd (svs ! k))) k r\<rbrakk> \<Longrightarrow>
   process_step svs r (r\<lparr>rn_phase := Joining (Suc k)\<rparr>)"
| returns: "rn_phase r = Joining (length svs) \<Longrightarrow> process_step svs r (r\<lparr>rn_phase := Returned\<rparr>)"

inductive_cases process_stepE: "process_step svs r r'"

inductive process_reachable :: "'db process \<Rightarrow> running \<Rightarrow> bool" for p where
  start: "process_reachable p (launched p)"
| more: "process_reachable p r \<Longrightarrow> process_step (pr_services p) r r' \<Longrightarrow> process_reachable p r'"

section \<open>What the orchestrator has waited for\<close>

text \<open>The servers whose \<open>stop()\<close> has returned.\<close>

definition joined_before :: "phase \<Rightarrow> nat \<Rightarrow> nat \<Rightarrow> bool" where
  "joined_before ph m k \<longleftrightarrow> (case ph of Handling \<Rightarrow> False | Joining j \<Rightarrow> k < j | Returned \<Rightarrow> k < m)"

definition process_inv :: "(service \<times> threads) list \<Rightarrow> running \<Rightarrow> bool" where
  "process_inv svs r \<longleftrightarrow>
     (\<forall>k < length svs. server_inv (sc_role (fst (svs ! k))) (length (snd (svs ! k))) (rn_servers r k)) \<and>
     (\<forall>k i. waiting (workers (rn_servers r k) i) \<noteq> {} \<longrightarrow> k < length svs \<and> i < length (snd (svs ! k))) \<and>
     (\<forall>k < length svs. joined_before (rn_phase r) (length svs) k \<longrightarrow>
        service_done (length (snd (svs ! k))) k r) \<and>
     (\<forall>j. rn_phase r = Joining j \<longrightarrow> j \<le> length svs)"

lemma thread_done_step:
  "server_step role n s s' \<Longrightarrow> thread_done (workers s i) \<Longrightarrow> thread_done (workers s' i)"
  by (erule server_stepE)
    (auto simp: thread_done_def registry_remove_def registry_add_def stop_worker_def registry_close_all_def)

lemma threads_done_step: "server_step role n s s' \<Longrightarrow> threads_done m s \<Longrightarrow> threads_done m s'"
  using thread_done_step by (simp add: threads_done_def)

lemma process_inv_serve:
  assumes "process_inv svs r" and "k < length svs"
    and step: "server_step (sc_role (fst (svs ! k))) (length (snd (svs ! k))) (rn_servers r k) s'"
    and "\<And>i. waiting (workers s' i) \<noteq> {} \<Longrightarrow> i < length (snd (svs ! k))"
  shows "process_inv svs (r\<lparr>rn_servers := (rn_servers r)(k := s')\<rparr>)"
  using assms(1,2,4) server_inv_step [OF _ step] threads_done_step [OF step]
  by (simp add: process_inv_def service_done_def)

lemma process_inv_step:
  assumes "process_inv svs r" and "process_step svs r r'"
  shows "process_inv svs r'"
  using assms(2,1)
proof (induction rule: process_step.induct)
  case (serve k r s')
  then show ?case by (intro process_inv_serve) (auto simp: process_inv_def)
next
  case (ask k i w r sid)
  then show ?case
    by (intro process_inv_serve server_step.await) (auto simp: process_inv_def split: if_splits)
next
  case (answer k i r w sid)
  then show ?case
    by (intro process_inv_serve server_step.resume) (auto simp: process_inv_def split: if_splits)
next
  case (joined r k)
  then show ?case
    by (auto simp: process_inv_def joined_before_def service_done_def less_Suc_eq)
qed (auto simp: process_inv_def joined_before_def service_done_def)

text \<open>The threads of a started service listen or have no loop.\<close>

definition threads_fresh :: "threads \<Rightarrow> bool" where
  "threads_fresh ts \<longleftrightarrow> (\<forall>t \<in> set ts. \<forall>s w. snd t = Listening s w \<longrightarrow> w = new_worker True)"

lemma initial_server_inv: "threads_fresh ts \<Longrightarrow> server_inv role (length ts) (initial_server ts)"
proof (rule server_inv_start [where bound = "\<lambda>i. \<exists>s w. snd (ts ! i) = Listening s w"])
  assume fresh: "threads_fresh ts"
  show "\<forall>i < length ts. workers (initial_server ts) i = new_worker (\<exists>s w. snd (ts ! i) = Listening s w)"
  proof (intro allI impI)
    fix i assume "i < length ts"
    then have "ts ! i \<in> set ts" by simp
    with fresh \<open>i < length ts\<close> show "workers (initial_server ts) i = new_worker (\<exists>s w. snd (ts ! i) = Listening s w)"
      unfolding threads_fresh_def by (cases "snd (ts ! i)") (force simp: initial_server_def)+
  qed
qed (simp add: initial_server_def)

lemma start_loop_fresh:
  "start_loop api r cores proto addr port i k w = (ts, w') \<Longrightarrow> threads_fresh ts"
proof (induction k arbitrary: i w ts w')
  case (Suc k)
  then show ?case
    by (auto simp: threads_fresh_def run_worker_impl_def split: prod.splits if_splits sum.splits)
qed (simp add: threads_fresh_def)

lemma start_service_fresh: "threads_fresh (snd (fst (start_service F sc w)))"
  using start_loop_fresh by (auto simp: start_service_def start_server_def split: prod.splits)

lemma main_start_fresh:
  assumes "main_start e F Q db argv env w = (Serving p, w')" and "sv \<in> set (pr_services p)"
  shows "threads_fresh (snd sv)"
proof -
  have "\<exists>sc u. sv = fst (start_service F sc u)"
    using assms by (auto simp: main_start_def run_master_def run_login_def run_world_def Let_def
        split: sum.splits option.splits started.splits prod.splits) (metis fst_conv)+
  then obtain sc u where "sv = fst (start_service F sc u)" by blast
  then show ?thesis by (simp add: start_service_fresh)
qed

lemma fresh_none_waits:
  assumes "threads_fresh ts"
  shows "waiting (workers (initial_server ts) i) = {}"
proof (cases "i < length ts")
  case True
  then have "ts ! i \<in> set ts" by simp
  with assms True show ?thesis
    unfolding threads_fresh_def by (cases "snd (ts ! i)") (force simp: initial_server_def new_worker_def)+
qed (simp add: initial_server_def new_worker_def)

lemma launched_none_waits:
  assumes "main_start e F Q db argv env w = (Serving p, w')"
  shows "rn_waiting (launched p) = {}"
proof -
  have "waiting (workers (rn_servers (launched p) k) i) = {}" for k i
    using fresh_none_waits [OF main_start_fresh [OF assms nth_mem], of k] fresh_none_waits [of "[]"]
    by (simp add: launched_def threads_fresh_def)
  then show ?thesis by (simp add: rn_waiting_def)
qed

lemma process_inv_reachable:
  assumes "main_start e F Q db argv env w = (Serving p, w')" and "process_reachable p r"
  shows "process_inv (pr_services p) r"
  using assms(2)
proof induction
  case start
  have "server_inv role (length (snd (pr_services p ! k))) (initial_server (snd (pr_services p ! k)))"
    if "k < length (pr_services p)" for k role
    using initial_server_inv main_start_fresh [OF assms(1) nth_mem [OF that]] .
  moreover have "waiting (workers (rn_servers (launched p) k) i) = {}" for k i
    using launched_none_waits [OF assms(1)] by (auto simp: rn_waiting_def)
  moreover have "k < length (pr_services p) \<Longrightarrow> rn_servers (launched p) k = initial_server (snd (pr_services p ! k))" for k
    by (simp add: launched_def)
  moreover have "rn_phase (launched p) = Handling" by (simp add: launched_def)
  ultimately show ?case by (simp add: process_inv_def joined_before_def)
next
  case (more r r')
  then show ?case using process_inv_step by blast
qed
section \<open>Returning\<close>

lemma threads_done_count:
  assumes "server_inv role n s" and "threads_done n s"
  shows "active_connections s = 0"
proof -
  have "counted (workers s i) = 0" if "i < n" for i
    using assms(2) that by (simp add: threads_done_def thread_done_def counted_def)
  then have "total counted n s = 0" by (simp add: total_def)
  then show ?thesis using assms(1) by (simp add: server_inv_def)
qed

lemma returned_core:
  assumes "process_inv svs r" and "rn_phase r = Returned" and "k < length svs"
  shows "threads_done (length (snd (svs ! k))) (rn_servers r k) \<and> rn_receiving r k = {} \<and>
    active_connections (rn_servers r k) = 0"
  using assms threads_done_count [of "sc_role (fst (svs ! k))" "length (snd (svs ! k))" "rn_servers r k"]
  by (auto simp: process_inv_def joined_before_def service_done_def)

text \<open>A waiting session has a thread that is not done, and waits for ever once the orchestrator joins.\<close>

lemma returned_none_waiting:
  assumes inv: "process_inv svs r" and "rn_phase r = Returned"
  shows "rn_waiting r = {}"
proof -
  have False if w: "(k, i, sid) \<in> rn_waiting r" for k i sid
  proof -
    from inv w have k: "k < length svs" "i < length (snd (svs ! k))" and sid: "sid \<in> waiting (workers (rn_servers r k) i)"
      by (auto simp: process_inv_def rn_waiting_def)
    with inv have "sid \<in> registry (workers (rn_servers r k) i)"
      by (auto simp: process_inv_def server_inv_def worker_ok_def)
    with k returned_core [OF inv assms(2)] show False by (auto simp: threads_done_def thread_done_def)
  qed
  then show ?thesis by force
qed

lemma waiting_step:
  "process_step svs r r' \<Longrightarrow> rn_phase r \<noteq> Handling \<Longrightarrow> rn_waiting r \<subseteq> rn_waiting r' \<and> rn_phase r' \<noteq> Handling"
  by (erule process_stepE) (auto simp: rn_waiting_def)

lemma waits_for_ever:
  assumes "(process_step svs)\<^sup>*\<^sup>* r r'" and "process_inv svs r" and "rn_phase r \<noteq> Handling"
  shows "process_inv svs r' \<and> rn_phase r' \<noteq> Handling \<and> rn_waiting r \<subseteq> rn_waiting r'"
  using assms
proof (induction rule: rtranclp_induct)
  case (step r1 r2)
  from step.hyps(2) step show ?case
    using process_inv_step waiting_step [OF step.hyps(2)] by blast
qed simp

lemma hang_core:
  assumes "process_inv svs r" and "rn_phase r \<noteq> Handling" and "rn_waiting r \<noteq> {}"
    and "(process_step svs)\<^sup>*\<^sup>* r r'"
  shows "rn_phase r' \<noteq> Returned"
  using waits_for_ever [OF assms(4,1,2)] returned_none_waiting [of svs r'] assms(3) by blast

section \<open>A process that does not wait for the store\<close>

text \<open>What a server may still do before its threads are done.\<close>

definition finishing :: "worker \<Rightarrow> nat" where
  "finishing w = 3 * card (registry w) +
     (case w_pc w of Idle \<Rightarrow> 0 | Admitting sid \<Rightarrow> 4 | Closing \<Rightarrow> 1) +
     (if accept_ready w then 5 else 0) + (if accept_loop_runs w then 1 else 0)"

lemma total_opened: "total f n (set_worker i w (on_connection_opened s)) = total f n (set_worker i w s)"
  by (simp add: total_def set_worker_def on_connection_opened_def)

lemma finishing_step:
  assumes inv: "server_inv role n s" and i: "i < n" and "\<not> thread_done (workers s i)"
    and nw: "waiting (workers s i) = {}"
  shows "\<exists>s'. server_step role n s s' \<and> (\<forall>j. waiting (workers s' j) = waiting (workers s j)) \<and>
    total finishing n s' < total finishing n s"
proof -
  let ?w = "workers s i"
  have ok: "worker_ok ?w" using inv i by (simp add: server_inv_def)
  then have fin: "finite (registry ?w)" by (simp add: worker_ok_def)
  show ?thesis
  proof (cases "w_pc ?w")
    case (Admitting sid)
    then have "sid \<notin> registry ?w" using ok by (simp add: worker_ok_def)
    with Admitting fin server_step.opened [OF i refl Admitting, of role] show ?thesis
      by (intro exI [of _ "set_worker i (registry_add sid (?w\<lparr>w_pc := Idle\<rparr>)) (on_connection_opened s)"] conjI)
        (auto simp: i finishing_def registry_add_def total_opened intro!: total_less)
  next
    case Closing
    then show ?thesis
      by (intro exI [of _ "set_worker i (?w\<lparr>w_pc := Idle\<rparr>) (fst (on_connection_closed s))"] conjI)
        (auto simp: i finishing_def total_discounted intro!: server_step.closed total_less)
  next
    case Idle
    show ?thesis
    proof (cases "accept_ready ?w")
      case True
      obtain sid where sid: "sid \<notin> registry ?w" using fin ex_new_if_finite infinite_UNIV_nat by blast
      show ?thesis
      proof (cases "admits role s")
        case adm: True
        show ?thesis
          by (intro exI [of _ "set_worker i (?w\<lparr>accept_ready := False, w_pc := Admitting sid\<rparr>) s"] conjI)
            (use Idle True adm sid in \<open>auto simp: i finishing_def intro!: server_step.admit total_less\<close>)
      next
        case False
        show ?thesis
          by (intro exI [of _ "set_worker i (?w\<lparr>accept_ready := False\<rparr>) s"] conjI)
            (use Idle True False in \<open>auto simp: i finishing_def intro!: server_step.refuse total_less\<close>)
      qed
    next
      case notready: False
      show ?thesis
      proof (cases "accept_loop_runs ?w")
        case True
        show ?thesis
          by (intro exI [of _ "set_worker i (?w\<lparr>accept_loop_runs := False\<rparr>) s"] conjI)
            (use Idle True notready in \<open>auto simp: i finishing_def intro!: server_step.accept_fails total_less\<close>)
      next
        case False
        with assms(3) Idle notready obtain sid where sid: "sid \<in> registry ?w" by (auto simp: thread_done_def)
        then have "Suc (card (registry ?w - {sid})) = card (registry ?w)" using fin by (intro card_Suc_Diff1)
        then show ?thesis
          using server_step.finished [OF i refl Idle sid, of role] nw
          by (intro exI [of _ "set_worker i (registry_remove sid (?w\<lparr>w_pc := Closing\<rparr>)) s"] conjI)
            (use Idle sid in \<open>auto simp: i finishing_def registry_remove_def intro!: total_less\<close>)
      qed
    qed
  qed
qed


text \<open>The joined server of a process runs by itself; the other servers need not move.\<close>

lemma server_drains:
  assumes "process_inv svs r" and "rn_waiting r = {}" and "k < length svs" and "rn_phase r = Joining k"
  shows "\<exists>s'. (process_step svs)\<^sup>*\<^sup>* r (r\<lparr>rn_servers := (rn_servers r)(k := s')\<rparr>) \<and>
    rn_waiting (r\<lparr>rn_servers := (rn_servers r)(k := s')\<rparr>) = {} \<and> threads_done (length (snd (svs ! k))) s'"
  using assms
proof (induction "total finishing (length (snd (svs ! k))) (rn_servers r k)" arbitrary: r rule: less_induct)
  case less
  let ?n = "length (snd (svs ! k))"
  show ?case
  proof (cases "threads_done ?n (rn_servers r k)")
    case True
    then show ?thesis using less.prems(2) by (intro exI [of _ "rn_servers r k"]) simp
  next
    case False
    then obtain i where "i < ?n" "\<not> thread_done (workers (rn_servers r k) i)" by (auto simp: threads_done_def)
    moreover have "waiting (workers (rn_servers r k) i) = {}" using less.prems(2) by (auto simp: rn_waiting_def)
    moreover have "server_inv (sc_role (fst (svs ! k))) ?n (rn_servers r k)"
      using less.prems by (simp add: process_inv_def)
    ultimately obtain s1 where s1: "server_step (sc_role (fst (svs ! k))) ?n (rn_servers r k) s1"
        "\<forall>j. waiting (workers s1 j) = waiting (workers (rn_servers r k) j)"
        "total finishing ?n s1 < total finishing ?n (rn_servers r k)"
      using finishing_step by blast
    let ?r = "r\<lparr>rn_servers := (rn_servers r)(k := s1)\<rparr>"
    have step: "process_step svs r ?r"
      using less.prems s1(1,2) by (intro process_step.serve) (simp_all add: stop_requested_def)
    have "rn_waiting ?r = {}" using less.prems(2) s1(2) by (auto simp: rn_waiting_def)
    then    have "\<exists>s'. (process_step svs)\<^sup>*\<^sup>* ?r (?r\<lparr>rn_servers := (rn_servers ?r)(k := s')\<rparr>) \<and>
        rn_waiting (?r\<lparr>rn_servers := (rn_servers ?r)(k := s')\<rparr>) = {} \<and> threads_done ?n s'"
      using less.prems s1(3) process_inv_step [OF less.prems(1) step] by (intro less.hyps) simp_all
    with step show ?thesis by (auto intro: converse_rtranclp_into_rtranclp)
  qed
qed

lemma receivers_end:
  assumes "finite (rn_receiving r k)"
  shows "(process_step svs)\<^sup>*\<^sup>* r (r\<lparr>rn_receiving := (rn_receiving r)(k := {})\<rparr>)"
  using assms
proof (induction "card (rn_receiving r k)" arbitrary: r)
  case 0
  then have "(rn_receiving r)(k := {}) = rn_receiving r" by (auto simp: fun_eq_iff)
  then show ?case by simp
next
  case (Suc m)
  then obtain i where i: "i \<in> rn_receiving r k" by (metis card_eq_0_iff equals0I nat.distinct(1))
  let ?r = "r\<lparr>rn_receiving := (rn_receiving r)(k := rn_receiving r k - {i})\<rparr>"
  have "(process_step svs)\<^sup>*\<^sup>* ?r (?r\<lparr>rn_receiving := (rn_receiving ?r)(k := {})\<rparr>)"
    using Suc i by (intro Suc.hyps) simp_all
  with process_step.receive_ends [OF i, of svs] show ?case by (auto intro: converse_rtranclp_into_rtranclp)
qed

lemma join_completes:
  assumes inv: "process_inv svs r" and fin: "\<And>k. finite (rn_receiving r k)" and "rn_waiting r = {}"
    and k: "k < length svs" and "rn_phase r = Joining k"
  shows "\<exists>r'. (process_step svs)\<^sup>*\<^sup>* r r' \<and> rn_phase r' = Joining (Suc k) \<and> rn_waiting r' = {} \<and>
    (\<forall>k. finite (rn_receiving r' k))"
proof -
  obtain s' where s': "(process_step svs)\<^sup>*\<^sup>* r (r\<lparr>rn_servers := (rn_servers r)(k := s')\<rparr>)"
      "rn_waiting (r\<lparr>rn_servers := (rn_servers r)(k := s')\<rparr>) = {}" "threads_done (length (snd (svs ! k))) s'"
    using server_drains [OF assms(1,3-5)] by blast
  let ?r1 = "r\<lparr>rn_servers := (rn_servers r)(k := s')\<rparr>"
  let ?r2 = "?r1\<lparr>rn_receiving := (rn_receiving ?r1)(k := {})\<rparr>"
  have "(process_step svs)\<^sup>*\<^sup>* ?r1 ?r2" using fin by (intro receivers_end) simp
  moreover have "process_step svs ?r2 (?r2\<lparr>rn_phase := Joining (Suc k)\<rparr>)"
    using assms(5) k s'(3) by (intro process_step.joined) (simp_all add: service_done_def)
  ultimately have "(process_step svs)\<^sup>*\<^sup>* r (?r2\<lparr>rn_phase := Joining (Suc k)\<rparr>)"
    using s'(1) by (meson rtranclp.rtrancl_into_rtrancl rtranclp_trans)
  then show ?thesis
    using s'(2) fin by (intro exI [of _ "?r2\<lparr>rn_phase := Joining (Suc k)\<rparr>"]) (simp add: rn_waiting_def)
qed

lemma process_inv_steps: "(process_step svs)\<^sup>*\<^sup>* r r' \<Longrightarrow> process_inv svs r \<Longrightarrow> process_inv svs r'"
  by (induction rule: rtranclp_induct) (auto intro: process_inv_step)

lemma return_possible:
  assumes "process_inv svs r" and "\<And>k. finite (rn_receiving r k)" and "rn_waiting r = {}"
    and "rn_phase r = Joining j"
  shows "\<exists>r'. (process_step svs)\<^sup>*\<^sup>* r r' \<and> rn_phase r' = Returned"
  using assms
proof (induction "length svs - j" arbitrary: j r)
  case 0
  then have "rn_phase r = Joining (length svs)" by (auto simp: process_inv_def)
  then show ?case
    using process_step.returns [of r svs] by (intro exI [of _ "r\<lparr>rn_phase := Returned\<rparr>"]) auto
next
  case (Suc m)
  then have "j < length svs" by simp
  from join_completes [OF Suc.prems(1-3) this Suc.prems(4)] obtain r1 where
    r1: "(process_step svs)\<^sup>*\<^sup>* r r1" "rn_phase r1 = Joining (Suc j)" "rn_waiting r1 = {}"
      "\<And>k. finite (rn_receiving r1 k)" by blast
  have "\<exists>r'. (process_step svs)\<^sup>*\<^sup>* r1 r' \<and> rn_phase r' = Returned"
    using Suc.hyps(2) r1 process_inv_steps [OF r1(1) Suc.prems(1)] by (intro Suc.hyps(1) [of "Suc j"]) auto
  with r1(1) show ?case by (meson rtranclp_trans)
qed

lemma receiving_finite: "process_reachable p r \<Longrightarrow> finite (rn_receiving r k)"
proof (induction arbitrary: k rule: process_reachable.induct)
  case (more r r')
  from more.hyps(2) more.IH show ?case by (auto elim: process_stepE)
qed (simp add: launched_def receiving_threads_def)

lemma none_waits:
  assumes "process_reachable p r" and "rn_waiting (launched p) = {}"
    and "\<forall>sv \<in> set (pr_services p). \<not> uses_store_client (sc_handler (fst sv))"
  shows "rn_waiting r = {}"
  using assms(1)
proof induction
  case (more r r')
  from more.hyps(2) more.IH assms(3) show ?case by (cases rule: process_stepE) (auto simp: rn_waiting_def split: if_splits)
qed (rule assms(2))

text \<open>Master can always return once a signal has come.\<close>

lemma master_returns_core:
  assumes main: "main_start e F Q db argv env w = (Serving p, w')" and argv: "parse_args argv = Inr (Some a)"
    and role: "a_role a = ''master''" and reach: "process_reachable p r" and phase: "rn_phase r \<noteq> Handling"
  shows "\<exists>r'. (process_step (pr_services p))\<^sup>*\<^sup>* r r' \<and> rn_phase r' = Returned"
proof (cases "rn_phase r")
  case (Joining j)
  have "\<not> uses_store_client (sc_handler (fst sv))" if "sv \<in> set (pr_services p)" for sv
    using main that by (auto simp: main_start_def main_dispatch_def argv role run_master_def start_service_def Let_def
        split: sum.splits option.splits prod.splits)
  then have "rn_waiting r = {}" using none_waits [OF reach launched_none_waits [OF main]] by blast
  with Joining show ?thesis
    using return_possible [OF process_inv_reachable [OF main reach]] receiving_finite [OF reach] by blast
qed (use phase in auto)


text \<open>After a signal a process can still return exactly when no session waits for the store.\<close>

lemma can_return_iff:
  assumes "main_start e F Q db argv env w = (Serving p, w')" and reach: "process_reachable p r"
    and phase: "rn_phase r \<noteq> Handling"
  shows "(\<exists>r'. (process_step (pr_services p))\<^sup>*\<^sup>* r r' \<and> rn_phase r' = Returned) \<longleftrightarrow> rn_waiting r = {}"
proof -
  have inv: "process_inv (pr_services p) r" by (rule process_inv_reachable [OF assms(1,2)])
  have "\<exists>r'. (process_step (pr_services p))\<^sup>*\<^sup>* r r' \<and> rn_phase r' = Returned" if "rn_waiting r = {}"
  proof (cases "rn_phase r")
    case (Joining j)
    then show ?thesis using return_possible [OF inv receiving_finite [OF reach] that] by blast
  qed (use phase in auto)
  with hang_core [OF inv phase] show ?thesis by blast
qed

end
