(* ===== verification/Demo.thy ===== *)
theory Demo
  imports Flow
begin

text \<open>
  A concrete deployment in which the results on logins apply: the demonstration crypto, BIGNUM
  library and database of the earlier theories, a store with one ticket and one account. It
  shows that the conditions the results are stated under can all hold together.
\<close>

definition demo_iter :: iteration where
  "demo_iter es = es"

lemma demo_iteration: "is_iteration demo_iter"
  by (simp add: is_iteration_def demo_iter_def)

lemma demo_crypto: "crypto_ok demo_openssl hk"
  by (simp add: crypto_ok_def demo_openssl_documented demo_available)

definition demo_salt :: bytes where
  "demo_salt = replicate 16 5"

definition demo_reg :: registration where
  "demo_reg =
     (case compute_verifier_with_salt demo_openssl demo_bn ''ann'' ''pw'' demo_salt of
        Inr reg \<Rightarrow> reg | Inl _ \<Rightarrow> \<lparr>reg_salt = [], reg_verifier = []\<rparr>)"

definition demo_config :: "(store_server, demo_db repo) login_config" where
  "demo_config =
     \<lparr> lc_endian = Little_Endian, lc_openssl = demo_openssl, lc_bn = demo_bn, lc_store_key = [],
       lc_net = (\<lambda>_. loopback Little_Endian demo_openssl [] demo_iter),
       lc_accounts = sqlite_account_repository demo_sqlite 0, lc_enum_key = [1],
       lc_session_ttl = 60 \<rparr>"

definition demo_ticket :: string where
  "demo_ticket = ''ticket''"

definition demo_login :: "(store_server, demo_db repo) login_server" where
  "demo_login =
     \<lparr> lg_world = server_at 0 (store_put demo_ticket [] 30 0 empty_store),
       lg_accounts = \<lparr>db_path = ''accounts.db'',
         rp_db = ([(''ann'', reg_salt demo_reg, reg_verifier demo_reg)], False), rp_open = {}\<rparr>,
       lg_sessions = Map.empty, lg_rand = (\<lambda>_. Some (replicate 16 7)), lg_draws = 0,
       lg_bn_rand = (\<lambda>_. Some 1), lg_bn_draws = 0 \<rparr>"

section \<open>The crypto of the demonstration\<close>

lemma demo_digest_num: "be_num (demo_digest data) = 256 + unat (sum_list data)"
  by (simp add: be_num_def demo_digest_def replicate_app_Cons_same numeral_eq_Suc)

lemma demo_digest_num_less: "be_num (demo_digest data) < 512" "be_num (demo_digest data) \<noteq> 0"
  using unat_byte_less_256 [of "sum_list data"] by (simp_all add: demo_digest_num)

lemma hex_num_Cons:
  "hex_num (c # s) = (case digit_value c of Some d \<Rightarrow> d | None \<Rightarrow> 0) * 16 ^ length s + hex_num s"
proof (induction s rule: rev_induct)
  case Nil
  then show ?case by (simp add: hex_num_def)
next
  case (snoc x s)
  then show ?case
    using hex_num_snoc [of "c # s" x] hex_num_snoc [of s x] by (simp add: algebra_simps)
qed

lemma hd_kGroupNHex: "hd kGroupNHex = CHR ''F''"
  by code_simp

lemma group_N_large: "2 ^ 1000 \<le> group_N"
proof -
  have nonempty: "kGroupNHex \<noteq> []" using kGroupNHex_shape(1) by auto
  then have split: "kGroupNHex = CHR ''F'' # tl kGroupNHex"
    using hd_kGroupNHex by (metis list.collapse)
  have len: "length (tl kGroupNHex) = 511" using kGroupNHex_shape(1) by simp
  have "group_N = 15 * 16 ^ length (tl kGroupNHex) + hex_num (tl kGroupNHex)"
    unfolding group_N_def by (subst split) (simp only: hex_num_Cons digit_values option.case)
  then have "16 ^ 511 \<le> group_N" unfolding len by linarith
  moreover have "(16 :: nat) ^ 511 = 2 ^ 2044"
    using power_mult [of "2 :: nat" 4 511] by simp
  moreover have "(2 :: nat) ^ 1000 \<le> 2 ^ 2044" by (rule power_increasing) simp_all
  ultimately show ?thesis by linarith
qed

lemma demo_compute:
  "compute_x demo_openssl demo_bn salt user pw =
     Inr (be_num (demo_digest (salt @ demo_digest (bytes_of (user @ '':'' @ pw)))))"
  "compute_u demo_openssl demo_bn A B = Inr (be_num (demo_digest (A @ B)))"
  "compute_k demo_openssl demo_bn group_N kGroupG =
     Inr (be_num (demo_digest (be_pad kNBytes group_N @ be_pad kNBytes kGroupG)))"
proof -
  have "bn_to_bytes demo_bn group_N kNBytes = Inr (be_pad kNBytes group_N)"
    using demo_bn_documented group_N_width by (simp add: bn_to_bytes_def bn_documented_def)
  then show "compute_k demo_openssl demo_bn group_N kGroupG =
     Inr (be_num (demo_digest (be_pad kNBytes group_N @ be_pad kNBytes kGroupG)))"
    by (simp add: compute_k_def bn_rules [OF demo_bn_documented] group_args_fit demo_sha256)
qed (simp_all add: compute_x_def compute_u_def demo_sha256 bn_rules(2) [OF demo_bn_documented]
    del: append.simps)

lemma demo_reg_is:
  "compute_verifier_with_salt demo_openssl demo_bn ''ann'' ''pw'' demo_salt = Inr demo_reg"
  by (simp add: demo_reg_def compute_verifier_with_salt_def bn_rules [OF demo_bn_documented]
      demo_compute group_args_fit del: append.simps)

lemma demo_reg_salt: "reg_salt demo_reg = demo_salt"
  using compute_verifier_closed [OF demo_bn_documented demo_reg_is] by auto

text \<open>The challenge for the demonstration account is not zero, so a client answers it.\<close>

lemma demo_challenge_nonzero:
  assumes "server_begin demo_openssl demo_bn (Some 1) (reg_verifier demo_reg) = Inr ch"
  shows "be_num (ch_B_bytes ch) mod group_N \<noteq> 0"
proof -
  obtain x where x: "compute_x demo_openssl demo_bn demo_salt ''ann'' ''pw'' = Inr x"
      and v: "reg_verifier demo_reg = be_pad kNBytes (kGroupG ^ x mod group_N)"
    using compute_verifier_closed [OF demo_bn_documented demo_reg_is] by auto
  obtain k where k: "srp_k demo_openssl demo_bn = Inr k"
      and B: "ch_B_bytes ch = be_pad kNBytes
        ((k * be_num (reg_verifier demo_reg) mod group_N + kGroupG ^ 1 mod group_N) mod group_N)"
    using server_begin_closed [OF demo_bn_documented assms] by (auto simp: rand_into_fresh_def)
  have "x < 512" using x demo_digest_num_less(1) by (auto simp: demo_compute(1) simp del: append.simps)
  then have gx: "kGroupG ^ x \<le> 2 ^ 511"
    unfolding kGroupG_def by (intro power_increasing) simp_all
  have k512: "k < 2 ^ 9" using k demo_digest_num_less(1) by (auto simp: srp_k_def demo_compute(3))
  have small: "(2 :: nat) ^ 511 < 2 ^ 1000" by (rule power_strict_increasing) simp_all
  then have v': "be_num (reg_verifier demo_reg) = kGroupG ^ x"
    unfolding v using gx group_N_large by (subst be_num_pad_group) (simp_all add: group_args_fit)
  have "k * kGroupG ^ x \<le> 2 ^ 9 * 2 ^ 511"
    using k512 gx by (intro mult_mono) simp_all
  then have "k * kGroupG ^ x \<le> 2 ^ 520" by (simp flip: power_add)
  moreover have "(2 :: nat) ^ 520 + 2 < 2 ^ 521" by simp
  ultimately have "k * kGroupG ^ x + 2 < 2 ^ 521" by linarith
  moreover have "(2 :: nat) ^ 521 \<le> 2 ^ 1000" by (rule power_increasing) simp_all
  ultimately have "k * kGroupG ^ x + 2 < group_N" using group_N_large by linarith
  then have "(k * kGroupG ^ x mod group_N + kGroupG ^ 1 mod group_N) mod group_N = k * kGroupG ^ x + 2"
    by (simp add: kGroupG_def)
  then show ?thesis
    unfolding B v' using be_num_pad_group [of "(k * kGroupG ^ x + 2)"] \<open>_ < group_N\<close> by simp
qed

lemma demo_client:
  assumes "server_begin demo_openssl demo_bn (Some 1) (reg_verifier demo_reg) = Inr ch"
  shows "\<exists>prf. client_respond demo_openssl demo_bn (Some 1) ''ann'' ''pw'' demo_salt (ch_B_bytes ch) = Inr prf"
  using demo_challenge_nonzero [OF assms]
  by (simp add: client_respond_def bn_rules [OF demo_bn_documented] demo_compute group_args_fit Let_def
      demo_sha256 compute_M1_def del: append.simps)

section \<open>The login of the demonstration\<close>

lemma demo_connected: "login_connected demo_config demo_iter"
  by (simp add: login_connected_def demo_config_def demo_crypto)

lemma demo_store:
  "values_ok (sv_store (lg_world demo_login))"
  "live (sv_now (lg_world demo_login)) (sv_store (lg_world demo_login)) demo_ticket = Some []"
  by (simp_all add: demo_login_def values_ok_def all_values_def store_put_def empty_store_def rpc_value_ok_def
      kMaxResponseBytes_def live_def unexpired_def is_expired_def ns_per_second_def)

lemma demo_find:
  "\<exists>r. acc_find (lc_accounts demo_config) 0 ''ann'' (lg_accounts demo_login) =
     (Inr (Some \<lparr>ac_username = ''ann'', ac_salt = reg_salt demo_reg,
       ac_verifier = reg_verifier demo_reg\<rparr>), r)"
  "\<exists>r. acc_find (lc_accounts demo_config) 0 ''bob'' (lg_accounts demo_login) = (Inr None, r)"
  by (simp_all add: demo_config_def demo_login_def sqlite_account_repository_def repo_find_def
      connection_def repo_open_def repo_exec_def demo_sqlite_simps)

text \<open>After the hello the ticket is gone and the store of the demonstration is empty.\<close>

lemma demo_hello:
  assumes "login_on_message demo_config (0, 1) (encode_client_hello Little_Endian demo_ticket ''ann'')
    demo_login fresh_conn = (ex1, h1, c1)"
  shows "\<exists>ch. server_begin demo_openssl demo_bn (Some 1) (reg_verifier demo_reg) = Inr ch \<and>
    session_at h1 (0, 1) = \<lparr>ls_stage = AwaitingProof, ls_username = ''ann'', ls_challenge = Some ch\<rparr> \<and>
    sent c1 = frame Little_Endian (encode_server_challenge Little_Endian demo_salt (ch_B_bytes ch)) \<and>
    quiet c1 \<and> entries (sv_store (lg_world h1)) = [] \<and> lg_rand h1 = (\<lambda>_. Some (replicate 16 7)) \<and>
    sv_now (lg_world h1) = 0 \<and> ex1 = None"
proof -
  have e: "lc_endian demo_config = Little_Endian" "lc_openssl demo_config = demo_openssl"
      "lc_bn demo_config = demo_bn" "lc_store_key demo_config = []"
      "lc_net demo_config w = loopback Little_Endian demo_openssl [] demo_iter" for w
    by (simp_all add: demo_config_def)
  obtain ch where ch: "server_begin demo_openssl demo_bn (Some 1) (reg_verifier demo_reg) = Inr ch"
    using server_begin_available [OF demo_bn_documented demo_available(2)] by blast
  obtain r where find: "acc_find (lc_accounts demo_config) 0 ''ann'' (lg_accounts demo_login) =
     (Inr (Some \<lparr>ac_username = ''ann'', ac_salt = reg_salt demo_reg,
       ac_verifier = reg_verifier demo_reg\<rparr>), r)"
    using demo_find(1) by blast
  have new: "session_at demo_login (0, 1) = new_login_session"
    by (simp add: session_at_def demo_login_def)
  have key: "rpc_key_ok demo_ticket" by (simp add: rpc_key_ok_def demo_ticket_def)
  have conn: "quiet fresh_conn" "sent fresh_conn = []" by (simp_all add: quiet_def fresh_conn_def)
  have step: "login_on_message demo_config (0, 1)
      (encode_client_hello (lc_endian demo_config) demo_ticket ''ann'') demo_login fresh_conn = (ex1, h1, c1)"
    using assms by (simp only: e)
  have reg: "registration_for demo_config (Some \<lparr>ac_username = ''ann'', ac_salt = reg_salt demo_reg,
       ac_verifier = reg_verifier demo_reg\<rparr>) ''ann'' (lg_rand demo_login (lg_draws demo_login)) = Inr demo_reg"
    by (simp add: registration_for_def)
  have chal: "server_begin (lc_openssl demo_config) (lc_bn demo_config)
      (lg_bn_rand demo_login (lg_bn_draws demo_login)) (reg_verifier demo_reg) = Inr ch"
    using ch by (simp add: e demo_login_def)
  have live: "live (sv_now (lg_world demo_login)) (sv_store (lg_world demo_login)) demo_ticket \<noteq> None"
    using demo_store(2) by simp
  note hello = hello_core [OF demo_connected new key demo_store(1) live _ _ reg chal conn(1) step,
      unfolded fst_conv, OF _ find]
  have "entries (snd (store_take demo_ticket 0 (store_put demo_ticket [] 30 0 empty_store))) = []"
    by (simp add: store_take_def store_put_def empty_store_def is_expired_def ns_per_second_def)
  moreover have "sv_now (lg_world demo_login) = 0"
      "sv_store (lg_world demo_login) = store_put demo_ticket [] 30 0 empty_store"
      "lg_rand demo_login = (\<lambda>_. Some (replicate 16 7))" "sv_clock (lg_world demo_login) = (\<lambda>_. 0)"
    by (simp_all add: demo_login_def server_at_def sv_now_def)
  ultimately show ?thesis
    using hello ch conn by (auto simp: e demo_reg_salt quiet_def sv_now_def)
qed

lemma demo_listing:
  assumes "entries (sv_store sv) = []"
  shows "world_listing demo_iter (after_token demo_config (to_hex rnd) user sv) = []"
    "listing_fits (world_listing demo_iter (after_token demo_config (to_hex rnd) user sv))"
proof -
  show "world_listing demo_iter (after_token demo_config (to_hex rnd) user sv) = []"
    using assms token_not_registry_key(2) [of rnd]
    by (simp add: world_listing_def after_token_def demo_iter_def store_list_prefix_def store_put_def)
  then show "listing_fits (world_listing demo_iter (after_token demo_config (to_hex rnd) user sv))"
    by (simp add: listing_fits_def list_fits_def list_bytes_def kMaxResponseBytes_def)
qed

definition demo_rnd :: bytes where
  "demo_rnd = replicate 16 7"

lemma demo_salt_length: "length demo_salt = 16"
  by (simp add: demo_salt_def)

lemma demo_rnd_length: "length demo_rnd = 16"
  by (simp add: demo_rnd_def)

lemma demo_put_ok: "rpc_put_ok (to_hex demo_rnd) (bytes_of ''ann'') 60"
  by (simp add: rpc_put_ok_def demo_rnd_def length_to_hex)

lemma demo_login_run:
  obtains h1 c1 msg d pr ex2 h3 c3 where
    "login_on_message demo_config (0, 1) (encode_client_hello Little_Endian demo_ticket ''ann'')
       demo_login fresh_conn = (None, h1, c1)"
    "sent c1 = frame Little_Endian msg" "login_decode Little_Endian msg = Some d"
    "client_respond demo_openssl demo_bn (Some 1) ''ann'' ''pw'' (l_salt d) (l_B d) = Inr pr"
    "compute_u demo_openssl demo_bn (cp_A_bytes pr) (l_B d) \<noteq> Inr 0"
    "login_on_message demo_config (0, 1)
       (encode_client_proof Little_Endian (cp_A_bytes pr) (cp_M1 pr)) h1 fresh_conn = (ex2, h3, c3)"
    "entries (sv_store (lg_world h1)) = []" "sv_now (lg_world h1) = 0"
    "lg_rand h1 = (\<lambda>_. Some demo_rnd)"
proof -
  obtain ex1 h1 c1 where step1: "login_on_message demo_config (0, 1)
      (encode_client_hello Little_Endian demo_ticket ''ann'') demo_login fresh_conn = (ex1, h1, c1)"
    by (metis prod_cases3)
  from demo_hello [OF step1] obtain ch where
      ch: "server_begin demo_openssl demo_bn (Some 1) (reg_verifier demo_reg) = Inr ch"
      and c1: "sent c1 = frame Little_Endian (encode_server_challenge Little_Endian demo_salt (ch_B_bytes ch))"
      and rest: "entries (sv_store (lg_world h1)) = []" "sv_now (lg_world h1) = 0"
        "lg_rand h1 = (\<lambda>_. Some demo_rnd)" "ex1 = None"
    by (auto simp: demo_rnd_def)
  let ?msg = "encode_server_challenge Little_Endian demo_salt (ch_B_bytes ch)"
  let ?d = "decoded_login_msg (MChallenge demo_salt (ch_B_bytes ch))"
  have d: "login_decode Little_Endian ?msg = Some ?d"
    using login_decode_encode [of "MChallenge demo_salt (ch_B_bytes ch)" Little_Endian "[]"]
      B_length [OF demo_bn_documented ch] by (simp add: demo_salt_def)
  obtain pr where "client_respond demo_openssl demo_bn (Some 1) ''ann'' ''pw'' (l_salt ?d) (l_B ?d) = Inr pr"
    using demo_client [OF ch] by (auto simp: login_decoded_init_def)
  moreover have "compute_u demo_openssl demo_bn (cp_A_bytes pr) (l_B ?d) \<noteq> Inr 0"
    using demo_digest_num_less(2) by (simp add: demo_compute(2))
  moreover obtain ex2 h3 c3 where "login_on_message demo_config (0, 1)
      (encode_client_proof Little_Endian (cp_A_bytes pr) (cp_M1 pr)) h1 fresh_conn = (ex2, h3, c3)"
    by (metis prod_cases3)
  ultimately show thesis
    using that [OF _ c1 d] step1 rest by simp
qed

lemma demo_facts:
  "quiet fresh_conn" "sent fresh_conn = []" "conn_open fresh_conn" "write_outcomes fresh_conn = []"
  "session_at demo_login sid = new_login_session" "rpc_key_ok demo_ticket"
  "lc_endian demo_config = Little_Endian" "lc_openssl demo_config = demo_openssl"
  "lc_bn demo_config = demo_bn" "lc_session_ttl demo_config = 60" "lc_enum_key demo_config = [1]"
  "lg_rand demo_login n = Some demo_rnd"
  by (simp_all add: demo_rnd_def quiet_def fresh_conn_def session_at_def demo_login_def rpc_key_ok_def
      demo_ticket_def demo_config_def)

text \<open>The run leaves the session token in the store; its sessions are those of a running process.\<close>

lemma demo_login_done:
  obtains h1 and pr :: client_proof and h3 c3 where
    "login_reachable demo_config h1" "values_ok (sv_store (lg_world h1))"
    "lg_rand h1 = (\<lambda>_. Some demo_rnd)"
    "login_on_message demo_config (0, 1)
       (encode_client_proof Little_Endian (cp_A_bytes pr) (cp_M1 pr)) h1 fresh_conn = (None, h3, c3)"
    "live 0 (sv_store (lg_world h3)) (to_hex demo_rnd) = Some (bytes_of ''ann'')"
    "live 0 (sv_store (lg_world h1)) (to_hex demo_rnd) = None"
    "ls_username (session_at h1 (0, 1)) = ''ann''"
proof -
  obtain h1 c1 msg d pr ex2 h3 c3 where
    run: "login_on_message demo_config (0, 1) (encode_client_hello Little_Endian demo_ticket ''ann'')
       demo_login fresh_conn = (None, h1, c1)"
    "sent c1 = frame Little_Endian msg" "login_decode Little_Endian msg = Some d"
    "client_respond demo_openssl demo_bn (Some 1) ''ann'' ''pw'' (l_salt d) (l_B d) = Inr pr"
    "compute_u demo_openssl demo_bn (cp_A_bytes pr) (l_B d) \<noteq> Inr 0"
    "login_on_message demo_config (0, 1)
       (encode_client_proof Little_Endian (cp_A_bytes pr) (cp_M1 pr)) h1 fresh_conn = (ex2, h3, c3)"
    "entries (sv_store (lg_world h1)) = []" "sv_now (lg_world h1) = 0"
    "lg_rand h1 = (\<lambda>_. Some demo_rnd)"
    by (rule demo_login_run)
  obtain r where find: "acc_find (lc_accounts demo_config) 0 ''ann'' (lg_accounts demo_login) =
     (Inr (Some \<lparr>ac_username = ''ann'', ac_salt = reg_salt demo_reg,
       ac_verifier = reg_verifier demo_reg\<rparr>), r)"
    using demo_find(1) by blast
  have fin: "ex2 = None \<and> live 0 (sv_store (lg_world h3)) (to_hex demo_rnd) = Some (bytes_of ''ann'')"
    using login_succeeds_core [of demo_config demo_iter "''ann''" "''pw''" demo_salt demo_reg demo_login
        "(0, 1)" r demo_ticket fresh_conn None h1 c1 msg d "Some 1" pr h1 demo_rnd fresh_conn ex2 h3
        c3 0]
      run find demo_connected demo_bn_documented demo_available(2) demo_reg_is demo_store
      demo_listing(2) [OF run(7)] demo_put_ok demo_rnd_length
    by (auto simp: demo_salt_def ns_per_second_def demo_facts)
  have "login_reachable demo_config demo_login"
    by (rule login_reachable.start) (simp add: demo_login_def)
  then have "login_reachable demo_config h1" using run(1) by (rule login_reachable.message)
  moreover have "values_ok (sv_store (lg_world h1))" using run(7) by (simp add: values_ok_def all_values_def)
  moreover have "live 0 (sv_store (lg_world h1)) (to_hex demo_rnd) = None"
    using run(7) by (simp add: live_def)
  moreover have "ls_username (session_at h1 (0, 1)) = ''ann''" using demo_hello [OF run(1)] by auto
  ultimately show thesis using that [of h1 pr h3 c3] run(6,9) fin by simp
qed

lemma demo_agreement:
  obtains ch pr M2 where
    "server_begin demo_openssl demo_bn (Some 1) (reg_verifier demo_reg) = Inr ch"
    "client_respond demo_openssl demo_bn (Some 1) ''ann'' ''pw'' (reg_salt demo_reg) (ch_B_bytes ch) = Inr pr"
    "compute_u demo_openssl demo_bn (cp_A_bytes pr) (ch_B_bytes ch) \<noteq> Inr 0"
    "server_verify demo_openssl demo_bn ch (cp_A_bytes pr) (cp_M1 pr) =
       Inr \<lparr> sr_ok = True, sr_K = cp_K pr, sr_M2 = M2 \<rparr>"
proof -
  obtain ch where ch: "server_begin demo_openssl demo_bn (Some 1) (reg_verifier demo_reg) = Inr ch"
    using server_begin_available [OF demo_bn_documented demo_available(2)] by blast
  obtain pr where pr: "client_respond demo_openssl demo_bn (Some 1) ''ann'' ''pw'' (reg_salt demo_reg)
      (ch_B_bytes ch) = Inr pr"
    using demo_client [OF ch] by (auto simp: demo_reg_salt)
  have u: "compute_u demo_openssl demo_bn (cp_A_bytes pr) (ch_B_bytes ch) \<noteq> Inr 0"
    using demo_digest_num_less(2) by (simp add: demo_compute(2))
  obtain M2 where "server_verify demo_openssl demo_bn ch (cp_A_bytes pr) (cp_M1 pr) =
       Inr \<lparr> sr_ok = True, sr_K = cp_K pr, sr_M2 = M2 \<rparr>"
    using srp_agreement_core [OF demo_bn_documented demo_openssl_documented demo_available(2)
        demo_reg_is ch pr u] by blast
  then show thesis by (rule that [OF ch pr u])
qed

section \<open>A World of the demonstration\<close>

text \<open>A World whose store shows a session token of \<open>ann\<close>.\<close>

definition demo_world_ann :: "store_server world_server" where
  "demo_world_ann =
     \<lparr>wd_world = server_at 0 (store_put (to_hex demo_rnd) (bytes_of ''ann'') 60 0 empty_store),
      wd_sessions = Map.empty\<rparr>"

lemma demo_world_ann_ok:
  "token_ok (wd_world demo_world_ann) (bytes_of (to_hex demo_rnd))"
  "rpc_key_ok (to_hex demo_rnd)"
  "values_ok (sv_store (wd_world demo_world_ann))"
  "unauthenticated demo_world_ann sid"
  "live (sv_now (wd_world demo_world_ann)) (sv_store (wd_world demo_world_ann)) (to_hex demo_rnd) =
     Some (bytes_of ''ann'')"
proof -
  show "rpc_key_ok (to_hex demo_rnd)" by (simp add: rpc_key_ok_def length_to_hex demo_rnd_def)
  moreover show "values_ok (sv_store (wd_world demo_world_ann))"
    by (simp add: demo_world_ann_def values_ok_def all_values_def store_put_def empty_store_def
        rpc_value_ok_def kMaxResponseBytes_def)
  ultimately show "token_ok (wd_world demo_world_ann) (bytes_of (to_hex demo_rnd))" by (simp add: token_ok_def)
  show "unauthenticated demo_world_ann sid"
    by (simp add: demo_world_ann_def unauthenticated_def authenticated_as_def)
  show "live (sv_now (wd_world demo_world_ann)) (sv_store (wd_world demo_world_ann)) (to_hex demo_rnd) =
     Some (bytes_of ''ann'')"
    by (simp add: demo_world_ann_def live_put ns_per_second_def)
qed

definition demo_world :: "store_server world_server" where
  "demo_world =
     \<lparr> wd_world = server_at 0 (store_put demo_ticket [] 30 0 empty_store), wd_sessions = Map.empty \<rparr>"

lemma demo_world_ok:
  "token_ok (wd_world demo_world) (bytes_of demo_ticket)"
  "unauthenticated demo_world sid"
  "token_ok (wd_world demo_world) (bytes_of ''none'')"
  using demo_store(1)
  by (simp_all add: token_ok_def demo_facts demo_world_def demo_login_def unauthenticated_def
      authenticated_as_def rpc_key_ok_def demo_ticket_def)

lemma demo_world_none: "live (sv_now (wd_world demo_world)) (sv_store (wd_world demo_world)) ''none'' = None"
  by (simp add: demo_world_def live_put demo_ticket_def)

lemma demo_world_first:
  assumes "world_at Little_Endian demo_openssl [] demo_iter (0, 1) (bytes_of demo_ticket)
    demo_world fresh_conn = (ex, h', c')"
  shows "ex = None \<and> authenticated_as h' (0, 1) '''' \<and> unauthenticated h' (1, 1) \<and>
    token_ok (wd_world h') (bytes_of demo_ticket) \<and> sv_now (wd_world h') = 0 \<and>
    sv_now (wd_world demo_world) = 0"
proof -
  have live: "live (sv_now (wd_world demo_world)) (sv_store (wd_world demo_world)) demo_ticket = Some []"
    using demo_store(2) by (simp add: demo_world_def demo_login_def)
  have "wd_sessions h' (1, 1) = None"
    using other_sessions_untouched [of "(1, 1)" "(0, 1)" Little_Endian demo_openssl "[]"
        "\<lambda>_. loopback Little_Endian demo_openssl [] demo_iter" "bytes_of demo_ticket" demo_world fresh_conn ex h' c']
      assms by (simp add: world_at_def demo_world_def)
  moreover have "values_ok (sv_store (wd_world demo_world))"
    using demo_store(1) by (simp add: demo_world_def demo_login_def)
  ultimately show ?thesis
    using world_at_first [OF demo_crypto demo_world_ok(1,2) assms] live
    by (simp add: unauthenticated_def authenticated_as_def token_ok_def demo_facts values_ok_take)
      (simp add: demo_world_def server_at_def sv_tick_def sv_now_def)
qed

section \<open>A Master of the demonstration\<close>

definition demo_master :: master_server where
  "demo_master =
     \<lparr> ms_sv = server_at 0 (store_put (login_registry_key default_args)
         (login_announcement Little_Endian default_args) 15 0 empty_store),
       ms_rand = (\<lambda>_. Some demo_rnd), ms_draws = 0 \<rparr>"

lemma demo_master_pick:
  "pick_login Little_Endian demo_iter (sv_clock_from (ms_sv demo_master)) (sv_store (ms_sv demo_master)) =
     Some \<lparr>li_host = ''127.0.0.1'', li_port = kLoginPort\<rparr>"
proof -
  let ?s = "sv_store (ms_sv demo_master)"
  have s: "?s = store_put (login_registry_key default_args)
      (login_announcement Little_Endian default_args) 15 0 empty_store"
    by (simp add: demo_master_def)
  have clk: "sv_clock_from (ms_sv demo_master) = (\<lambda>_. 0)"
    by (simp add: sv_clock_from_def demo_master_def server_at_def fun_eq_iff)
  have host: "a_advertise_host default_args = ''127.0.0.1''" by (simp add: default_args_def)
  have "pick_login Little_Endian demo_iter (\<lambda>_. 0) ?s =
      Some \<lparr>li_host = a_advertise_host default_args, li_port = kLoginPort\<rparr>"
  proof (rule announced_login_picked [OF demo_iteration, where t = 0 and t' = 0])
    show "live 0 ?s (login_registry_key default_args) = Some (login_announcement Little_Endian default_args)"
      unfolding s by (simp add: live_put ns_per_second_def)
    show "live 0 ?s key = Some v \<Longrightarrow> key = login_registry_key default_args" for key v
      unfolding s by (simp add: live_put ns_per_second_def split: if_splits)
  qed (simp_all add: s host)
  then show ?thesis by (simp only: clk host)
qed

lemma demo_master_time: "put_time (ms_sv demo_master) = 0"
  by (simp add: put_time_def demo_master_def server_at_def)

end
