(* ===== verification/Demo_Store.thy ===== *)
theory Demo_Store
  imports Store_Threads
begin

text \<open>
  Runs of the threads of the store by a schedule: which thread moves next, and the call it makes if
  it is outside. The concrete runs of the witnesses are such schedules.
\<close>

definition thread_move :: "nat \<Rightarrow> table_call \<Rightarrow> table_state \<Rightarrow> (table_event list \<times> table_state) option" where
  "thread_move i c s =
     (case tb_at s i of
        Away \<Rightarrow> Some ([Invoked i c], tb_goes i (At_Lock c) s)
      | At_Lock c' \<Rightarrow> if can_lock c' s then Some ([], tb_goes i (Locked c') (lock_table i c' s)) else None
      | Leaving c' r \<Rightarrow> Some ([Answered i r], tb_goes i Away (unlock_table i c' s))
      | Dangling \<Rightarrow> None
      | pc \<Rightarrow> (case run_body id (tb_now s) pc (tb_store s) of
           (pc', st', cms) \<Rightarrow> Some (map (Committed i) cms, tb_goes i pc' (s\<lparr>tb_store := st'\<rparr>))))"

fun run_schedule :: "(nat \<times> table_call) list \<Rightarrow> table_state \<Rightarrow> (table_event list \<times> table_state) option" where
  "run_schedule [] s = Some ([], s)"
| "run_schedule ((i, c) # sched) s =
     (case thread_move i c s of
        None \<Rightarrow> None
      | Some (evs, s1) \<Rightarrow>
          (case run_schedule sched s1 of None \<Rightarrow> None | Some (log, s2) \<Rightarrow> Some (evs @ log, s2)))"

lemma thread_move_step: "thread_move i c s = Some (evs, s') \<Longrightarrow> table_step s evs s'"
proof -
  assume move: "thread_move i c s = Some (evs, s')"
  show ?thesis
  proof (cases "in_body (tb_at s i)")
    case True
    obtain pc' st' cms where body: "run_body id (tb_now s) (tb_at s i) (tb_store s) = (pc', st', cms)"
      by (metis prod_cases3)
    have "evs = map (Committed i) cms \<and> s' = tb_goes i pc' (s\<lparr>tb_store := st'\<rparr>)"
      using move True body
      by (cases "tb_at s i") (auto simp: thread_move_def in_body_def simp del: run_body.simps)
    with table_step.run [OF refl True is_iteration_id body] show ?thesis by simp
  next
    case False
    with move show ?thesis
      by (cases "tb_at s i")
        (auto simp: thread_move_def in_body_def split: if_splits intro: table_step.intros)
  qed
qed

lemma run_schedule_run: "run_schedule sched s = Some (log, s') \<Longrightarrow> table_run s log s'"
proof (induction sched arbitrary: s log)
  case Nil
  then show ?case by (auto intro: table_run.here)
next
  case (Cons p sched)
  obtain i c where p: "p = (i, c)" by force
  from Cons.prems obtain evs s1 log1 where
    "thread_move i c s = Some (evs, s1)" "run_schedule sched s1 = Some (log1, s')" "log = evs @ log1"
    by (auto simp: p split: option.splits)
  with Cons.IH table_run_trans [OF _ table_step_run [OF thread_move_step]] show ?case by blast
qed

text \<open>Thread 0 puts a ticket. Then threads 1 and 2 take it together, and 3 lists meanwhile.\<close>

definition demo_put_ticket :: "(nat \<times> table_call) list" where
  "demo_put_ticket = replicate 5 (0, Do_Put ''k'' [7] 30)"

definition demo_race :: "(nat \<times> table_call) list" where
  "demo_race = demo_put_ticket @
     [(1, Do_Take ''k''), (2, Do_Take ''k''), (3, Do_List []), (3, Do_List []), (3, Do_List []),
      (3, Do_List []), (3, Do_List []), (3, Do_List []), (2, Do_Take ''k''), (2, Do_Take ''k''), (2, Do_Take ''k''),
      (2, Do_Take ''k''), (2, Do_Take ''k''), (2, Do_Take ''k''), (1, Do_Take ''k''), (1, Do_Take ''k'')]"

lemma demo_race_runs:
  obtains log s where "table_run (table_start 0) log s"
    "map cm_answer (commits log) =
       [Put_Answer, List_Answer [(''k'', [7])], Take_Answer (Some [7]), Take_Answer None]"
    "tb_at s 1 = Leaving (Do_Take ''k'') (Take_Answer None)"
    "length (filter (cm_puts ''k'') (commits log)) = 1" "length (filter (cm_took ''k'') (commits log)) = 1"
proof -
  have "\<exists>log s. run_schedule demo_race (table_start 0) = Some (log, s) \<and>
    map cm_answer (commits log) =
       [Put_Answer, List_Answer [(''k'', [7])], Take_Answer (Some [7]), Take_Answer None] \<and>
    tb_at s 1 = Leaving (Do_Take ''k'') (Take_Answer None) \<and>
    length (filter (cm_puts ''k'') (commits log)) = 1 \<and> length (filter (cm_took ''k'') (commits log)) = 1"
    by (simp add: demo_race_def demo_put_ticket_def numeral_eq_Suc thread_move_def table_start_def tb_goes_def can_lock_def
        lock_table_def unlock_table_def empty_store_def store_put_def committed_def is_expired_def
        ns_per_second_def key_has_prefix_def cm_puts_def cm_took_def)
  then show thesis by (elim exE conjE) (rule that, rule run_schedule_run)
qed

end
