(* ===== verification/Demo_Cluster.thy ===== *)
theory Demo_Cluster
  imports Demo Client_Sim Async_Refinement
begin

text \<open>
  The demonstration as a cluster: one Login that announced itself in the store of Master, one
  World, and a client that logs in. It shows that the conditions of the results on clusters and
  on the client can all hold together.
\<close>

section \<open>The cluster\<close>

definition demo_start :: "demo_db repo cluster" where
  "demo_start =
     \<lparr> cl_store = server_at 0 empty_store,
       cl_master = \<lparr>ms_sv = server_at 0 empty_store, ms_rand = (\<lambda>_. Some (replicate 16 9)), ms_draws = 0\<rparr>,
       cl_login = (\<lambda>_. demo_login),
       cl_world = (\<lambda>_. \<lparr>wd_world = server_at 0 empty_store, wd_sessions = Map.empty\<rparr>) \<rparr>"

definition demo_announced :: store_server where
  "demo_announced =
     sv_tick 1 (server_at 0 (store_put (login_registry_key default_args)
       (login_announcement Little_Endian default_args) heartbeat_ttl 0 empty_store))"

definition demo_cluster :: "demo_db repo cluster" where
  "demo_cluster = demo_start\<lparr>cl_store := demo_announced\<rparr>"

lemma demo_registry_entry:
  "length (login_registry_key default_args) = 29"
  "length (login_announcement Little_Endian default_args) = 13"
  by (simp_all add: login_registry_key_def login_announcement_def encode_login_info_def kLoginPrefix_def
      kLoginPort_def default_args_def writer_simps to_string_nat.simps [of 3726]
      to_string_nat.simps [of 372] to_string_nat.simps [of 37] to_string_nat.simps [of 3])

lemma demo_put_entry: "rpc_put_ok (login_registry_key default_args)
    (login_announcement Little_Endian default_args) heartbeat_ttl"
  by (simp add: rpc_put_ok_def demo_registry_entry heartbeat_ttl_def)

lemma demo_config_simps:
  "lc_endian demo_config = Little_Endian" "lc_openssl demo_config = demo_openssl"
  "lc_bn demo_config = demo_bn" "lc_store_key demo_config = []" "lc_session_ttl demo_config = 60"
  by (simp_all add: demo_config_def)

lemma demo_cluster_reachable: "cluster_reachable demo_config demo_iter 30 [] demo_cluster"
proof -
  have start: "cluster_reachable demo_config demo_iter 30 [] demo_start"
    by (rule cluster_reachable.start) (simp_all add: demo_start_def demo_login_def)
  have "client_put (lc_endian demo_config) (lc_openssl demo_config) (lc_store_key demo_config)
      (loopback (lc_endian demo_config) (lc_openssl demo_config) (lc_store_key demo_config) demo_iter)
      (login_registry_key default_args) (login_announcement (lc_endian demo_config) default_args)
      heartbeat_ttl (cl_store demo_start) = (Inr True, demo_announced)"
    using client_put_loopback [OF demo_crypto demo_put_entry, of Little_Endian "[]" demo_iter "cl_store demo_start"]
    by (simp add: demo_config_simps demo_start_def demo_announced_def)
      (simp add: server_at_def sv_now_def)
  from cluster_reachable.step [OF start cluster_step.login_beat [OF _ this]]
  show ?thesis by (simp add: demo_cluster_def default_args_def)
qed

section \<open>The client of the demonstration\<close>

definition demo_deployed :: "demo_db repo deployed" where
  "demo_deployed =
     \<lparr> dp_cluster = demo_cluster, dp_inbox = (\<lambda>_. []), dp_conn = (\<lambda>_. fresh_conn) \<rparr>"

definition demo_net :: "(string \<times> string, demo_db repo deployed) sim_net" where
  "demo_net = deployment demo_config demo_iter 30 0 (0, 1) (''master'', to_string_nat 3724)
     (''127.0.0.1'', to_string_nat (unat kLoginPort))"

lemma demo_sv:
  "sv_store demo_announced = store_put (login_registry_key default_args)
     (login_announcement Little_Endian default_args) heartbeat_ttl 0 empty_store"
  "sv_clock demo_announced = (\<lambda>_. 0)" "sv_now demo_announced = 0"
  by (simp_all add: demo_announced_def server_at_def sv_now_def)

abbreviation demo_sv1 :: store_server where
  "demo_sv1 \<equiv> after_ticket (replicate 16 9) 30 demo_announced"

abbreviation demo_sv2 :: store_server where
  "demo_sv2 \<equiv> after_take (to_hex (replicate 16 9)) demo_sv1"

lemma demo_clocks:
  "sv_clock demo_sv1 = (\<lambda>_. 0)" "sv_now demo_sv1 = 0" "put_time demo_announced = 0"
  "sv_clock demo_sv2 = (\<lambda>_. 0)" "sv_now demo_sv2 = 0"
  by (simp_all add: after_ticket_def after_take_def demo_sv put_time_def sv_now_def)

lemma demo_sv2_live:
  "live 0 (sv_store demo_sv2) key = Some v \<Longrightarrow> key = login_registry_key default_args"
  by (simp add: after_take_def demo_clocks live_take)
    (simp add: after_ticket_def demo_sv live_put split: if_splits)

lemma demo_pick:
  "pick_login Little_Endian demo_iter (sv_clock_from demo_announced) (sv_store demo_announced) =
     Some \<lparr>li_host = ''127.0.0.1'', li_port = kLoginPort\<rparr>"
proof -
  have "sv_clock_from demo_announced = sv_clock_from (ms_sv demo_master)"
    by (simp add: sv_clock_from_def demo_sv demo_master_def server_at_def fun_eq_iff)
  moreover have "sv_store demo_announced = sv_store (ms_sv demo_master)"
    by (simp add: demo_sv demo_master_def heartbeat_ttl_def)
  ultimately show ?thesis using demo_master_pick by simp
qed

lemma demo_worlds: "world_listing demo_iter (after_token demo_config (to_hex demo_rnd) user demo_sv2) = []"
proof -
  let ?sv = "after_token demo_config (to_hex demo_rnd) user demo_sv2"
  have "False" if "(key, v) \<in> set (world_listing demo_iter ?sv)" for key v
  proof -
    have "wf_store (sv_store ?sv)"
      by (simp add: after_token_def after_take_def after_ticket_def demo_sv)
    moreover have "sv_clock ?sv = (\<lambda>_. 0)" by (simp add: after_token_def demo_clocks)
    ultimately have "key_has_prefix kWorldPrefix key" "live 0 (sv_store ?sv) key = Some v"
      using list_prefix_sound [OF demo_iteration, of "sv_store ?sv" 0 "\<lambda>_. 0" key v kWorldPrefix] that
      by (simp_all add: world_listing_def)
    moreover from this have "key = login_registry_key default_args \<or> key = to_hex demo_rnd"
      using demo_sv2_live [of key v] by (auto simp: after_token_def live_put split: if_splits)
    ultimately show False
      using token_not_registry_key(2) by (auto simp: login_registry_key_def key_has_prefix_def
          kWorldPrefix_def kLoginPrefix_def)
  qed
  then show ?thesis by (metis list.set_intros(1) neq_Nil_conv surj_pair)
qed

lemma demo_sim_facts:
  "cl_store (dp_cluster demo_deployed) = demo_announced"
  "cl_login (dp_cluster demo_deployed) 0 = demo_login"
  "ms_rand (cl_master (dp_cluster demo_deployed)) (ms_draws (cl_master (dp_cluster demo_deployed))) =
     Some (replicate 16 9)"
  "0 < ns_per_second" "values_ok (sv_store demo_announced)" "length demo_salt < 65536"
  "session_at demo_login (0, 1) = new_login_session"
  "lg_bn_rand demo_login (lg_bn_draws demo_login) = Some 1"
  "lg_rand demo_login (lg_draws demo_login) = Some demo_rnd"
  "listing_fits []" "worlds_of Little_Endian [] = []"
  "length (encode_world_list Little_Endian []) \<le> 1048576"
  by (simp_all add: demo_deployed_def demo_cluster_def demo_start_def ns_per_second_def demo_salt_length
      session_at_def demo_rnd_def listing_fits_def list_fits_def list_bytes_def kMaxResponseBytes_def
      worlds_of_def body_world_list demo_sv values_ok_put rpc_value_ok_def demo_registry_entry)
    (simp_all add: demo_login_def values_ok_def all_values_put rpc_value_ok_def demo_registry_entry
      kMaxResponseBytes_def)

lemma demo_sim_run:
  "\<exists>s'. sim_run Little_Endian demo_openssl demo_bn (Some 1) demo_net ''master'' 3724 ''ann'' ''pw'' demo_deployed =
     (Ended (Listed (to_hex demo_rnd) []), s') \<and>
   live 0 (sv_store (cl_store (dp_cluster s'))) (to_hex demo_rnd) = Some (bytes_of ''ann'') \<and>
   sv_clock (cl_store (dp_cluster s')) = (\<lambda>_. 0)"
proof -
  obtain ch where ch: "server_begin demo_openssl demo_bn (Some 1) (reg_verifier demo_reg) = Inr ch"
    using server_begin_available [OF demo_bn_documented demo_available(2)] by blast
  obtain pr where pr: "client_respond demo_openssl demo_bn (Some 1) ''ann'' ''pw'' demo_salt (ch_B_bytes ch) = Inr pr"
    using demo_client [OF ch] by blast
  have u: "compute_u demo_openssl demo_bn (cp_A_bytes pr) (ch_B_bytes ch) \<noteq> Inr 0"
    using demo_digest_num_less(2) by (simp add: demo_compute(2))
  obtain r where find: "acc_find (lc_accounts demo_config) 0 ''ann'' (lg_accounts demo_login) =
     (Inr (Some \<lparr>ac_username = ''ann'', ac_salt = reg_salt demo_reg,
       ac_verifier = reg_verifier demo_reg\<rparr>), r)"
    using demo_find(1) by blast
  show ?thesis
    using sim_run_core [where C = demo_config and iter = demo_iter and s = demo_deployed and i = 0
        and sid = "(0, 1)" and rnd = "replicate 16 9" and ttl = 30 and li = "\<lparr>li_host = ''127.0.0.1'', li_port = kLoginPort\<rparr>"
        and ma = "(''master'', to_string_nat 3724)" and la = "(''127.0.0.1'', to_string_nat (unat kLoginPort))"
        and host = "''master''" and port = 3724 and user = "''ann''" and pw = "''pw''" and salt = demo_salt
        and reg = demo_reg and r = r and ch = ch and ra = "Some 1" and pr = pr and ?rnd2.0 = demo_rnd
        and ws = "[]" and t = 0 and sv = demo_announced and h = demo_login and ?sv1.0 = demo_sv1 and ?sv2.0 = demo_sv2]
      demo_connected demo_bn_documented demo_available(2) demo_pick demo_clocks demo_reg_is ch pr u find
      demo_put_ok demo_rnd_length demo_worlds demo_sim_facts demo_sv
    by (simp add: demo_config_simps demo_net_def)
qed


lemma deployment_worlds:
  "net_keeps (\<lambda>s. cl_world (dp_cluster s) = w) (deployment C iter ttl i sid ma la)"
  by (auto simp: net_keeps_def deployment_def dp_connect_def dp_read_def dp_write_def Let_def
      master_back_def login_back_def split: sim_socket.split option.split prod.split)

text \<open>After the client's run, its token opens World.\<close>

lemma demo_world_entered:
  obtains log s where "cluster_reachable demo_config demo_iter 30 log s"
    "authenticated_as (cl_world s 0) (0, 1) ''ann''"
proof -
  obtain s' where run: "sim_run Little_Endian demo_openssl demo_bn (Some 1) demo_net ''master'' 3724
      ''ann'' ''pw'' demo_deployed = (Ended (Listed (to_hex demo_rnd) []), s')"
    and token: "live 0 (sv_store (cl_store (dp_cluster s'))) (to_hex demo_rnd) = Some (bytes_of ''ann'')"
    and clk: "sv_clock (cl_store (dp_cluster s')) = (\<lambda>_. 0)"
    using demo_sim_run by blast
  let ?c = "dp_cluster s'"
  have "\<exists>log. cluster_reachable demo_config demo_iter 30 log (dp_cluster demo_deployed)"
    using demo_cluster_reachable by (auto simp: demo_deployed_def)
  with sim_run_keeps [OF deployment_reachable] run obtain log where
    log: "cluster_reachable demo_config demo_iter 30 log ?c"
    unfolding keeps_def demo_net_def by (metis snd_conv)
  have worlds: "cl_world ?c = cl_world demo_cluster"
    using sim_run_keeps [OF deployment_worlds] run
    unfolding keeps_def demo_net_def by (metis snd_conv demo_deployed_def deployed.simps(1))
  then have fresh: "unauthenticated (world_view ?c 0) (0, 1)"
    by (simp add: unauthenticated_def authenticated_as_def demo_cluster_def demo_start_def world_view_def)
  obtain ex h c' where step: "world_at Little_Endian demo_openssl [] demo_iter (0, 1)
      (bytes_of (to_hex demo_rnd)) (world_view ?c 0) fresh_conn = (ex, h, c')" by (metis prod_cases3)
  have "rpc_key_ok (to_hex demo_rnd)" by (simp add: rpc_key_ok_def length_to_hex demo_rnd_length)
  moreover have "values_ok (sv_store (cl_store ?c))"
    using cluster_inv_values_ok [OF cluster_reachable_inv [OF demo_connected demo_iteration log]] .
  ultimately have "authenticated_as h (0, 1) ''ann''"
    using token_opens_world_core [OF demo_crypto _ _ fresh _ step] token clk
    by (simp add: sv_now_def)
  moreover have "cluster_step demo_config demo_iter 30 ?c [] (world_back 0 h ?c)"
    by (rule cluster_step.to_world [where p = "bytes_of (to_hex demo_rnd)"])
      (use step in \<open>simp_all add: demo_config_simps length_to_hex demo_rnd_length\<close>)
  from cluster_reachable.step [OF log this] have
    "cluster_reachable demo_config demo_iter 30 log (world_back 0 h ?c)" by simp
  ultimately show thesis
    by (intro that [of log "world_back 0 h ?c"]) (simp_all add: world_back_def)
qed

text \<open>The same for handlers that wait.\<close>

lemma demo_async_entered:
  obtains log s where "async_reachable demo_config demo_iter 30 log s"
    "authenticated_as (cl_world (as_cluster s) 0) (0, 1) ''ann''"
proof -
  obtain log c where "cluster_reachable demo_config demo_iter 30 log c"
      "authenticated_as (cl_world c 0) (0, 1) ''ann''"
    by (rule demo_world_entered)
  with cluster_refines_core [OF demo_connected] that show thesis by blast
qed

text \<open>A hello to the Login of the demonstration waits for its ticket.\<close>

lemma demo_hello_begins:
  assumes "login_begin demo_config (0, 1) (encode_client_hello Little_Endian demo_ticket ''ann'')
    (login_view (as_cluster (idle demo_start)) 0) fresh_conn = seg"
  shows "\<exists>h c. seg = Awaits (Take_Call demo_ticket) (After_Take ''ann'') h c"
proof -
  let ?m = "MHello demo_ticket ''ann''"
  have dec: "login_decode Little_Endian (encode_client_hello Little_Endian demo_ticket ''ann'') =
      Some (decoded_login_msg ?m)"
    using login_decode_encode [of ?m Little_Endian "[]"] by (simp add: demo_ticket_def)
  have "ls_stage (session_at (login_view (as_cluster (idle demo_start)) 0) (0, 1)) = AwaitingHello"
    by (simp add: idle_def demo_start_def demo_facts(5) new_login_session_def)
  with assms show ?thesis
    by (auto simp: login_begin_def demo_config_simps dec Let_def login_decoded_init_def)
qed

lemma demo_hello_length: "length (encode_client_hello Little_Endian demo_ticket ''ann'') = 15"
  by (simp add: encode_client_hello_def demo_ticket_def writer_simps)

text \<open>An announcement is longer than a user name of three letters.\<close>

lemma announcements_long:
  "length (login_announcement e a) \<ge> 4" "length (world_announcement e a n) \<ge> 4"
  by (simp_all add: login_announcement_def encode_login_info_def world_announcement_def
      encode_world_info_def writer_simps)

lemma ann_no_announcement:
  "''ann'' \<noteq> string_of (login_announcement e a)" "''ann'' \<noteq> string_of (world_announcement e a n)"
proof -
  have "''ann'' \<noteq> string_of bs" if "length bs \<ge> 4" for bs
  proof
    assume "''ann'' = string_of bs"
    then have "bs = bytes_of ''ann''" by simp
    with that show False by simp
  qed
  then show "''ann'' \<noteq> string_of (login_announcement e a)" "''ann'' \<noteq> string_of (world_announcement e a n)"
    using announcements_long by blast+
qed

end
