(* ===== verification/Demo_Process.thy ===== *)
theory Demo_Process
  imports Demo Shutdown
begin

text \<open>
  An operating system that shares ports as documented, and a Login process on it, with one client
  connected; a Master that returns after a signal; and a server with one session, before and after
  a stop. They show that the conditions of the results on servers and processes can hold.
\<close>

section \<open>Sockets in a list\<close>

type_synonym demo_os = "(nat \<times> u16) list \<times> (nat \<Rightarrow> bool)"

definition demo_api :: "demo_os os_api" where
  "demo_api =
     \<lparr> make_address = (\<lambda>_. Inr ()),
       os_open = (\<lambda>(b, f). let s = Suc (foldr max (map fst b) 0) in (Inr s, (b, f(s := False)))),
       os_set_option = (\<lambda>s opt (b, f). case opt of
           Reuse_Port v \<Rightarrow> (True, (b, f(s := (v \<noteq> 0)))) | Reuse_Address _ \<Rightarrow> (True, (b, f))),
       os_bind = (\<lambda>s addr p (b, f).
           if \<forall>(s', p') \<in> set b. p' = p \<longrightarrow> f s' \<and> f s then (Inr (), ((s, p) # b, f))
           else (Inl (Runtime_Error ''bind''), (b, f))),
       os_listen = (\<lambda>s w. (Inr (), w)) \<rparr>"

definition demo_platform :: "demo_os platform" where
  "demo_platform = \<lparr>pf_api = demo_api, pf_reuseport = True, pf_cores = 4\<rparr>"

lemma foldr_max_fresh: "x \<in> set xs \<Longrightarrow> x \<le> foldr max xs (0 :: nat)"
  by (induction xs) auto

lemma demo_sharing: "sharing_os demo_api (\<lambda>_ _. True) (\<lambda>(b, f). set b) snd"
proof -
  have fresh: "Suc (foldr max (map fst b) 0) \<notin> fst ` set b" for b :: "(nat \<times> u16) list"
    using foldr_max_fresh [of _ "map fst b"] by (metis Suc_n_not_le_n list.set_map)
  then show ?thesis
    by (simp add: sharing_os_def demo_api_def Let_def split: sock_option.split) fastforce
qed

definition demo_argv :: "string list" where
  "demo_argv = [''--role=login'']"

definition demo_env :: "string option" where
  "demo_env = Some (to_hex (replicate 32 7))"

lemma demo_main:
  "parse_args demo_argv = Inr (Some (default_args\<lparr>a_role := ''login''\<rparr>))"
  "parse_args [''--role=master''] = Inr (Some (default_args\<lparr>a_role := ''master''\<rparr>))"
  "load_hmac_secret demo_env = Inr (Some (replicate 32 7))"
  "\<exists>r. new_repo demo_sqlite 0 p ([], False) = (Inr (), r)"
  "make_address demo_api addr = Inr ()"
  using load_secret_core [of "replicate 32 7"]
  by (simp_all add: demo_argv_def demo_env_def parse_args_def parse_arg_def value_after_def default_args_def
      new_repo_def connection_def repo_open_def repo_exec_def demo_sqlite_simps demo_api_def)

lemma demo_platform_simps [simp]:
  "pf_api demo_platform = demo_api" "pf_reuseport demo_platform" "pf_cores demo_platform = 4"
  by (simp_all add: demo_platform_def)

lemma demo_no_sockets: "ports_share (\<lambda>(b, f). set b) snd P ([], \<lambda>_. False)"
  by (simp add: ports_share_def)

section \<open>A Login with a waiting session\<close>

lemma demo_login_process:
  obtains p w' sc ts where "main_start Little_Endian demo_platform demo_sqlite ([], False) demo_argv demo_env
      ([], \<lambda>_. False) = (Serving p, w')"
    "pr_services p = [(sc, ts)]" "endpoint sc = (By_Login, Tcp_Protocol, kLoginPort, ''0.0.0.0'')"
    "service_up 4 (sc, ts)"
proof -
  obtain r where "new_repo demo_sqlite 0 ''accounts.db'' ([], False) = (Inr (), r)" using demo_main(4) by blast
  with main_start_core [of demo_platform "\<lambda>_ _. True" "\<lambda>(b, f). set b" snd "default_args\<lparr>a_role := ''login''\<rparr>"
      "([], \<lambda>_. False)" demo_argv demo_env "replicate 32 7" demo_sqlite "([], False)" r Little_Endian]
  obtain p w' where p: "main_start Little_Endian demo_platform demo_sqlite ([], False) demo_argv demo_env
      ([], \<lambda>_. False) = (Serving p, w')"
    "map (endpoint \<circ> fst) (pr_services p) = role_endpoints (default_args\<lparr>a_role := ''login''\<rparr>)"
    "\<forall>sv \<in> set (pr_services p). service_up 4 sv"
    using demo_sharing demo_no_sockets demo_main by (auto simp: default_args_def)
  then obtain sc ts where "pr_services p = [(sc, ts)]"
      "endpoint sc = (By_Login, Tcp_Protocol, kLoginPort, ''0.0.0.0'')"
    by (auto simp: role_endpoints_def default_args_def)
  with p show thesis by (intro that [of p w' sc ts]) auto
qed

definition keeps_acceptors :: "server \<Rightarrow> server \<Rightarrow> bool" where
  "keeps_acceptors s s' \<longleftrightarrow> (\<forall>i. acceptor_open (workers s' i) = acceptor_open (workers s i) \<and>
     waiting (workers s' i) = waiting (workers s i))"

text \<open>The first connection of a server becomes its session 7.\<close>

lemma demo_first_session:
  assumes n: "0 < n" and w0: "workers s0 0 = new_worker True" and "active_connections s0 = 0"
  obtains s1 s2 s3 where "server_step role n s0 s1" "server_step role n s1 s2" "server_step role n s2 s3"
    "keeps_acceptors s0 s1" "keeps_acceptors s1 s2" "keeps_acceptors s2 s3" "7 \<in> registry (workers s3 0)"
    "w_pc (workers s3 0) = Idle"
proof -
  define s1 where "s1 = set_worker 0 ((workers s0 0)\<lparr>accept_ready := True\<rparr>) s0"
  define s2 where "s2 = set_worker 0 ((workers s1 0)\<lparr>accept_ready := False, w_pc := Admitting 7\<rparr>) s1"
  define s3 where "s3 = set_worker 0 (registry_add 7 ((workers s2 0)\<lparr>w_pc := Idle\<rparr>)) (on_connection_opened s2)"
  have "server_step role n s0 s1"
    unfolding s1_def by (rule server_step.arrive [OF n refl]) (simp_all add: w0 new_worker_def)
  moreover have "0 < max_connections role" by (cases role) simp_all
  then have "server_step role n s1 s2"
    unfolding s2_def
    by (intro server_step.admit [OF n refl])
      (simp_all add: s1_def w0 new_worker_def admits_def assms(3))
  moreover have "server_step role n s2 s3"
    unfolding s3_def by (rule server_step.opened [OF n refl]) (simp add: s2_def)
  moreover have "keeps_acceptors s0 s1" "keeps_acceptors s1 s2" "keeps_acceptors s2 s3" "7 \<in> registry (workers s3 0)"
      "w_pc (workers s3 0) = Idle"
    by (simp_all add: s1_def s2_def s3_def registry_add_def keeps_acceptors_def)
  ultimately show thesis by (rule that)
qed

lemma demo_waiting:
  obtains p w' r where "main_start Little_Endian demo_platform demo_sqlite ([], False) demo_argv demo_env
      ([], \<lambda>_. False) = (Serving p, w')"
    "process_reachable p r" "rn_phase r = Joining 0" "rn_waiting r = {(0, 0, 7)}"
proof -
  obtain p w' sc ts where p: "main_start Little_Endian demo_platform demo_sqlite ([], False) demo_argv demo_env
      ([], \<lambda>_. False) = (Serving p, w')" "pr_services p = [(sc, ts)]"
    "endpoint sc = (By_Login, Tcp_Protocol, kLoginPort, ''0.0.0.0'')" "service_up 4 (sc, ts)"
    by (rule demo_login_process)
  have n: "0 < length ts" using p(4) thread_count_pos by (simp add: service_up_def)
  then have "serves Tcp_Protocol (snd (ts ! 0))" using p(3,4) nth_mem [OF n] by (auto simp: service_up_def endpoint_def)
  then obtain s where t0: "snd (ts ! 0) = Listening s (new_worker True)"
    by (cases "snd (ts ! 0)") auto
  define s0 where "s0 = initial_server ts"
  have "workers s0 0 = new_worker True" "active_connections s0 = 0"
    using n t0 by (simp_all add: s0_def initial_server_def)
  then obtain s1 s2 s3 where steps: "server_step (sc_role sc) (length ts) s0 s1"
      "server_step (sc_role sc) (length ts) s1 s2" "server_step (sc_role sc) (length ts) s2 s3"
    and same: "keeps_acceptors s0 s1" "keeps_acceptors s1 s2" "keeps_acceptors s2 s3"
    and open': "7 \<in> registry (workers s3 0)" "w_pc (workers s3 0) = Idle"
    by (rule demo_first_session [OF n])
  define r where "r s ph = \<lparr>rn_phase = ph, rn_servers = (rn_servers (launched p))(0 := s),
      rn_receiving = rn_receiving (launched p)\<rparr>" for s ph
  have l0: "rn_servers (launched p) 0 = s0" by (simp add: launched_def p(2) s0_def)
  have none: "waiting (workers (rn_servers (launched p) k) i) = {}" for k i
    using launched_none_waits [OF p(1)] by (auto simp: rn_waiting_def)
  have "r s0 Handling = launched p" by (simp add: r_def l0 [symmetric]) (simp add: launched_def)
  then have 0: "process_reachable p (r s0 Handling)" by (simp add: process_reachable.start)
  have serve: "process_reachable p (r s Handling) \<Longrightarrow> server_step (sc_role sc) (length ts) s s' \<Longrightarrow>
      keeps_acceptors s s' \<Longrightarrow> process_reachable p (r s' Handling)" for s s'
    using process_reachable.more [of p "r s Handling" "r s' Handling"]
      process_step.serve [of 0 "pr_services p" "r s Handling" s']
    by (simp add: p(2) r_def keeps_acceptors_def)
  have "process_reachable p (r s3 Handling)"
    using serve [OF serve [OF serve [OF 0 steps(1) same(1)] steps(2) same(2)] steps(3) same(3)] .
  moreover define s4 where "s4 = set_worker 0 ((workers s3 0)\<lparr>waiting := insert 7 (waiting (workers s3 0))\<rparr>) s3"
  have "process_step (pr_services p) (r s3 Handling) (r s4 Handling)"
    using process_step.ask [of 0 "pr_services p" 0 "workers s3 0" "r s3 Handling" 7] n p(3) open'
    by (simp add: p(2) r_def s4_def endpoint_def)
  moreover have "process_step (pr_services p) (r s4 Handling) (r s4 (Joining 0))"
    using process_step.signal [of "r s4 Handling" "pr_services p"] by (simp add: r_def)
  ultimately have "process_reachable p (r s4 (Joining 0))" by (meson process_reachable.more)
  moreover have w: "waiting (workers s3 i) = {}" for i
    using none [of 0 i] same by (simp add: l0 keeps_acceptors_def)
  have "rn_waiting (r s4 (Joining 0)) = {(0, 0, 7)}"
    using none by (auto simp: rn_waiting_def r_def s4_def w split: if_splits)
  ultimately show thesis using p(1) by (intro that [of p w' "r s4 (Joining 0)"]) (simp_all add: r_def)
qed

section \<open>A Master that returns\<close>

lemma demo_master_joining:
  obtains p w' r where "main_start Little_Endian demo_platform demo_sqlite ([], False) [''--role=master''] demo_env
      ([], \<lambda>_. False) = (Serving p, w')"
    "process_reachable p r" "rn_phase r = Joining 0" "pr_services p \<noteq> []"
proof -
  obtain r where "new_repo demo_sqlite 0 ''accounts.db'' ([], False) = (Inr (), r)" using demo_main(4) by blast
  with main_start_core [of demo_platform "\<lambda>_ _. True" "\<lambda>(b, f). set b" snd "default_args\<lparr>a_role := ''master''\<rparr>"
      "([], \<lambda>_. False)" "[''--role=master'']" demo_env "replicate 32 7" demo_sqlite "([], False)" r Little_Endian]
  obtain p w' where p: "main_start Little_Endian demo_platform demo_sqlite ([], False) [''--role=master''] demo_env
      ([], \<lambda>_. False) = (Serving p, w')"
    "map (endpoint \<circ> fst) (pr_services p) = role_endpoints (default_args\<lparr>a_role := ''master''\<rparr>)"
    using demo_sharing demo_no_sockets demo_main by (auto simp: default_args_def)
  have "process_reachable p ((launched p)\<lparr>rn_phase := Joining 0\<rparr>)"
    by (rule process_reachable.more [OF process_reachable.start process_step.signal]) (simp add: launched_def)
  with p show thesis
    by (intro that [of p w' "(launched p)\<lparr>rn_phase := Joining 0\<rparr>"]) (auto simp: role_endpoints_def)
qed

lemma process_reachable_steps:
  "(process_step (pr_services p))\<^sup>*\<^sup>* r r' \<Longrightarrow> process_reachable p r \<Longrightarrow> process_reachable p r'"
  by (induction rule: rtranclp_induct) (auto intro: process_reachable.more)

lemma demo_master_returned:
  obtains p w' r where "main_start Little_Endian demo_platform demo_sqlite ([], False) [''--role=master''] demo_env
      ([], \<lambda>_. False) = (Serving p, w')"
    "process_reachable p r" "rn_phase r = Returned" "pr_services p \<noteq> []"
proof -
  obtain p w' r where run: "main_start Little_Endian demo_platform demo_sqlite ([], False) [''--role=master''] demo_env
      ([], \<lambda>_. False) = (Serving p, w')" "process_reachable p r" "rn_phase r = Joining 0" "pr_services p \<noteq> []"
    by (rule demo_master_joining)
  have "a_role (default_args\<lparr>a_role := ''master''\<rparr>) = ''master''" "rn_phase r \<noteq> Handling"
    using run(3) by simp_all
  from master_returns_core [OF run(1) demo_main(2) this(1) run(2) this(2)] obtain r' where
    "(process_step (pr_services p))\<^sup>*\<^sup>* r r'" "rn_phase r' = Returned" by blast
  with process_reachable_steps [OF this(1) run(2)] run(1,4) show thesis by (intro that)
qed


section \<open>A server with one session\<close>

text \<open>The server of one thread before, and after it has admitted its session 7.\<close>

definition demo_server :: server where
  "demo_server = \<lparr>active_connections = 0, workers = (\<lambda>_. new_worker True)\<rparr>"

definition demo_session_server :: server where
  "demo_session_server = \<lparr>active_connections = 1,
     workers = (\<lambda>_. new_worker True)(0 := (new_worker True)\<lparr>registry := {7}, open_sessions := {7}\<rparr>)\<rparr>"

lemma demo_session_reachable: "server_reachable role 1 demo_session_server"
proof -
  let ?s1 = "set_worker 0 ((workers demo_server 0)\<lparr>accept_ready := True\<rparr>) demo_server"
  let ?s2 = "set_worker 0 ((workers ?s1 0)\<lparr>accept_ready := False, w_pc := Admitting 7\<rparr>) ?s1"
  let ?s3 = "set_worker 0 (registry_add 7 ((workers ?s2 0)\<lparr>w_pc := Idle\<rparr>)) (on_connection_opened ?s2)"
  have max: "0 < max_connections role" by (cases role) simp_all
  have "server_reachable role 1 demo_server"
    by (rule server_reachable.start [where bound = "\<lambda>_. True"]) (simp_all add: demo_server_def)
  moreover have "server_step role 1 demo_server ?s1"
    by (rule server_step.arrive) (simp_all add: demo_server_def new_worker_def)
  moreover have "server_step role 1 ?s1 ?s2"
    by (rule server_step.admit) (use max in \<open>simp_all add: demo_server_def new_worker_def admits_def\<close>)
  moreover have "server_step role 1 ?s2 ?s3" by (rule server_step.opened) simp_all
  ultimately have "server_reachable role 1 ?s3" by (meson server_reachable.more)
  moreover have "?s3 = demo_session_server"
    by (simp add: demo_session_server_def demo_server_def set_worker_def on_connection_opened_def
        registry_add_def new_worker_def fun_eq_iff)
  ultimately show ?thesis by simp
qed

text \<open>The close of a stop, then the end of the accept loop and of the session.\<close>

definition demo_stopped :: server where
  "demo_stopped = set_worker 0 (stop_worker (workers demo_session_server 0)) demo_session_server"

lemma demo_stopped_run:
  obtains s' where "server_reachable role 1 demo_stopped" "quiesced (workers demo_stopped 0)"
    "stop_run role 1 demo_stopped 3 s'" "total work_left 1 demo_stopped = 3"
    "waiting (workers s' 0) = {}" "w_pc (workers s' 0) = Idle"
proof -
  let ?s1 = "set_worker 0 ((workers demo_stopped 0)\<lparr>accept_loop_runs := False\<rparr>) demo_stopped"
  let ?s2 = "set_worker 0 (registry_remove 7 ((workers ?s1 0)\<lparr>w_pc := Closing\<rparr>)) ?s1"
  let ?s3 = "set_worker 0 ((workers ?s2 0)\<lparr>w_pc := Idle\<rparr>) (fst (on_connection_closed ?s2))"
  have w: "workers demo_stopped 0 = (new_worker True)\<lparr>acceptor_open := False, registry := {7}\<rparr>"
    by (simp add: demo_stopped_def demo_session_server_def stop_worker_def registry_close_all_def new_worker_def)
  have "server_step role 1 demo_session_server demo_stopped"
    unfolding demo_stopped_def by (rule server_step.stop [OF _ refl]) (simp_all add: demo_session_server_def new_worker_def)
  then have r: "server_reachable role 1 demo_stopped" by (rule server_reachable.more [OF demo_session_reachable])
  have "server_step role 1 demo_stopped ?s1" by (rule server_step.accept_fails) (simp_all add: w new_worker_def)
  moreover have "accept_loop_runs (workers (without_waits ?s1) 0) \<noteq> accept_loop_runs (workers (without_waits demo_stopped) 0)"
    by (simp add: without_waits_def w new_worker_def)
  ultimately have 1: "busy_step role 1 demo_stopped ?s1" unfolding busy_step_def by metis
  have "server_step role 1 ?s1 ?s2" by (rule server_step.finished) (simp_all add: w new_worker_def)
  moreover have "w_pc (workers (without_waits ?s2) 0) \<noteq> w_pc (workers (without_waits ?s1) 0)"
    by (simp add: without_waits_def w new_worker_def registry_remove_def)
  ultimately have 2: "busy_step role 1 ?s1 ?s2" unfolding busy_step_def by metis
  have "server_step role 1 ?s2 ?s3" by (rule server_step.closed) (simp_all add: w new_worker_def registry_remove_def)
  moreover have "w_pc (workers (without_waits ?s3) 0) \<noteq> w_pc (workers (without_waits ?s2) 0)"
    by (simp add: without_waits_def w new_worker_def registry_remove_def)
  ultimately have 3: "busy_step role 1 ?s2 ?s3" unfolding busy_step_def by metis
  have run: "stop_run role 1 demo_stopped 3 ?s3"
    using stop_run.busy [OF stop_run.busy [OF stop_run.busy [OF stop_run.none 1] 2] 3] by (simp add: eval_nat_numeral)
  show thesis
    by (rule that [OF r _ run]) (simp_all add: w quiesced_def total_def work_left_def new_worker_def registry_remove_def)
qed

end
