(* ===== verification/Findings.thy ===== *)
theory Findings
  imports Demo Shutdown
begin

text \<open>
  Behaviours of the code that differ from what its comments or its purpose say, each as a
  theorem about the model: what World takes for a session token, the replay of a signed request,
  calls that may throw, an echo that ends its connection, an account hidden by a locked database,
  the races of admission and of the stop, the wait without a deadline, a server that listens
  nowhere, a registry entry that hides the others, and the leniencies of the command line.
\<close>

section \<open>Tokens\<close>

text \<open>
  World asks only that the key exists: the ticket that Master hands to anyone (an entry with an
  empty value) authenticates a connection, under the empty username, without any login.
\<close>

lemma master_ticket_opens_world:
  assumes "crypto_ok E hk" and "rpc_key_ok ticket" and "values_ok (sv_store (wd_world h))"
    and "unauthenticated h sid"
    and "live (sv_now (wd_world h)) (sv_store (wd_world h)) ticket = Some []"
    and "world_at e E hk iter sid (bytes_of ticket) h c = (ex, h', c')"
  shows "authenticated_as h' sid ''''"
  using token_opens_world_core [of E hk ticket h sid "''''" e iter c ex h' c'] assms by simp

text \<open>
  Also the keys of the registry are keys of the store, and anyone can compute them from the address
  of a Login: such a key authenticates a connection of World under the bytes of the announcement,
  and takes the announcement away until the next heartbeat.
\<close>

lemma registry_key_opens_world:
  assumes "crypto_ok E hk" and "rpc_key_ok (login_registry_key a)" and "values_ok (sv_store (wd_world h))"
    and "unauthenticated h sid"
    and "live (sv_now (wd_world h)) (sv_store (wd_world h)) (login_registry_key a) = Some (login_announcement e' a)"
    and "world_at e E hk iter sid (bytes_of (login_registry_key a)) h c = (ex, h', c')"
    and "sv_now (wd_world h) \<le> t"
  shows "authenticated_as h' sid (string_of (login_announcement e' a)) \<and>
    live t (sv_store (wd_world h')) (login_registry_key a) = None"
  using world_at_first [OF assms(1) _ assms(4,6)] assms(2,3,5,7) by (simp add: token_ok_def live_take)

text \<open>
  A signed request says nothing about when it was made: the server accepts the same \<open>Put\<close>
  again after the token it put was taken, and the token is live again.
\<close>

lemma put_replayed:
  assumes "crypto_ok E hk" and "rpc_put_ok key v ttl" and "0 < ttl"
    and "encode_put e E hk key v (word_of_int ttl) = Inr req"
    and "live (sv_now sv) (sv_store sv) key = None"
  shows "\<exists>sv' c'. store_on_message e E hk iter req sv fresh_conn = (None, sv', c') \<and>
    live (sv_now sv) (sv_store sv') key = Some v"
proof -
  have doc: "openssl_documented E" and av: "hmac_available E hk"
    using assms(1) by (simp_all add: crypto_ok_def)
  obtain resp where resp: "encode_ok e E hk = Inr resp"
    using encoders_available(3) [OF av] by blast
  have ttl: "uint (word_of_int ttl :: u32) = ttl"
    using assms(2) by (simp add: rpc_put_ok_def uint_word_of_int)
  show ?thesis
    using put_roundtrip [OF doc assms(4)] assms(2,3)
    by (simp add: store_on_message_def rpc_put_ok_def resp reply_with_def ttl decoded_init_def
        live_put ns_per_second_def)
qed

text \<open>A call of the store client ends with an exception where the MAC is unavailable.\<close>

lemma roundtrip_may_throw:
  assumes "\<not> EVP_MAC_fetch E"
  shows "fst (client_take e E hk net key w) = Inl (Runtime_Error ''HMAC: EVP_MAC_fetch a echoue'')"
  using assms
  by (simp add: client_take_def get_or_take_def encode_get_or_take_def sign_and_take_def hmac_sha256_def
      Let_def)

section \<open>An empty echo\<close>

text \<open>A movement without a body is answered by a frame that \<open>read_frame\<close> rejects.\<close>

lemma empty_move_breaks_framing:
  assumes "quiet c"
  shows "dispatch build_handlers (call_player_fn e) CPLAYER_MOVE [] c = c\<lparr>sent := sent c @ frame e []\<rparr> \<and>
    read_frame e m (frame e [] @ rest) = None"
  using assms by (simp add: player_dispatch quiet_send read_frame_empty_message)

section \<open>Accounts\<close>

text \<open>A locked database makes \<open>find\<close> report that an account does not exist.\<close>

lemma locked_database_hides_account:
  "\<exists>r. repo_find demo_sqlite 0 ''ann'' \<lparr>db_path = [], rp_db = ([(''ann'', s, v)], True), rp_open = {0}\<rparr>
     = (Inr None, r)"
  by (simp add: repo_find_def connection_def demo_sqlite_simps)

section \<open>Threads\<close>

text \<open>
  Two threads that both pass the test at one below the maximum: the counter ends one above it.
\<close>

lemma over_admission:
  assumes "i < n" "j < n" "i \<noteq> j" and "active_connections s + 1 = max_connections role"
    and "w_pc (workers s i) = Idle" "accept_ready (workers s i)"
    and "w_pc (workers s j) = Idle" "accept_ready (workers s j)"
    and "sid \<notin> registry (workers s i)" "sid \<notin> registry (workers s j)"
  shows "\<exists>s'. (server_step role n)\<^sup>*\<^sup>* s s' \<and> active_connections s' = max_connections role + 1"
proof -
  let ?adm = "\<lambda>w. w\<lparr>accept_ready := False, w_pc := Admitting sid\<rparr>"
  let ?opn = "\<lambda>w. registry_add sid (w\<lparr>w_pc := Idle\<rparr>)"
  let ?s1 = "set_worker i (?adm (workers s i)) s"
  let ?s2 = "set_worker j (?adm (workers ?s1 j)) ?s1"
  let ?s3 = "set_worker i (?opn (workers ?s2 i)) (on_connection_opened ?s2)"
  let ?s4 = "set_worker j (?opn (workers ?s3 j)) (on_connection_opened ?s3)"
  have "server_step role n s ?s1"
    using assms by (intro server_step.admit) (auto simp: admits_def)
  moreover have "server_step role n ?s1 ?s2"
    using assms by (intro server_step.admit) (auto simp: admits_def)
  moreover have "server_step role n ?s2 ?s3"
    using assms by (intro server_step.opened) auto
  moreover have "server_step role n ?s3 ?s4"
    using assms by (intro server_step.opened) auto
  ultimately have "(server_step role n)\<^sup>*\<^sup>* s ?s4"
    by (meson converse_rtranclp_into_rtranclp rtranclp.rtrancl_refl)
  moreover have "active_connections ?s4 = max_connections role + 1"
    using assms(4) by simp
  ultimately show ?thesis by blast
qed

text \<open>
  A connection whose accept had completed when the stop ran is admitted after it, and its session
  is open on a thread that has closed all sessions.
\<close>

lemma session_opened_after_stop:
  assumes "i < n" and "w_pc (workers s i) = Idle" "accept_ready (workers s i)"
    and "active_connections s < max_connections role" and "sid \<notin> registry (workers s i)"
  shows "\<exists>s'. (server_step role n)\<^sup>*\<^sup>* (set_worker i (stop_worker (workers s i)) s) s' \<and>
    sid \<in> open_sessions (workers s' i) \<and> \<not> acceptor_open (workers s' i)"
proof -
  let ?s0 = "set_worker i (stop_worker (workers s i)) s"
  let ?s1 = "set_worker i ((workers ?s0 i)\<lparr>accept_ready := False, w_pc := Admitting sid\<rparr>) ?s0"
  let ?s2 = "set_worker i (registry_add sid ((workers ?s1 i)\<lparr>w_pc := Idle\<rparr>)) (on_connection_opened ?s1)"
  have "server_step role n ?s0 ?s1"
    using assms
    by (intro server_step.admit) (auto simp: admits_def stop_worker_def registry_close_all_def)
  moreover have "server_step role n ?s1 ?s2"
    using assms by (intro server_step.opened) auto
  ultimately have "(server_step role n)\<^sup>*\<^sup>* ?s0 ?s2"
    by (meson converse_rtranclp_into_rtranclp rtranclp.rtrancl_refl)
  moreover have "sid \<in> open_sessions (workers ?s2 i) \<and> \<not> acceptor_open (workers ?s2 i)"
    by (simp add: registry_add_def stop_worker_def registry_close_all_def)
  ultimately show ?thesis by blast
qed

text \<open>A connection that stays open after the first look at the counter: no deadline ends the wait.\<close>

lemma wait_drained_blocks:
  "0 < k \<Longrightarrow> now < deadline \<Longrightarrow> wait_drained deadline [(k, now, False)] = Blocked"
  by simp

text \<open>
  An address that does not parse (and in the same way a port that is taken) ends only the loops of
  the server's threads: the process runs on, listens nowhere and announces itself in the registry.
\<close>

lemma start_loop_bad_address:
  assumes "make_address api addr = Inl ex"
  shows "start_loop api r cores proto addr port i k w = (map (\<lambda>j. (pin_to_core cores j, Failed ex)) [i..<i + k], w)"
  using assms
  by (induction k arbitrary: i)
    (simp_all add: run_worker_impl_def open_acceptor_def open_datagram_def upt_conv_Cons del: upt_Suc)

lemma bad_address_still_announced:
  assumes "load_hmac_secret env = Inr (Some key)" and "new_repo Q 0 (a_accounts_db a) db = (Inr (), r)"
    and "make_address (pf_api F) (a_bind_address a) = Inl ex"
  shows "\<exists>p. run_login e F Q db a env w = (Serving p, w) \<and>
    (\<forall>sv \<in> set (pr_services p). \<forall>t \<in> set (snd sv). snd t = Failed ex) \<and>
    pr_background p = Heartbeat (login_registry_key a) (\<lambda>_. login_announcement e a)"
  using assms(1,2) start_loop_bad_address [OF assms(3)]
  by (simp add: run_login_def start_service_def start_server_def)

text \<open>
  Master looks at the first entry of the registry only: where that is no record of a Login, every
  client is answered that there is none, although another Login is registered.
\<close>

lemma undecodable_login_hides_others:
  "\<exists>s. wf_store s \<and> live 0 s (login_registry_key default_args) = Some (login_announcement Little_Endian default_args) \<and>
     pick_login Little_Endian demo_iter (\<lambda>_. 0) s = None"
proof (intro exI conjI)
  let ?a = "store_put ''registry:login:a'' [] 15 0 empty_store"
  let ?s = "store_put (login_registry_key default_args) (login_announcement Little_Endian default_args) 15 0 ?a"
  show "wf_store ?s" by simp
  show "live 0 ?s (login_registry_key default_args) = Some (login_announcement Little_Endian default_args)"
    by (simp add: live_put ns_per_second_def)
  have "login_registry_key default_args \<noteq> ''registry:login:a''"
    by (simp add: login_registry_key_def kLoginPrefix_def default_args_def)
  then have "\<exists>es. entries ?s = (''registry:login:a'', \<lparr>entry_value = [], expires_at = 15000000000\<rparr>) # es"
    by (simp add: store_put_def empty_store_def ns_per_second_def)
  then show "pick_login Little_Endian demo_iter (\<lambda>_. 0) ?s = None"
    by (auto simp: pick_login_def store_list_prefix_def demo_iter_def is_expired_def key_has_prefix_def
        kLoginPrefix_def decode_login_def reader_u16_def reader_remaining_def)
qed

section \<open>The command line\<close>

text \<open>What \<open>run-dev.sh all\<close> passes is not a role, and the programme prints its usage.\<close>

lemma run_dev_all_usage: "main_dispatch [''master''] = Inr Usage" "main_dispatch [''login''] = Inr Usage"
  by (simp_all add: main_dispatch_def parse_args_def parse_arg_def value_after_def default_args_def)

lemma port_wraps:
  "parse_arg (''--store-port='' @ to_string_nat 70000) a = Inr (a\<lparr>a_store_port := 4464\<rparr>)"
  using stoi_to_string [of 70000] by (simp add: parse_arg_def value_after_def)

text \<open>Sixty-four characters that are not hexadecimal digits are taken for a key.\<close>

lemma lenient_secret:
  "load_hmac_secret (Some (concat (replicate 32 ''+1''))) = Inr (Some (replicate 32 1))"
proof -
  have "stoi 16 ''+1'' = Inr 1"
    by (simp add: stoi_def is_space_def Let_def digits_value_def is_digit_def digit_value_def)
  then have "load_bytes n (concat (replicate n ''+1'')) = Inr (replicate n 1)" for n
    by (induction n) simp_all
  then have "load_bytes 32 (concat (replicate 32 ''+1'')) = Inr (replicate 32 1)" by this
  moreover have "length (concat (replicate n ''+1'')) = 2 * n" for n by (induction n) simp_all
  then have "length (concat (replicate 32 ''+1'')) = 2 * 32" by this
  ultimately show ?thesis by (simp only: load_hmac_secret_def option.case) simp
qed

end
