(* ===== verification/Spec2Isabelle.thy ===== *)
theory Spec2Isabelle
  imports Byte_IO Security Srp6 Shared_Store Store_Threads Store_Wire Client_Protocol Session Server_Role Store_RPC
    Accounts Registry Master_Handler World_Handler Login_Handler Channel_Table
    Session_Timing Server Main_Cli Flow Cluster Async_Handlers Async_Cluster Async_Refinement Client_Sim
    Server_Run Process Shutdown
    Demo Demo_Store Demo_Cluster Demo_Process Findings
begin

text \<open>
  A verification of \<open>mmosrv-cpp\<close>, the network core of a game server: one executable that runs as one
  of three roles, and two tools. \<open>Master\<close> (port 3724) sends each client to a \<open>Login\<close> with a ticket,
  and keeps the shared store. \<open>Login\<close> (port 3726) authenticates a client with SRP6a against the
  accounts and stores a session token. \<open>World\<close> (port 8085) lets the holder of a token play. Login and
  World reach the store of Master through signed requests over TCP, announce themselves in it by
  heartbeats, and take tickets and tokens out of it.

  \<^bold>\<open>Theories and sources.\<close> Names are those of the sources, in the order of the sources.

  \<^item> \<open>Prelude\<close>: bytes, texts, \<open>result\<close> (an exception or a value), the collections of simp rules.
  \<^item> \<open>Byte_IO\<close>: \<open>net/byte_io.hpp\<close>, \<open>net/framing.hpp\<close>, over the byte order of the machine.
  \<^item> \<open>Security\<close>: \<open>security/hmac.hpp\<close>, \<open>sha256.hpp\<close>, \<open>secure_random.hpp\<close>.
  \<^item> \<open>Srp6\<close>: \<open>security/srp6.hpp\<close>.
  \<^item> \<open>Shared_Store\<close>: \<open>store/shared_store.hpp\<close>, and the map with deadlines that it refines;
    \<open>Store_Threads\<close>: the same operations as the steps of many threads under \<open>mutex_\<close>, and the
    proof that each takes effect at one moment.
  \<^item> \<open>Store_Wire\<close>, \<open>Store_RPC\<close>: \<open>store/store_wire.hpp\<close>, \<open>store_handler.hpp\<close>, \<open>store_client.hpp\<close>, and
    the refinement of the same map through the network.
  \<^item> \<open>Client_Protocol\<close>: \<open>net/login_protocol.hpp\<close>, \<open>net/master_protocol.hpp\<close>.
  \<^item> \<open>Session\<close>, \<open>Session_Timing\<close>: \<open>session.hpp\<close>, \<open>handler_concept.hpp\<close>; a session without a clock, where
    the winner of each race between frame and timer is given, and on a clock.
    \<open>Server_Role\<close>: \<open>server_role.hpp\<close>.
  \<^item> \<open>Accounts\<close>: \<open>accounts/*\<close> and \<open>tools/create_account.cpp\<close>.
  \<^item> \<open>Registry\<close>: \<open>registry/world_registry.hpp\<close>.
  \<^item> \<open>Master_Handler\<close>, \<open>Login_Handler\<close>, \<open>World_Handler\<close>: the handlers of the roles,
    \<open>handlers/*.hpp\<close>, \<open>net/channel.hpp\<close> and \<open>example_handlers.hpp\<close>.
  \<^item> \<open>Channel_Table\<close>: the static table of \<open>net/channel.hpp\<close> and the threads that reach it first; that it
    is built once is the language's guarantee, which its rules state, and what follows for the packets of
    every thread is shown.
  \<^item> \<open>Server\<close>, \<open>Server_Run\<close>: \<open>server.hpp\<close> with \<open>reuse_port.hpp\<close> and \<open>protocol.hpp\<close>: the accept loops
    and the counter of connections, then the start of the threads and the end of a stop.
  \<^item> \<open>Main_Cli\<close>, \<open>Process\<close>, \<open>Shutdown\<close>: \<open>src/main.cpp\<close>: arguments and secret, what each role starts,
    and how a signal ends it.
  \<^item> \<open>Flow\<close>, \<open>Cluster\<close>: the servers together: a token from Login to World; any number of Logins and
    Worlds on the store of one Master, with a log of the challenges and the accepted proofs.
  \<^item> \<open>Async_Handlers\<close>, \<open>Async_Cluster\<close>, \<open>Async_Refinement\<close>: the same with the \<open>co_await\<close> of the store
    client: the handlers cut into the pieces between their operations on the store, the processes with requests and
    answers on their way, and the proof that the runs of \<open>Cluster\<close> are among theirs.
  \<^item> \<open>Client_Sim\<close>: \<open>tools/client_sim.cpp\<close>, and a run of it against Master and Login.
  \<^item> \<open>Demo\<close>, \<open>Demo_Store\<close>, \<open>Demo_Cluster\<close>, \<open>Demo_Process\<close>: concrete parameters and runs, for the witnesses.
  \<^item> \<open>Findings\<close>: what the code does and its comments deny, as theorems.

  \<^bold>\<open>How the model is made.\<close> A function or handler of the sources is a function on the state it uses, which
  returns the new state; an exception is a value of \<open>exn\<close>, and an operation without a defined result
  (reading a challenge that is not there) is the exception \<open>Undefined\<close>, which is proved not to
  occur. Integers have their width where they are stored or sent. The store is the list of its
  entries, and each operation takes the readings of the clock that it makes. A connection is what
  the handler sent, whether it is open, and how its writes will end. The servers of a process
  interleave, so the accept loops (\<open>server_step\<close>), the cluster (\<open>cluster_step\<close>, \<open>async_step\<close>), the
  table of the channel (\<open>channel_step\<close>), the threads in the store (\<open>table_step\<close>) and the process
  (\<open>process_step\<close>) are step relations, with invariants over all reachable states.

  \<^bold>\<open>Parameters.\<close> OpenSSL, its BIGNUM functions, SQLite, the sockets of the store client and of
  \<open>client_sim\<close>, the sockets of a server and the order in which a hash map is iterated are arguments of
  the definitions. What the results rely on is named: \<open>openssl_documented\<close>, \<open>bn_documented\<close>,
  \<open>sqlite_documented\<close>, \<open>is_iteration\<close>, \<open>sharing_os\<close> (sockets that all set \<open>SO_REUSEPORT\<close> can be bound
  to one port; nothing is assumed of a bind in other cases, nor of a system without the option).
  \<open>Demo\<close> and \<open>Demo_Process\<close> give each a function for which they hold. Nothing is assumed of the
  strength of a hash: \<open>store_accepts_only_signed\<close> says what is compared, not that it cannot be forged.

  \<^bold>\<open>Groups of results.\<close> A whole login from the client's side (\<open>client_sim_logs_in\<close>) and from
  Login's (\<open>login_succeeds\<close>); whom World lets in and how often a key admits, whatever the order of
  requests and answers (\<open>session_user_proved\<close>, \<open>key_admits_no_more_than_its_puts\<close>,
  \<open>world_silent_before_token\<close>); the state machine of Login; SRP6a; the store under its threads
  (\<open>store_linearizable\<close>, \<open>store_calls_return\<close>), its specification and its refinement at hand and
  over the network, single use, sweep and heartbeat; codecs of every message and frame; how long a
  session lasts (\<open>session_deadline\<close>); the repository of accounts; the threads of a server (admission,
  the population that World announces, stop, drain); what a player is sent
  (\<open>world_session_echoes\<close>); the processes (what serves, and that a process can return after a signal exactly when no session waits for the store). The laws of
  the store, of the codecs and of the repository are locales, interpreted on the definitions of the
  code.

  \<^bold>\<open>Loops and fuel.\<close> Nothing runs on fuel. \<open>run_loop\<close> and \<open>timed_loop\<close> end because each turn uses up input; the loops
  that the code means to run for ever (\<open>heartbeat_loop\<close>, \<open>master_sweep_loop\<close>, \<open>wait_drained\<close>,
  \<open>datagram_loop\<close>) are given what they meet in each turn as a list. The stop of a server is bounded by
  a measure (\<open>stop_terminates\<close>): a closed session returns, unless its handler waits for the store
  client, whose operations the thread does not complete; those sessions are a part of the state of a
  thread (\<open>waiting\<close>), and \<open>Shutdown\<close> says when they are answered.

  \<^bold>\<open>Abstractions.\<close> A handler runs without interruption between two operations on the store; in
  \<open>Cluster\<close>, \<open>Client_Sim\<close> and the results on one handler also across them, which
  \<open>atomic_handlers_refined\<close> and \<open>handlers_in_pieces\<close> relate to the interleaved model. There a
  call of the store client is one request that the store handles at once and one answer, either of
  which may be delayed or lost. An operation of the store is one step everywhere but in \<open>Store_Threads\<close>, whose results
  justify it; the clusters serve a listing at one moment, though \<open>list_prefix\<close> reads the clock for
  each entry. The writes of a handler to its own connection do not suspend it. The threads of \<open>start\<close>
  open their sockets one after the other. A datagram thread of a running process is only whether
  its loop runs. \<open>Session_Timing\<close> has the bytes of the peer with the times at which they can be read
  and the duration of each handler as inputs.

  \<^bold>\<open>Not modelled.\<close> Log lines; allocation (the arena of a thread, failures of \<open>new\<close>); signals other than
  the first; the build files and \<open>scripts/run-dev.sh\<close>, whose arguments are examined in \<open>Findings\<close>;
  the internals of Asio, OpenSSL and SQLite.
\<close>

section \<open>A client against the whole system\<close>

text \<open>C1: The client of \<open>client_sim\<close>, run against the modelled Master and Login with the password of an
  account, ends with the list of the worlds that the store announces and with a token that the store
  shows under its username for the session's time to live. What is assumed of the state: a Login is
  registered, the account is found and was made from the password, the ticket does not run out
  between the two servers, and the sources of randomness answer.\<close>

theorem client_sim_logs_in:
  assumes "cl_store (dp_cluster s) = sv" and "cl_login (dp_cluster s) i = h"
    and "after_ticket rnd ttl sv = sv1" and "after_take (to_hex rnd) sv1 = sv2"
    and "login_connected C iter" and "bn_documented (lc_bn C)" and "sha256_available (lc_openssl C)"
    and "pick_login (lc_endian C) iter (sv_clock_from sv) (sv_store sv) = Some li" and "length (li_host li) < 65536"
    and "ms_rand (cl_master (dp_cluster s)) (ms_draws (cl_master (dp_cluster s))) = Some rnd" and "length rnd = 16"
    and "ma = (host, to_string_nat (unat port))"
    and "la = (li_host li, to_string_nat (unat (li_port li)))"
    and "sv_now sv1 < put_time sv + ttl * ns_per_second" and "values_ok (sv_store sv)"
    and "compute_verifier_with_salt (lc_openssl C) (lc_bn C) user pw salt = Inr reg"
    and "length salt < 65536" and "length user < 1000"
    and "acc_find (lc_accounts C) (fst sid) user (lg_accounts h) =
       (Inr (Some \<lparr>ac_username = user, ac_salt = reg_salt reg, ac_verifier = reg_verifier reg\<rparr>), r)"
    and "session_at h sid = new_login_session"
    and "server_begin (lc_openssl C) (lc_bn C) (lg_bn_rand h (lg_bn_draws h)) (reg_verifier reg) = Inr ch"
    and "client_respond (lc_openssl C) (lc_bn C) ra user pw salt (ch_B_bytes ch) = Inr pr"
    and "compute_u (lc_openssl C) (lc_bn C) (cp_A_bytes pr) (ch_B_bytes ch) \<noteq> Inr 0"
    and "lg_rand h (lg_draws h) = Some rnd2" and "length rnd2 = 16"
    and "rpc_put_ok (to_hex rnd2) (bytes_of user) (lc_session_ttl C)"
    and "listing_fits (world_listing iter (after_token C (to_hex rnd2) user sv2))"
    and "ws = worlds_of (lc_endian C) (world_listing iter (after_token C (to_hex rnd2) user sv2))"
    and "login_msg_fits (MWorlds ws)" and "length (encode_world_list (lc_endian C) ws) \<le> 2 ^ 20"
  shows "\<exists>s'. sim_run (lc_endian C) (lc_openssl C) (lc_bn C) ra (deployment C iter ttl i sid ma la) host port
      user pw s = (Ended (Listed (to_hex rnd2) ws), s') \<and>
    live t (sv_store (cl_store (dp_cluster s'))) (to_hex rnd2) =
      (if t < sv_now sv2 + lc_session_ttl C * ns_per_second then Some (bytes_of user) else None)"
  using sim_run_core [OF assms, of t] by blast

theorem client_sim_logs_in_witness:
  "\<exists>s'. sim_run Little_Endian demo_openssl demo_bn (Some 1) demo_net ''master'' 3724 ''ann'' ''pw'' demo_deployed =
     (Ended (Listed (to_hex demo_rnd) []), s') \<and>
   live 0 (sv_store (cl_store (dp_cluster s'))) (to_hex demo_rnd) = Some (bytes_of ''ann'')"
proof -
  obtain ch where ch: "server_begin demo_openssl demo_bn (Some 1) (reg_verifier demo_reg) = Inr ch"
    using server_begin_available [OF demo_bn_documented demo_available(2)] by blast
  obtain pr where pr: "client_respond demo_openssl demo_bn (Some 1) ''ann'' ''pw'' demo_salt (ch_B_bytes ch) = Inr pr"
    using demo_client [OF ch] by blast
  have u: "compute_u demo_openssl demo_bn (cp_A_bytes pr) (ch_B_bytes ch) \<noteq> Inr 0"
    using demo_digest_num_less(2) by (simp add: demo_compute(2))
  obtain r where find: "acc_find (lc_accounts demo_config) 0 ''ann'' (lg_accounts demo_login) =
     (Inr (Some \<lparr>ac_username = ''ann'', ac_salt = reg_salt demo_reg,
       ac_verifier = reg_verifier demo_reg\<rparr>), r)"
    using demo_find(1) by blast
  show ?thesis
    using client_sim_logs_in [where C = demo_config and iter = demo_iter and s = demo_deployed and i = 0
        and sid = "(0, 1)" and rnd = "replicate 16 9" and ttl = 30 and li = "\<lparr>li_host = ''127.0.0.1'', li_port = kLoginPort\<rparr>"
        and ma = "(''master'', to_string_nat 3724)" and la = "(''127.0.0.1'', to_string_nat (unat kLoginPort))"
        and host = "''master''" and port = 3724 and user = "''ann''" and pw = "''pw''" and salt = demo_salt
        and reg = demo_reg and r = r and ch = ch and ra = "Some 1" and pr = pr and ?rnd2.0 = demo_rnd
        and ws = "[]" and t = 0 and sv = demo_announced and h = demo_login and ?sv1.0 = demo_sv1 and ?sv2.0 = demo_sv2]
      demo_connected demo_bn_documented demo_available(2) demo_pick demo_clocks demo_reg_is ch pr u find
      demo_put_ok demo_rnd_length demo_worlds demo_sim_facts demo_sv
    by (simp add: demo_config_simps demo_net_def)
qed

text \<open>C9: On any network, honest or not, the client shows a list of worlds only after it verified the
  server's proof against its own key, and the token it shows is the one of that message.\<close>

theorem client_verifies_server:
  assumes "sim_run e E L rand N host port user pw w = (Ended (Listed token ws), w')"
  shows "\<exists>rd w1 ch w2 pr d w3.
    sim_master e N host port w = (Go rd, w1) \<and> sim_hello e N rd user w1 = (Go ch, w2) \<and>
    sim_proof e E L rand N user pw ch w2 = (Go (pr, d), w3) \<and>
    client_respond E L rand user pw (l_salt ch) (l_B ch) = Inr pr \<and>
    client_verify_server E pr (l_M2 d) = Inr True \<and> token = l_session_token d"
  using sim_listed_core [OF assms] .

theorem client_verifies_server_witness:
  "\<exists>(ch :: login_decoded) pr (d :: login_decoded).
     client_respond demo_openssl demo_bn (Some 1) ''ann'' ''pw'' (l_salt ch) (l_B ch) = Inr pr \<and>
     client_verify_server demo_openssl pr (l_M2 d) = Inr True \<and> l_session_token d = to_hex demo_rnd"
proof -
  obtain s' where "sim_run Little_Endian demo_openssl demo_bn (Some 1) demo_net ''master'' 3724 ''ann'' ''pw''
      demo_deployed = (Ended (Listed (to_hex demo_rnd) []), s')"
    using demo_sim_run by blast
  from client_verifies_server [OF this] show ?thesis
    by (elim exE conjE) (intro exI conjI, assumption, assumption, erule sym)
qed

text \<open>C2: The processes together, with handlers that wait. Over any run of one Master, any Logins and
  any Worlds on one store, in which clients send any messages at all, sessions wait for the store
  while others run, and answers come late or never, the name under which World authenticates a
  session was proved at a Login before: a proof was accepted for a challenge made from what the
  database answered for that name. The exceptions are the name of Master's tickets, which is empty,
  and the announcements in the registry, which World takes for tokens as well.\<close>

theorem session_user_proved:
  assumes "login_connected C iter" and "is_iteration iter" and "async_reachable C iter ttl log s"
    and "authenticated_as (cl_world (as_cluster s) j) sid u"
  shows "u = [] \<or> (\<exists>a. u = string_of (login_announcement (lc_endian C) a)) \<or>
    (\<exists>a n. u = string_of (world_announcement (lc_endian C) a n)) \<or> proved C (history log) u"
  using async_user_core [OF assms] .

theorem session_user_proved_witness:
  "\<exists>log s. async_reachable demo_config demo_iter 30 log s \<and>
     authenticated_as (cl_world (as_cluster s) 0) (0, 1) ''ann'' \<and> proved demo_config (history log) ''ann''"
proof -
  obtain log s where run: "async_reachable demo_config demo_iter 30 log s"
      "authenticated_as (cl_world (as_cluster s) 0) (0, 1) ''ann''"
    by (rule demo_async_entered)
  have "proved demo_config (history log) ''ann''"
    using session_user_proved [OF demo_connected demo_iteration run] ann_no_announcement by blast
  with run show ?thesis by blast
qed

text \<open>C3: In the same runs a key admits at most as many sessions as it was put: the hellos whose ticket
  it was and the first messages to World whose token it was are together no more than its puts,
  whichever answers are late or lost. Every session that World runs, and every session of Login past
  its hello, is among them.\<close>

theorem key_admits_no_more_than_its_puts:
  assumes "login_connected C iter" and "is_iteration iter" and "async_reachable C iter ttl log s"
  shows "use_count key log \<le> put_count key log \<and>
    (\<forall>j sid u. authenticated_as (cl_world (as_cluster s) j) sid u \<longrightarrow> (\<exists>key. World_Opened j sid key \<in> set log)) \<and>
    (\<forall>i sid. ls_stage (session_at (cl_login (as_cluster s) i) sid) \<noteq> AwaitingHello \<longrightarrow>
       (\<exists>key. Ticket_Used i sid key \<in> set log))"
  using async_use_count_core [OF assms, of key] admissions_core [OF assms] unfolding admissions_logged_def by simp

theorem key_admits_no_more_than_its_puts_witness:
  "\<exists>log s key. async_reachable demo_config demo_iter 30 log s \<and> World_Opened 0 (0, 1) key \<in> set log \<and>
     1 \<le> use_count key log \<and> 1 \<le> put_count key log"
proof -
  obtain log s where run: "async_reachable demo_config demo_iter 30 log s"
      "authenticated_as (cl_world (as_cluster s) 0) (0, 1) ''ann''"
    by (rule demo_async_entered)
  note main = key_admits_no_more_than_its_puts [OF demo_connected demo_iteration run(1)]
  then obtain key where key: "World_Opened 0 (0, 1) key \<in> set log" using run(2) by blast
  then have "World_Opened 0 (0, 1) key \<in> set (filter (\<lambda>e. used_key e = Some key) log)" by simp
  then have "1 \<le> use_count key log" unfolding use_count_def by (cases "filter (\<lambda>e. used_key e = Some key) log") auto
  moreover from this main [of key] have "1 \<le> put_count key log" by linarith
  ultimately show ?thesis using run(1) key by blast
qed

text \<open>Every run of the processes with atomic handlers is a run with handlers that wait: it reaches
  the same states of the servers and of the store, with the same challenges and accepted proofs in
  the log, and no session waits in it.\<close>

theorem atomic_handlers_refined:
  assumes "login_connected C iter" and "cluster_reachable C iter ttl log c"
  shows "\<exists>log' s. async_reachable C iter ttl log' s \<and> quiescent s \<and> as_cluster s = c \<and> history log' = log"
  using cluster_refines_core [OF assms] .

theorem atomic_handlers_refined_witness:
  "\<exists>log s. async_reachable demo_config demo_iter 30 log s \<and> quiescent s \<and>
     authenticated_as (cl_world (as_cluster s) 0) (0, 1) ''ann''"
proof -
  obtain log c where "cluster_reachable demo_config demo_iter 30 log c"
      "authenticated_as (cl_world c 0) (0, 1) ''ann''"
    by (rule demo_world_entered)
  with atomic_handlers_refined [OF demo_connected] show ?thesis by blast
qed

text \<open>The pieces of a handler between its operations on the store are the handler: run one after
  the other, with each call performed where the handler stopped for it, they leave what
  \<open>on_message\<close> leaves, for every message and every state of Login, World and Master.\<close>

theorem handlers_in_pieces:
  "login_call C sid (login_call C sid (login_begin C sid p h c)) = ended (login_on_message C sid p h c) \<and>
   world_call e E hk net sid' (world_begin e sid' p' wh c') = ended (world_on_message e E hk net sid' p' wh c') \<and>
   master_rest e ttl (master_begin e iter p'' m c'') = master_on_message e iter ttl p'' m c''"
  by (intro conjI login_pieces world_pieces master_pieces)

text \<open>The same for runs in which the handlers are atomic.\<close>

theorem world_user_proved:
  assumes "login_connected C iter" and "is_iteration iter" and "cluster_reachable C iter ttl log s"
    and "authenticated_as (cl_world s j) sid u"
  shows "u = [] \<or> (\<exists>a. u = string_of (login_announcement (lc_endian C) a)) \<or>
    (\<exists>a n. u = string_of (world_announcement (lc_endian C) a n)) \<or> proved C log u"
  using world_user_core [OF assms] .

theorem world_user_proved_witness:
  "\<exists>log s. cluster_reachable demo_config demo_iter 30 log s \<and>
     authenticated_as (cl_world s 0) (0, 1) ''ann'' \<and> proved demo_config log ''ann''"
proof -
  obtain log s where run: "cluster_reachable demo_config demo_iter 30 log s"
      "authenticated_as (cl_world s 0) (0, 1) ''ann''"
    by (rule demo_world_entered)
  have "proved demo_config log ''ann''"
    using world_user_proved [OF demo_connected demo_iteration run] ann_no_announcement by blast
  with run show ?thesis by blast
qed

section \<open>A login, from the client's hello to the session token\<close>

text \<open>C4: An honest client of a registered account logs in. Where the ticket is live, the account's
  salt and verifier come from the password, and the client answers the challenge it was sent with
  that password, the session is done, the client is sent a proof it accepts and the token, then
  the list of the worlds, and the store holds the username under the token for the session's time
  to live.\<close>

theorem login_succeeds:
  assumes "login_connected C iter"
    and "bn_documented (lc_bn C)" and "sha256_available (lc_openssl C)"
    and "compute_verifier_with_salt (lc_openssl C) (lc_bn C) user pw salt = Inr reg"
    and "length salt < 65536"
    and "session_at h sid = new_login_session" and "length user < 65536"
    and "acc_find (lc_accounts C) (fst sid) user (lg_accounts h) =
      (Inr (Some \<lparr>ac_username = user, ac_salt = reg_salt reg, ac_verifier = reg_verifier reg\<rparr>), r)"
    and "rpc_key_ok ticket" and "values_ok (sv_store (lg_world h))"
    and "live (sv_now (lg_world h)) (sv_store (lg_world h)) ticket \<noteq> None"
    and "quiet c" and "sent c = []"
    and "login_on_message C sid (encode_client_hello (lc_endian C) ticket user) h c = (ex1, h1, c1)"
    and "sent c1 = frame (lc_endian C) msg" and "login_decode (lc_endian C) msg = Some d"
    and "client_respond (lc_openssl C) (lc_bn C) ra user pw (l_salt d) (l_B d) = Inr prf"
    and "compute_u (lc_openssl C) (lc_bn C) (cp_A_bytes prf) (l_B d) \<noteq> Inr 0"
    and "session_at h2 sid = session_at h1 sid" and "lg_rand h2 (lg_draws h2) = Some rnd"
    and "length rnd = 16"
    and "quiet c2" and "rpc_put_ok (to_hex rnd) (bytes_of user) (lc_session_ttl C)"
    and "listing_fits (world_listing iter (after_token C (to_hex rnd) user (lg_world h2)))"
    and "login_on_message C sid
      (encode_client_proof (lc_endian C) (cp_A_bytes prf) (cp_M1 prf)) h2 c2 = (ex2, h3, c3)"
  shows "ex1 = None \<and> ex2 = None \<and> ls_stage (session_at h3 sid) = Done \<and>
    (\<exists>M2. client_verify_server (lc_openssl C) prf M2 = Inr True \<and>
       sent c3 = sent c2 @ frame (lc_endian C) (encode_server_proof (lc_endian C) M2 (to_hex rnd)) @
         frame (lc_endian C) (encode_world_list (lc_endian C) (worlds_of (lc_endian C)
           (world_listing iter (after_token C (to_hex rnd) user (lg_world h2)))))) \<and>
    live t (sv_store (lg_world h3)) = (live t (sv_store (lg_world h2)))
      (to_hex rnd := if t < sv_now (lg_world h2) + lc_session_ttl C * ns_per_second
                     then Some (bytes_of user) else None)"
  using login_succeeds_core [OF assms] .

theorem login_succeeds_witness:
  "\<exists>h1 c1 pr h3 c3 M2.
     login_on_message demo_config (0, 1) (encode_client_hello Little_Endian demo_ticket ''ann'')
       demo_login fresh_conn = (None, h1, c1) \<and>
     login_on_message demo_config (0, 1)
       (encode_client_proof Little_Endian (cp_A_bytes pr) (cp_M1 pr)) h1 fresh_conn = (None, h3, c3) \<and>
     ls_stage (session_at h3 (0, 1)) = Done \<and> client_verify_server demo_openssl pr M2 = Inr True \<and>
     live 59000000000 (sv_store (lg_world h3)) (to_hex demo_rnd) = Some (bytes_of ''ann'')"
proof -
  obtain h1 c1 msg d pr ex2 h3 c3 where
    run: "login_on_message demo_config (0, 1) (encode_client_hello Little_Endian demo_ticket ''ann'')
       demo_login fresh_conn = (None, h1, c1)"
    "sent c1 = frame Little_Endian msg" "login_decode Little_Endian msg = Some d"
    "client_respond demo_openssl demo_bn (Some 1) ''ann'' ''pw'' (l_salt d) (l_B d) = Inr pr"
    "compute_u demo_openssl demo_bn (cp_A_bytes pr) (l_B d) \<noteq> Inr 0"
    "login_on_message demo_config (0, 1)
       (encode_client_proof Little_Endian (cp_A_bytes pr) (cp_M1 pr)) h1 fresh_conn = (ex2, h3, c3)"
    "entries (sv_store (lg_world h1)) = []" "sv_now (lg_world h1) = 0"
    "lg_rand h1 = (\<lambda>_. Some demo_rnd)"
    by (rule demo_login_run)
  obtain r where find: "acc_find (lc_accounts demo_config) 0 ''ann'' (lg_accounts demo_login) =
     (Inr (Some \<lparr>ac_username = ''ann'', ac_salt = reg_salt demo_reg,
       ac_verifier = reg_verifier demo_reg\<rparr>), r)"
    using demo_find(1) by blast
  have "ex2 = None \<and> ls_stage (session_at h3 (0, 1)) = Done \<and>
      (\<exists>M2. client_verify_server demo_openssl pr M2 = Inr True) \<and>
      live 59000000000 (sv_store (lg_world h3)) (to_hex demo_rnd) = Some (bytes_of ''ann'')"
    using login_succeeds [of demo_config demo_iter "''ann''" "''pw''" demo_salt demo_reg demo_login
        "(0, 1)" r demo_ticket fresh_conn None h1 c1 msg d "Some 1" pr h1 demo_rnd fresh_conn ex2 h3
        c3 59000000000]
      run find demo_connected demo_bn_documented demo_available(2) demo_reg_is demo_store
      demo_listing(2) [OF run(7)] demo_put_ok demo_rnd_length
    by (auto simp: demo_salt_def ns_per_second_def demo_facts)
  with run(1,6) show ?thesis by blast
qed

text \<open>C5: A Login process puts nothing in the store but session tokens it has earned: if after a
  message on a session a key shows a value it did not show before, the value is the username of
  that session, the session awaited a proof, its challenge was made for that username (its account,
  or a fake one), and the proof that the message carries was accepted for this challenge.\<close>

theorem session_token_only_after_proof:
  assumes "login_connected C iter" and "login_reachable C h" and "values_ok (sv_store (lg_world h))"
    and "login_on_message C sid p h c = (ex, h', c')"
    and "live t (sv_store (lg_world h')) k = Some v" and "live t (sv_store (lg_world h)) k \<noteq> Some v"
  shows "v = bytes_of (ls_username (session_at h sid)) \<and>
    ls_stage (session_at h sid) = AwaitingProof \<and>
    (\<exists>d ch res. login_decode (lc_endian C) p = Some d \<and> ls_challenge (session_at h sid) = Some ch \<and>
       challenge_for C (ls_username (session_at h sid)) ch \<and>
       proof_accepted C ch (l_A d) (l_M1 d) res)"
  using login_store_core [OF assms] .

theorem session_token_only_after_proof_witness:
  "\<exists>(h1 :: (store_server, demo_db repo) login_server) ch A M1 res.
     live 0 (sv_store (lg_world h1)) (to_hex demo_rnd) = None \<and>
     ls_stage (session_at h1 (0, 1)) = AwaitingProof \<and>
     ls_challenge (session_at h1 (0, 1)) = Some ch \<and> challenge_for demo_config ''ann'' ch \<and>
     proof_accepted demo_config ch A M1 res"
proof -
  obtain h1 and pr :: client_proof and h3 c3 where run: "login_reachable demo_config h1" "values_ok (sv_store (lg_world h1))"
    "lg_rand h1 = (\<lambda>_. Some demo_rnd)"
    "login_on_message demo_config (0, 1)
       (encode_client_proof Little_Endian (cp_A_bytes pr) (cp_M1 pr)) h1 fresh_conn = (None, h3, c3)"
    "live 0 (sv_store (lg_world h3)) (to_hex demo_rnd) = Some (bytes_of ''ann'')"
    "live 0 (sv_store (lg_world h1)) (to_hex demo_rnd) = None"
    "ls_username (session_at h1 (0, 1)) = ''ann''"
    by (rule demo_login_done)
  have "live 0 (sv_store (lg_world h1)) (to_hex demo_rnd) \<noteq> Some (bytes_of ''ann'')" using run(6) by simp
  from session_token_only_after_proof [OF demo_connected run(1,2,4,5) this]
  have "ls_stage (session_at h1 (0, 1)) = AwaitingProof \<and>
      (\<exists>ch A M1 res. ls_challenge (session_at h1 (0, 1)) = Some ch \<and>
         challenge_for demo_config ''ann'' ch \<and> proof_accepted demo_config ch A M1 res)"
    unfolding run(7) by auto
  with run(6) show ?thesis by blast
qed

text \<open>C6: In every reachable state of a Login process, a message keeps its session well formed (past
  the hello it holds a challenge made for its username, and when it is done a proof for that
  challenge was accepted), never moves it to an earlier stage and leaves every other session of
  the process as it was.\<close>

theorem login_session_invariant:
  assumes "login_reachable C h" and "login_on_message C sid p h c = (ex, h', c')"
  shows "session_ok C (session_at h' sid) \<and>
    ls_stage (session_at h sid) \<le> ls_stage (session_at h' sid) \<and>
    (\<forall>sid'. sid' \<noteq> sid \<longrightarrow> session_at h' sid' = session_at h sid')"
  using login_message_session [OF reachable_sessions_ok [OF assms(1)] assms(2)] .

theorem login_session_invariant_witness:
  "\<exists>h1 c1 ex. login_on_message demo_config (0, 1)
       (encode_client_hello Little_Endian demo_ticket ''ann'') demo_login fresh_conn = (ex, h1, c1) \<and>
     session_ok demo_config (session_at h1 (0, 1)) \<and> session_at h1 (1, 1) = session_at demo_login (1, 1)"
proof -
  obtain ex h1 c1 where step: "login_on_message demo_config (0, 1)
       (encode_client_hello Little_Endian demo_ticket ''ann'') demo_login fresh_conn = (ex, h1, c1)"
    by (metis prod_cases3)
  have "login_reachable demo_config demo_login"
    by (rule login_reachable.start) (simp add: demo_login_def)
  from login_session_invariant [OF this step] step show ?thesis by auto
qed

text \<open>C7: In no reachable state of the processes, whatever sessions wait and whatever answers come late or
  not at all, does a piece of a handler run into an operation without a defined result: a message
  never makes Login read a challenge that is not there, and a session is only resumed with an answer
  of the kind it waits for.\<close>

theorem handlers_never_undefined:
  assumes "login_connected C iter" and "is_iteration iter" and "async_reachable C iter ttl log s"
  shows "segment_defined (login_begin C sid p (login_view (as_cluster s) i) c) \<and>
    segment_defined (world_begin (lc_endian C) sid p (world_view (as_cluster s) j) c) \<and>
    (\<forall>n call k r. as_login s i sid = Some (n, call, k) \<and> comes_back s n call r \<longrightarrow>
       segment_defined (login_resume C sid k r (login_view (as_cluster s) i) c)) \<and>
    (\<forall>n call k r. as_world s j sid = Some (n, call, k) \<and> comes_back s n call r \<longrightarrow>
       segment_defined (world_resume sid k r (world_view (as_cluster s) j) c))"
  using pieces_defined_core [OF assms] .

theorem handlers_never_undefined_witness:
  "\<exists>log s call k. async_reachable demo_config demo_iter 30 log s \<and>
     as_login s 0 (0, 1) = Some (0, call, After_Take ''ann'') \<and>
     segment_defined (login_resume demo_config (0, 1) (After_Take ''ann'') (no_answer call)
       (login_view (as_cluster s) 0) fresh_conn)"
proof -
  let ?p = "encode_client_hello Little_Endian demo_ticket ''ann''"
  have start: "async_reachable demo_config demo_iter 30 [] (idle demo_start)"
    by (rule async_reachable.start) (simp_all add: demo_start_def demo_login_def)
  obtain seg where seg: "login_begin demo_config (0, 1) ?p (login_view (as_cluster (idle demo_start)) 0) fresh_conn = seg"
    by blast
  obtain h c where "seg = Awaits (Take_Call demo_ticket) (After_Take ''ann'') h c"
    using demo_hello_begins [OF seg] by blast
  then have waits: "as_login (login_settle 0 (0, 1) seg (idle demo_start)) 0 (0, 1) =
      Some (0, Take_Call demo_ticket, After_Take ''ann'')"
    by (simp add: idle_def)
  have "length ?p \<le> read_buffer_bytes Login" "as_login (idle demo_start) 0 (0, 1) = None"
    by (simp_all add: idle_def demo_hello_length)
  from async_reachable.step [OF start async_step.login_message [OF this]] seg
  obtain log where run: "async_reachable demo_config demo_iter 30 log (login_settle 0 (0, 1) seg (idle demo_start))"
    by blast
  have "comes_back (login_settle 0 (0, 1) seg (idle demo_start)) 0 (Take_Call demo_ticket) (no_answer (Take_Call demo_ticket))"
    by (simp add: comes_back_def)
  with handlers_never_undefined [OF demo_connected demo_iteration run] waits run show ?thesis by blast
qed

text \<open>The same for a Login whose handlers are atomic.\<close>

theorem login_never_undefined:
  assumes "login_reachable C h" and "login_on_message C sid p h c = (ex, h', c')"
  shows "ex \<noteq> Some Undefined"
  using login_defined_core [OF assms] .

theorem login_never_undefined_witness:
  "\<exists>ex h c. login_on_message demo_config (0, 1) (encode_client_proof Little_Endian [1] (replicate 32 0))
     demo_login fresh_conn = (ex, h, c) \<and> ex \<noteq> Some Undefined"
proof -
  obtain ex h c where step: "login_on_message demo_config (0, 1)
      (encode_client_proof Little_Endian [1] (replicate 32 0)) demo_login fresh_conn = (ex, h, c)"
    by (metis prod_cases3)
  have "login_reachable demo_config demo_login"
    by (rule login_reachable.start) (simp add: demo_login_def)
  from login_never_undefined [OF this step] step show ?thesis by blast
qed

text \<open>C10: A username without an account is answered in the form of one that has an account: whatever
  the database answers for the name of a hello with a live ticket, the session then awaits a proof
  and is sent a challenge of 284 bytes, with a \<open>B\<close> of 256 bytes and a salt of 16, that of the account
  or, the same at every attempt, one made from the name.\<close>

theorem unknown_user_same_form:
  assumes "login_connected C iter" and "bn_documented (lc_bn C)" and "sha256_available (lc_openssl C)"
    and "hmac_available (lc_openssl C) (lc_enum_key C)"
    and "session_at h sid = new_login_session"
    and "rpc_key_ok ticket" and "values_ok (sv_store (lg_world h))"
    and "live (sv_now (lg_world h)) (sv_store (lg_world h)) ticket \<noteq> None"
    and "length user < 65536"
    and "acc_find (lc_accounts C) (fst sid) user (lg_accounts h) = (Inr account, r)"
    and "\<And>a. account = Some a \<Longrightarrow> length (ac_salt a) = 16"
    and "lg_rand h (lg_draws h) = Some rnd" and "quiet c"
    and "login_on_message C sid (encode_client_hello (lc_endian C) ticket user) h c = (ex, h', c')"
  shows "\<exists>salt B. (case account of None \<Rightarrow> fake_salt_for (lc_openssl C) (lc_enum_key C) user = Inr salt
      | Some a \<Rightarrow> salt = ac_salt a) \<and>
    length salt = 16 \<and> length B = 256 \<and> ex = None \<and>
    ls_stage (session_at h' sid) = AwaitingProof \<and>
    sent c' = sent c @ frame (lc_endian C) (encode_server_challenge (lc_endian C) salt B) \<and>
    length (sent c') = length (sent c) + 284"
  using same_form_core [OF assms] .

theorem unknown_user_same_form_witness:
  "\<exists>h1 c1 h2 c2. login_on_message demo_config (0, 1)
       (encode_client_hello Little_Endian demo_ticket ''bob'') demo_login fresh_conn = (None, h1, c1) \<and>
     login_on_message demo_config (0, 1)
       (encode_client_hello Little_Endian demo_ticket ''ann'') demo_login fresh_conn = (None, h2, c2) \<and>
     length (sent c1) = 284 \<and> length (sent c2) = 284"
proof -
  obtain ex h1 c1 where bob: "login_on_message demo_config (0, 1)
       (encode_client_hello Little_Endian demo_ticket ''bob'') demo_login fresh_conn = (ex, h1, c1)"
    by (metis prod_cases3)
  obtain ex' h2 c2 where ann: "login_on_message demo_config (0, 1)
       (encode_client_hello Little_Endian demo_ticket ''ann'') demo_login fresh_conn = (ex', h2, c2)"
    by (metis prod_cases3)
  obtain r where "acc_find (lc_accounts demo_config) 0 ''bob'' (lg_accounts demo_login) = (Inr None, r)"
    using demo_find(2) by blast
  with unknown_user_same_form [of demo_config demo_iter demo_login "(0, 1)" demo_ticket "''bob''" None r
      demo_rnd fresh_conn ex h1 c1] bob demo_connected demo_store demo_available
  have "ex = None \<and> length (sent c1) = 284"
    by (auto simp: demo_facts demo_bn_documented)
  moreover obtain r' where "acc_find (lc_accounts demo_config) 0 ''ann'' (lg_accounts demo_login) =
      (Inr (Some \<lparr>ac_username = ''ann'', ac_salt = reg_salt demo_reg, ac_verifier = reg_verifier demo_reg\<rparr>), r')"
    using demo_find(1) by blast
  with unknown_user_same_form [of demo_config demo_iter demo_login "(0, 1)" demo_ticket "''ann''" _ r'
      demo_rnd fresh_conn ex' h2 c2] ann demo_connected demo_store demo_available
  have "ex' = None \<and> length (sent c2) = 284"
    by (auto simp: demo_facts demo_bn_documented demo_reg_salt demo_salt_def)
  ultimately show ?thesis using bob ann by blast
qed

section \<open>SRP6\<close>

text \<open>C11: A client that answers a challenge with the password of the registration and the server agree:
  the server accepts the client's proof with the client's session key, and the client accepts the
  server's. Only the value \<open>u = 0\<close>, which the server refuses, is left out.\<close>

theorem srp_agreement:
  assumes "bn_documented L" and "openssl_documented E" and "sha256_available E"
    and "compute_verifier_with_salt E L user pw salt = Inr reg"
    and "server_begin E L rand_b (reg_verifier reg) = Inr ch"
    and "client_respond E L rand_a user pw (reg_salt reg) (ch_B_bytes ch) = Inr prf"
    and "compute_u E L (cp_A_bytes prf) (ch_B_bytes ch) \<noteq> Inr 0"
  shows "\<exists>M2. server_verify E L ch (cp_A_bytes prf) (cp_M1 prf) =
      Inr \<lparr> sr_ok = True, sr_K = cp_K prf, sr_M2 = M2 \<rparr> \<and>
    client_verify_server E prf M2 = Inr True"
  using srp_agreement_core [OF assms] .

theorem srp_agreement_witness:
  "\<exists>ch pr M2. server_begin demo_openssl demo_bn (Some 1) (reg_verifier demo_reg) = Inr ch \<and>
     client_respond demo_openssl demo_bn (Some 1) ''ann'' ''pw'' (reg_salt demo_reg) (ch_B_bytes ch) =
       Inr pr \<and>
     server_verify demo_openssl demo_bn ch (cp_A_bytes pr) (cp_M1 pr) =
       Inr \<lparr> sr_ok = True, sr_K = cp_K pr, sr_M2 = M2 \<rparr> \<and>
     client_verify_server demo_openssl pr M2 = Inr True"
proof -
  obtain ch pr M2 where run:
    "server_begin demo_openssl demo_bn (Some 1) (reg_verifier demo_reg) = Inr ch"
    "client_respond demo_openssl demo_bn (Some 1) ''ann'' ''pw'' (reg_salt demo_reg) (ch_B_bytes ch) = Inr pr"
    "compute_u demo_openssl demo_bn (cp_A_bytes pr) (ch_B_bytes ch) \<noteq> Inr 0"
    by (rule demo_agreement)
  from srp_agreement [OF demo_bn_documented demo_openssl_documented demo_available(2) demo_reg_is run]
    run show ?thesis by blast
qed

text \<open>C12: What \<open>server_verify\<close> answers, exactly: a refusal where the client's public value is zero
  modulo the group, where the scrambling value is zero, or where the client's proof is not the one
  of the key, the hash of \<open>(A * v^u)^b\<close>; otherwise that key and the server's proof over it.\<close>

theorem server_verify_exact:
  assumes "bn_documented L" and "openssl_documented E" and "sha256_available E"
  shows "\<exists>u K M1' M2. compute_u E L A_bytes (ch_B_bytes ch) = Inr u \<and>
    sha256 E (be_pad kNBytes (server_secret ch (be_num A_bytes) u)) = Inr K \<and>
    compute_M1 E A_bytes (ch_B_bytes ch) K = Inr M1' \<and> compute_M2 E A_bytes M1' K = Inr M2 \<and>
    server_verify E L ch A_bytes M1 =
      Inr (if be_num A_bytes mod group_N = 0 \<or> u = 0 \<or> M1 \<noteq> M1' then server_refusal
           else \<lparr> sr_ok = True, sr_K = K, sr_M2 = M2 \<rparr>)"
  using server_verify_exact_core [OF assms] .

theorem server_verify_exact_witness:
  "\<exists>ch (pr :: client_proof) K M2.
     server_verify demo_openssl demo_bn ch (cp_A_bytes pr) (cp_M1 pr) = Inr \<lparr> sr_ok = True, sr_K = K, sr_M2 = M2 \<rparr> \<and>
     server_verify demo_openssl demo_bn ch (cp_A_bytes pr) (cp_M1 pr @ [0]) = Inr server_refusal"
proof -
  obtain ch and pr :: client_proof and M2 where acc:
    "server_verify demo_openssl demo_bn ch (cp_A_bytes pr) (cp_M1 pr) =
       Inr \<lparr> sr_ok = True, sr_K = cp_K pr, sr_M2 = M2 \<rparr>"
    by (rule demo_agreement)
  note exact = server_verify_exact [OF demo_bn_documented demo_openssl_documented demo_available(2), of "cp_A_bytes pr" ch]
  have "server_verify demo_openssl demo_bn ch (cp_A_bytes pr) (cp_M1 pr @ [0]) = Inr server_refusal"
    using exact [of "cp_M1 pr"] exact [of "cp_M1 pr @ [0]"] acc
    by (auto simp: server_refusal_def split: if_splits)
  with acc show ?thesis by blast
qed

text \<open>What the server accepts is the one proof its own values determine: the client's public value
  is not zero modulo the group, the scrambling value is not zero, the key is the hash of the
  server's secret \<open>(A * v^u)^b\<close>, and both proofs are the hashes over that key.\<close>

theorem server_verify_accepts:
  assumes "bn_documented L" and "openssl_documented E"
    and "server_verify E L ch A_bytes M1 = Inr res" and "sr_ok res"
  shows "be_num A_bytes mod group_N \<noteq> 0 \<and>
    (\<exists>u. compute_u E L A_bytes (ch_B_bytes ch) = Inr u \<and> u \<noteq> 0 \<and>
       sha256 E (be_pad kNBytes (server_secret ch (be_num A_bytes) u)) = Inr (sr_K res)) \<and>
    compute_M1 E A_bytes (ch_B_bytes ch) (sr_K res) = Inr M1 \<and>
    compute_M2 E A_bytes M1 (sr_K res) = Inr (sr_M2 res)"
  using server_verify_accepts_core [OF assms] .

theorem server_verify_accepts_witness:
  "\<exists>ch pr. be_num (cp_A_bytes (pr :: client_proof)) mod group_N \<noteq> 0 \<and>
     compute_M1 demo_openssl (cp_A_bytes pr) (ch_B_bytes (ch :: server_challenge)) (cp_K pr) =
       Inr (cp_M1 pr)"
proof -
  obtain ch and pr :: client_proof and M2 where
    "server_verify demo_openssl demo_bn ch (cp_A_bytes pr) (cp_M1 pr) =
       Inr \<lparr> sr_ok = True, sr_K = cp_K pr, sr_M2 = M2 \<rparr>"
    by (rule demo_agreement)
  from server_verify_accepts [OF demo_bn_documented demo_openssl_documented this]
  show ?thesis by auto
qed

text \<open>For a challenge and a client's public value the server accepts at most one proof, and its
  answer is determined.\<close>

theorem server_verify_unique:
  assumes "bn_documented L" and "openssl_documented E"
    and "server_verify E L ch A_bytes M1 = Inr res" and "sr_ok res"
    and "server_verify E L ch A_bytes M1' = Inr res'" and "sr_ok res'"
  shows "M1' = M1 \<and> res' = res"
  using server_verify_unique_core [OF assms] .

theorem server_verify_unique_witness:
  "\<exists>ch A M1 res. server_verify demo_openssl demo_bn ch A M1 = Inr res \<and> sr_ok res \<and>
     (\<forall>M1' res'. server_verify demo_openssl demo_bn ch A M1' = Inr res' \<and> sr_ok res' \<longrightarrow> M1' = M1)"
proof -
  obtain ch and pr :: client_proof and M2 where acc:
    "server_verify demo_openssl demo_bn ch (cp_A_bytes pr) (cp_M1 pr) =
       Inr \<lparr> sr_ok = True, sr_K = cp_K pr, sr_M2 = M2 \<rparr>"
    by (rule demo_agreement)
  have "\<forall>M1' res'. server_verify demo_openssl demo_bn ch (cp_A_bytes pr) M1' = Inr res' \<and> sr_ok res'
      \<longrightarrow> M1' = cp_M1 pr"
    using server_verify_unique [OF demo_bn_documented demo_openssl_documented acc] by simp
  with acc show ?thesis by (metis server_result.select_convs(1))
qed

text \<open>A public value of the client that is zero modulo the group, which would make the key known
  without the password, is refused whatever proof comes with it.\<close>

theorem zero_key_refused:
  assumes "bn_documented L" and "be_num A_bytes mod group_N = 0"
  shows "server_verify E L ch A_bytes M1 = Inr server_refusal"
  using zero_key_refused_core [OF assms] .

theorem zero_key_refused_witness:
  "server_verify demo_openssl demo_bn \<lparr>ch_b = 1, ch_v = 1, ch_B_bytes = []\<rparr> [0, 0] (replicate 32 0) =
     Inr server_refusal"
  by (rule zero_key_refused [OF demo_bn_documented]) (simp add: be_num_def)

section \<open>World\<close>

text \<open>A session token admits one connection: once a session has presented it, any session of any
  thread that presents it to the same store at the same time or later, with the store as the first
  left it, is closed without being authenticated.\<close>

theorem world_token_single_use:
  assumes "crypto_ok E hk" and "token_ok (wd_world h) p"
    and "unauthenticated h sid" and "unauthenticated h1 sid'"
    and "world_at e E hk iter sid p h c = (ex, h', c1)"
    and "sv_store (wd_world h1) = sv_store (wd_world h')"
    and "sv_now (wd_world h) \<le> sv_now (wd_world h1)"
    and "world_at e E hk iter sid' p h1 d = (ex', h1', d1)"
  shows "unauthenticated h1' sid' \<and> \<not> conn_open d1"
  using token_single_use_core [OF assms] .

theorem world_token_single_use_witness:
  "\<exists>h' c' h'' d'. world_at Little_Endian demo_openssl [] demo_iter (0, 1) (bytes_of demo_ticket)
      demo_world fresh_conn = (None, h', c') \<and>
    world_at Little_Endian demo_openssl [] demo_iter (1, 1) (bytes_of demo_ticket)
      h' fresh_conn = (None, h'', d') \<and> authenticated_as h' (0, 1) '''' \<and> \<not> conn_open d'"
proof -
  obtain ex h' c' where s1: "world_at Little_Endian demo_openssl [] demo_iter (0, 1)
      (bytes_of demo_ticket) demo_world fresh_conn = (ex, h', c')" by (metis prod_cases3)
  obtain ex' h'' d' where s2: "world_at Little_Endian demo_openssl [] demo_iter (1, 1)
      (bytes_of demo_ticket) h' fresh_conn = (ex', h'', d')" by (metis prod_cases3)
  note first = demo_world_first [OF s1]
  have u: "unauthenticated h' (1, 1)" "token_ok (wd_world h') (bytes_of demo_ticket)"
      "sv_now (wd_world demo_world) \<le> sv_now (wd_world h')"
    using first by simp_all
  from world_token_single_use [OF demo_crypto demo_world_ok(1,2) u(1) s1 refl u(3) s2]
  have d': "\<not> conn_open d'" by (rule conjunct2)
  from world_at_first [OF demo_crypto u(2,1) s2] have e': "ex' = None" by (rule conjunct1)
  from first have e: "ex = None" "authenticated_as h' (0, 1) ''''" by simp_all
  show ?thesis
    by (intro exI conjI, rule s1 [unfolded e(1)], rule s2 [unfolded e'], rule e(2), rule d')
qed

text \<open>C15: Whatever an unauthenticated connection sends, the answer of the store included, World sends
  it nothing, and its first message decides: the session is authenticated by it, or the handler
  throws or closes the connection, either of which ends the session.\<close>

theorem world_silent_before_token:
  assumes "unauthenticated h sid" and "world_on_message e E hk net sid p h c = (ex, h', c')"
  shows "sent c' = sent c \<and> (unauthenticated h' sid \<longrightarrow> ex \<noteq> None \<or> \<not> conn_open c')"
  using world_silent_core [OF assms] .

theorem world_silent_before_token_witness:
  "\<exists>h' c' ex. world_on_message Little_Endian demo_openssl [] (\<lambda>_. loopback Little_Endian demo_openssl [] demo_iter)
     (0, 1) [2, 0, 9] demo_world fresh_conn = (ex, h', c') \<and> sent c' = []"
proof -
  obtain ex h' c' where s: "world_on_message Little_Endian demo_openssl []
     (\<lambda>_. loopback Little_Endian demo_openssl [] demo_iter) (0, 1) [2, 0, 9] demo_world fresh_conn = (ex, h', c')"
    by (metis prod_cases3)
  from world_silent_before_token [OF demo_world_ok(2) s] s show ?thesis by (simp add: demo_facts)
qed

text \<open>C16: The first message of a session is the token. World authenticates the session under exactly
  the bytes the live entry of that key holds, consumes the entry, and closes the connection where
  there is none.\<close>

theorem world_admission:
  assumes "crypto_ok E hk" and "token_ok (wd_world h) p" and "unauthenticated h sid"
    and "world_at e E hk iter sid p h c = (ex, h', c')"
  shows "ex = None \<and>
    wd_world h' = sv_tick 1 ((wd_world h)\<lparr>sv_store :=
      snd (store_take (string_of p) (sv_now (wd_world h)) (sv_store (wd_world h)))\<rparr>) \<and>
    (case live (sv_now (wd_world h)) (sv_store (wd_world h)) (string_of p) of
       None \<Rightarrow> unauthenticated h' sid \<and> \<not> conn_open c'
     | Some v \<Rightarrow> authenticated_as h' sid (string_of v) \<and> c' = c)"
  using world_at_first [OF assms] .

theorem world_admission_witness:
  "(\<exists>h' c'. world_at Little_Endian demo_openssl [] demo_iter (0, 1) (bytes_of (to_hex demo_rnd)) demo_world_ann
     fresh_conn = (None, h', c') \<and> authenticated_as h' (0, 1) ''ann'' \<and> conn_open c' \<and>
     live 0 (sv_store (wd_world h')) (to_hex demo_rnd) = None) \<and>
   (\<exists>h' c'. world_at Little_Endian demo_openssl [] demo_iter (0, 1) (bytes_of ''none'') demo_world
     fresh_conn = (None, h', c') \<and> unauthenticated h' (0, 1) \<and> \<not> conn_open c')"
proof
  obtain ex h' c' where s: "world_at Little_Endian demo_openssl [] demo_iter (0, 1) (bytes_of (to_hex demo_rnd))
      demo_world_ann fresh_conn = (ex, h', c')" by (metis prod_cases3)
  have "sv_now (wd_world demo_world_ann) = 0" by (simp add: demo_world_ann_def)
  with world_admission [OF demo_crypto demo_world_ann_ok(1,4) s] s demo_world_ann_ok(5)
  show "\<exists>h' c'. world_at Little_Endian demo_openssl [] demo_iter (0, 1) (bytes_of (to_hex demo_rnd)) demo_world_ann
      fresh_conn = (None, h', c') \<and> authenticated_as h' (0, 1) ''ann'' \<and> conn_open c' \<and>
      live 0 (sv_store (wd_world h')) (to_hex demo_rnd) = None"
    by (simp add: live_take demo_facts)
next
  obtain ex h' c' where s: "world_at Little_Endian demo_openssl [] demo_iter (0, 1) (bytes_of ''none'')
      demo_world fresh_conn = (ex, h', c')" by (metis prod_cases3)
  from world_admission [OF demo_crypto demo_world_ok(3,2) s] s demo_world_none
  show "\<exists>h' c'. world_at Little_Endian demo_openssl [] demo_iter (0, 1) (bytes_of ''none'') demo_world
     fresh_conn = (None, h', c') \<and> unauthenticated h' (0, 1) \<and> \<not> conn_open c'" by simp
qed

text \<open>The token that Login stored for a username opens World under that username.\<close>

theorem token_opens_world:
  assumes "crypto_ok E hk" and "rpc_key_ok token" and "values_ok (sv_store (wd_world h))"
    and "unauthenticated h sid"
    and "live (sv_now (wd_world h)) (sv_store (wd_world h)) token = Some (bytes_of user)"
    and "world_at e E hk iter sid (bytes_of token) h c = (ex, h', c')"
  shows "ex = None \<and> authenticated_as h' sid user \<and> c' = c"
  using token_opens_world_core [OF assms] .

theorem token_opens_world_witness:
  "\<exists>h' c'. world_at Little_Endian demo_openssl [] demo_iter (0, 1) (bytes_of (to_hex demo_rnd))
     demo_world_ann fresh_conn = (None, h', c') \<and> authenticated_as h' (0, 1) ''ann''"
proof -
  obtain ex h' c' where s: "world_at Little_Endian demo_openssl [] demo_iter (0, 1)
      (bytes_of (to_hex demo_rnd)) demo_world_ann fresh_conn = (ex, h', c')" by (metis prod_cases3)
  from token_opens_world [OF demo_crypto demo_world_ann_ok(2-5) s] s show ?thesis by blast
qed

text \<open>C17: What a player is sent over a whole session. The first frame is a live token, and of the packets
  after it those with an opcode of two bytes, read in the byte order of the machine, that is 2 (a
  move) or 3 (a portal) are answered with their body, in order; all others, the pong, unknown
  opcodes and frames of one byte, are answered with nothing and end nothing. Where a write fails it is
  a beginning of that. At the end the session is closed and forgotten, and the token is gone.\<close>

theorem world_session_echoes:
  assumes "crypto_ok E hk" and "token_ok (wd_world h) tok" and "unauthenticated h sid"
    and "live (sv_now (wd_world h)) (sv_store (wd_world h)) (string_of tok) = Some v"
    and "\<And>k. \<not> idle_wins k" and "\<forall>p \<in> set (tok # ps). frame_fits m p" and "read_frame e m rest = None"
    and "conn_open c"
    and "session_run e m (world_handler e E hk (\<lambda>_. loopback e E hk iter) sid) idle_wins
      (concat (map (frame e) (tok # ps)) @ rest) h c = (h', c')"
    and "out = concat (map (\<lambda>p. frame e (drop 2 p))
      (filter (\<lambda>p. 2 \<le> length p \<and> (u16_of_mem e (take 2 p) = 2 \<or> u16_of_mem e (take 2 p) = 3)) ps))"
  shows "\<not> conn_open c' \<and> wd_sessions h' sid = None \<and>
    sv_store (wd_world h') = snd (store_take (string_of tok) (sv_now (wd_world h)) (sv_store (wd_world h))) \<and>
    (\<exists>n. sent c' = sent c @ take n out) \<and> (write_outcomes c = [] \<longrightarrow> sent c' = sent c @ out)"
proof -
  have "out = echoes e ps"
    unfolding assms(10) echoes_def by (simp add: echoed_def [abs_def])
  with world_session_core [OF assms(1-9)] show ?thesis by simp
qed

theorem world_session_echoes_witness:
  "\<exists>h' c'. session_run Little_Endian 65536
      (world_handler Little_Endian demo_openssl [] (\<lambda>_. loopback Little_Endian demo_openssl [] demo_iter) (0, 1))
      (\<lambda>_. False) (concat (map (frame Little_Endian) [bytes_of (to_hex demo_rnd), [2, 0, 9], [1, 0, 8], [7], [3, 0, 5, 6]]) @ [])
      demo_world_ann fresh_conn = (h', c') \<and>
    sent c' = frame Little_Endian [9] @ frame Little_Endian [5, 6]"
proof -
  let ?ps = "[[2, 0, 9], [1, 0, 8], [7], [3, 0, 5, 6]] :: bytes list"
  obtain h' c' where s: "session_run Little_Endian 65536
      (world_handler Little_Endian demo_openssl [] (\<lambda>_. loopback Little_Endian demo_openssl [] demo_iter) (0, 1))
      (\<lambda>_. False) (concat (map (frame Little_Endian) (bytes_of (to_hex demo_rnd) # ?ps)) @ [])
      demo_world_ann fresh_conn = (h', c')" by force
  have len: "length (bytes_of (to_hex demo_rnd)) = 32" by (simp add: length_to_hex demo_rnd_def)
  then have "bytes_of (to_hex demo_rnd) \<noteq> []" by (metis length_0_conv zero_neq_numeral)
  with len have fits: "\<forall>p \<in> set (bytes_of (to_hex demo_rnd) # ?ps). frame_fits 65536 p"
    by (auto simp: frame_fits_def)
  have none: "read_frame Little_Endian 65536 [] = None" by (simp add: read_frame_def kFrameHeaderSize_def)
  have live: "live (sv_now (wd_world demo_world_ann)) (sv_store (wd_world demo_world_ann))
      (string_of (bytes_of (to_hex demo_rnd))) = Some (bytes_of ''ann'')"
    using demo_world_ann_ok(5) by simp
  have opcodes: "u16_of_le [1, 0] = 1" "u16_of_le [2, 0] = 2" "u16_of_le [3, 0] = 3" by code_simp+
  have out: "frame Little_Endian [9] @ frame Little_Endian [5, 6] =
      concat (map (\<lambda>p. frame Little_Endian (drop 2 p)) (filter (\<lambda>p. 2 \<le> length p \<and>
        (u16_of_mem Little_Endian (take 2 p) = 2 \<or> u16_of_mem Little_Endian (take 2 p) = 3)) ?ps))"
    by (simp add: u16_of_mem_def opcodes)
  from world_session_echoes [OF demo_crypto demo_world_ann_ok(1,4) live _ fits none demo_facts(3) s out]
  have "sent c' = frame Little_Endian [9] @ frame Little_Endian [5, 6]"
    by (simp add: demo_facts)
  with s show ?thesis by auto
qed

section \<open>Master\<close>

text \<open>C18: Any message to Master is answered, with the error or with a redirection. The error leaves the
  store as it was, and is sent only if no key under the login prefix is live any more when the
  listing ends, or one that was live when it began holds no record of a Login. A redirection
  decodes to the address in the record of a key under that prefix that was live, and to a fresh ticket,
  and for \<open>ticket_ttl\<close> the store shows the ticket with an empty value, every other key as before.\<close>

theorem master_answers:
  assumes "ms_rand m (ms_draws m) = Some rnd" and "length rnd = 16"
    and "is_iteration iter" and "wf_store (sv_store (ms_sv m))"
    and "\<And>j. j < store_size (sv_store (ms_sv m)) \<Longrightarrow>
      t0 \<le> sv_clock (ms_sv m) (sv_ticks (ms_sv m) + j) \<and> sv_clock (ms_sv m) (sv_ticks (ms_sv m) + j) \<le> t1"
    and "conn_open c" and "write_outcomes c = []"
    and "master_on_message e iter ttl p m c = (ex, m', c')"
  shows "ex = None \<and> (\<exists>msg. sent c' = sent c @ frame e msg \<and>
    (if is_error e msg then
       sv_store (ms_sv m') = sv_store (ms_sv m) \<and>
       ((\<forall>key. key_has_prefix ''registry:login:'' key \<longrightarrow> live t1 (sv_store (ms_sv m)) key = None) \<or>
        (\<exists>key v. key_has_prefix ''registry:login:'' key \<and> live t0 (sv_store (ms_sv m)) key = Some v \<and>
           decode_login e v = None))
     else
       (\<exists>key v li. key_has_prefix ''registry:login:'' key \<and> live t0 (sv_store (ms_sv m)) key = Some v \<and>
          decode_login e v = Some li \<and>
          decode_redirect e msg =
            Some \<lparr>r_ticket = to_hex rnd, r_login_host = li_host li, r_login_port = li_port li\<rparr>) \<and>
       live t (sv_store (ms_sv m')) = (live t (sv_store (ms_sv m)))
         (to_hex rnd := if t < put_time (ms_sv m) + ttl * ns_per_second then Some [] else None)))"
proof -
  let ?pick = "pick_login e iter (sv_clock_from (ms_sv m)) (sv_store (ms_sv m))"
  have clk: "t0 \<le> sv_clock_from (ms_sv m) j \<and> sv_clock_from (ms_sv m) j \<le> t1"
    if "j < store_size (sv_store (ms_sv m))" for j
    using assms(5) [OF that] by (simp add: sv_clock_from_def)
  show ?thesis
  proof (cases ?pick)
    case None
    have "(\<forall>key. key_has_prefix ''registry:login:'' key \<longrightarrow> live t1 (sv_store (ms_sv m)) key = None) \<or>
        (\<exists>key v. key_has_prefix ''registry:login:'' key \<and> live t0 (sv_store (ms_sv m)) key = Some v \<and>
           decode_login e v = None)"
      by (rule pick_login_live(2) [OF assms(3,4) _ None, unfolded kLoginPrefix_def]) (rule clk)
    with master_error_core [OF None assms(6-8)] show ?thesis
      by (intro conjI exI [of _ "encode_master_error e"]) (simp_all add: is_error_error)
  next
    case (Some li)
    obtain key v where v: "key_has_prefix ''registry:login:'' key" "live t0 (sv_store (ms_sv m)) key = Some v"
        "decode_login e v = Some li"
      using pick_login_live(1) [OF assms(3,4) _ Some, of t0 t1, unfolded kLoginPrefix_def] clk by blast
    then have "length (li_host li) < 65536" by (simp add: decode_login_iff login_info_fits_def)
    moreover have "length (to_hex rnd) = 32" using assms(2) by (simp add: length_to_hex)
    ultimately have msg: "\<not> is_error e (encode_redirect e (to_hex rnd) (li_host li) (li_port li))"
      "decode_redirect e (encode_redirect e (to_hex rnd) (li_host li) (li_port li)) =
         Some \<lparr>r_ticket = to_hex rnd, r_login_host = li_host li, r_login_port = li_port li\<rparr>"
      by (simp_all add: is_error_redirect decode_encode_redirect)
    from master_redirect_core [OF Some assms(1,2,6-8), of t] v msg show ?thesis
      by (intro conjI exI [of _ "encode_redirect e (to_hex rnd) (li_host li) (li_port li)"]) auto
  qed
qed

theorem master_answers_witness:
  "\<exists>m' c' msg. master_on_message Little_Endian demo_iter 30 [1] demo_master fresh_conn = (None, m', c') \<and>
     sent c' = frame Little_Endian msg \<and> \<not> is_error Little_Endian msg \<and>
     live 0 (sv_store (ms_sv m')) (to_hex demo_rnd) = Some []"
proof -
  obtain ex m' c' where s: "master_on_message Little_Endian demo_iter 30 [1] demo_master fresh_conn =
      (ex, m', c')" by (metis prod_cases3)
  have rnd: "ms_rand demo_master (ms_draws demo_master) = Some demo_rnd" "length demo_rnd = 16"
    by (simp_all add: demo_master_def demo_rnd_def)
  have wf: "wf_store (sv_store (ms_sv demo_master))" and
    clk: "0 \<le> sv_clock (ms_sv demo_master) (sv_ticks (ms_sv demo_master) + j) \<and>
      sv_clock (ms_sv demo_master) (sv_ticks (ms_sv demo_master) + j) \<le> 0" for j
    by (simp_all add: demo_master_def server_at_def)
  let ?key = "login_registry_key default_args"
  have k: "live 0 (sv_store (ms_sv demo_master)) key =
      (if key = ?key then Some (login_announcement Little_Endian default_args) else None)" for key
    by (simp add: demo_master_def server_at_def live_put ns_per_second_def)
  have "decode_login Little_Endian (login_announcement Little_Endian default_args) \<noteq> None"
    by (simp add: login_announcement_def login_info_fits_def default_args_def)
  moreover have "key_has_prefix ''registry:login:'' ?key"
    using login_registry_key_prefix by (simp add: kLoginPrefix_def)
  ultimately show ?thesis
    using master_answers [OF rnd demo_iteration wf clk demo_facts(3,4) s, of 0] s
    by (auto simp: k demo_master_time ns_per_second_def demo_facts split: if_splits)
qed

text \<open>Where the registry holds one Login whose last heartbeat is still within its time to live,
  Master picks exactly the address that this Login was started to announce.\<close>

theorem announced_login_is_picked:
  assumes "is_iteration iter" and "wf_store s" and "length (a_advertise_host a) < 65536"
    and "\<And>j. t \<le> clk j" and "\<And>j. clk j \<le> t'"
    and "live t' s (login_registry_key a) = Some (login_announcement e a)"
    and "\<And>key v. key_has_prefix kLoginPrefix key \<Longrightarrow> live t s key = Some v \<Longrightarrow>
      key = login_registry_key a"
  shows "pick_login e iter clk s = Some \<lparr>li_host = a_advertise_host a, li_port = kLoginPort\<rparr>"
  using announced_login_picked [OF assms] .

theorem announced_login_is_picked_witness:
  "pick_login Little_Endian demo_iter (\<lambda>_. 0)
     (store_put (login_registry_key default_args) (login_announcement Little_Endian default_args) 15 0
        empty_store) = Some \<lparr>li_host = ''127.0.0.1'', li_port = kLoginPort\<rparr>"
proof -
  let ?s = "store_put (login_registry_key default_args) (login_announcement Little_Endian default_args)
    15 0 empty_store"
  have "live 0 ?s (login_registry_key default_args) = Some (login_announcement Little_Endian default_args)"
    "live 0 ?s key = Some v \<Longrightarrow> key = login_registry_key default_args" for key v
    by (simp_all add: live_put ns_per_second_def split: if_splits)
  moreover have "a_advertise_host default_args = ''127.0.0.1''" by (simp add: default_args_def)
  ultimately show ?thesis
    using announced_login_is_picked [OF demo_iteration, of ?s default_args 0 "\<lambda>_. 0" 0 Little_Endian]
    by simp
qed

section \<open>The store\<close>

text \<open>C8: The store under its threads. Whatever threads call it, and however their steps under
  \<open>mutex_\<close> interleave, each thread's history is a call, its effect and its answer in turn; the
  effects, in their order, are the atomic operations, one after the other, with the answers given,
  at times that do not run backwards, and leave the table that is in memory whenever no writer is in
  it. No thread uses an iterator whose entry is gone, and nobody is in the table beside a writer.\<close>

theorem store_linearizable:
  assumes "table_run (table_start t) log s"
  shows "(\<forall>i. call_phase i log \<noteq> Broken) \<and> history_ok log (tb_now s) \<and>
    (\<exists>st. replay (commits log) empty_store = Some st \<and> (tb_writer s = None \<longrightarrow> tb_store s = st)) \<and>
    (\<forall>i. tb_at s i \<noteq> Dangling \<and> (writes (tb_at s i) \<longrightarrow> (\<forall>j. j \<noteq> i \<longrightarrow> pc_call (tb_at s j) = None)))"
  using linearizable_core [OF assms] in_table_core [OF assms] by blast

theorem store_linearizable_witness:
  "\<exists>log s st. table_run (table_start 0) log s \<and> replay (commits log) empty_store = Some st \<and>
     map cm_answer (commits log) =
       [Put_Answer, List_Answer [(''k'', [7])], Take_Answer (Some [7]), Take_Answer None]"
proof -
  obtain log s where run: "table_run (table_start 0) log s"
    "map cm_answer (commits log) =
       [Put_Answer, List_Answer [(''k'', [7])], Take_Answer (Some [7]), Take_Answer None]"
    by (rule demo_race_runs)
  from store_linearizable [OF run(1)] obtain st where "replay (commits log) empty_store = Some st" by auto
  with run show ?thesis by (intro exI conjI)
qed

text \<open>C19: The answers that the threads get are those of the map from keys to a value and an expiry
  time, in the order of the effects; and a key is taken with success at most as often as it was
  put, however close the takes of several threads come.\<close>

theorem concurrent_store_refines_spec:
  assumes "table_run (table_start t) log s"
  shows "spec_answers (commits log) = fst (run_steps spec_step (spec_commands (commits log)) Map.empty) \<and>
    length (filter (cm_took key) (commits log)) \<le> length (filter (cm_puts key) (commits log))"
  using concurrent_spec_core [OF assms] concurrent_single_use_core [OF assms] by blast

theorem concurrent_store_refines_spec_witness:
  "\<exists>log s. table_run (table_start 0) log s \<and> length (filter (cm_took ''k'') (commits log)) = 1 \<and>
     1 \<le> length (filter (cm_puts ''k'') (commits log))"
proof -
  obtain log s where run: "table_run (table_start 0) log s"
    "length (filter (cm_took ''k'') (commits log)) = 1"
    by (rule demo_race_runs)
  with concurrent_store_refines_spec [OF run(1), of "''k''"] show ?thesis by (metis (no_types))
qed

text \<open>C21: The mutex does not lock up: from every state that the threads can reach, each thread that
  has called an operation of the store can be brought to its return.\<close>

theorem store_calls_return:
  assumes "table_run (table_start t) log s" and "tb_at s i \<noteq> Away"
  shows "\<exists>log' s' r. table_run s log' s' \<and> Answered i r \<in> set log'"
  using call_returns_core [OF assms] .

theorem store_calls_return_witness:
  "\<exists>log s log' s' r. table_run (table_start 0) log s \<and> table_run s log' s' \<and> Answered 1 r \<in> set log'"
proof -
  obtain log s where run: "table_run (table_start 0) log s"
    "tb_at s 1 = Leaving (Do_Take ''k'') (Take_Answer None)"
    by (rule demo_race_runs)
  have "tb_at s 1 \<noteq> Away" using run(2) by simp
  from store_calls_return [OF run(1) this] run(1) show ?thesis by blast
qed

text \<open>In whatever order the commands of its clients reach it, at times that do not run backwards,
  \<open>SharedStore\<close> answers as a map from keys to a value and an expiry time would; sweeps are not
  observable.\<close>

theorem store_refines_spec:
  assumes "wf_store s" and "timed t cs"
    and "\<forall>p \<in> set cs. cmd_ok (\<lambda>_ _ _. True) (\<lambda>_. True) shared_sweep_ok p"
  shows "fst (run_steps (store_step store_put shared_get store_take shared_sweep) cs s) =
    fst (run_steps spec_step cs (store_abs s))"
  using shared.run_refines [OF shared_sim [OF assms(1)] assms(2,3)] by (simp add: shared.stp_def)

theorem store_refines_spec_witness:
  "fst (run_steps (store_step store_put shared_get store_take shared_sweep)
      [(0, Cmd_Put ''k'' [1] 5), (1, Cmd_Get ''k''), (2, Cmd_Sweep (demo_iter, \<lambda>_. 2)), (3, Cmd_Take ''k''),
       (3, Cmd_Take ''k'')] empty_store) =
    [(Cmd_Put ''k'' [1] 5, None), (Cmd_Get ''k'', Some [1]), (Cmd_Sweep (demo_iter, \<lambda>_. 2), None),
     (Cmd_Take ''k'', Some [1]), (Cmd_Take ''k'', None)]"
  by (subst store_refines_spec [where t = 0])
    (simp_all add: cmd_ok_def shared_sweep_ok_def demo_iteration spec_look_def ns_per_second_def)

text \<open>A key that is not put again is taken at most once, whoever takes it and however the takes
  interleave with other commands.\<close>

theorem store_single_use:
  assumes "wf_store s" and "timed t cs"
    and "\<forall>p \<in> set cs. cmd_ok (\<lambda>_ _ _. True) (\<lambda>_. True) shared_sweep_ok p"
    and "\<forall>(t', c) \<in> set cs. \<not> puts key c"
  shows "length (filter (took key)
    (fst (run_steps (store_step store_put shared_get store_take shared_sweep) cs s))) \<le> 1"
  using shared.run_single_use [OF shared_sim [OF assms(1)] assms(2-4)] by (simp add: shared.stp_def)

theorem store_single_use_witness:
  "length (filter (took ''k'') (fst (run_steps
     (store_step store_put shared_get store_take shared_sweep)
     [(1, Cmd_Take ''k'' :: (iteration \<times> (nat \<Rightarrow> time)) store_cmd), (1, Cmd_Take ''k''), (2, Cmd_Get ''k'')]
     (store_put ''k'' [1] 5 0 empty_store)))) \<le> 1"
  by (rule store_single_use [where t = 0]) (simp_all add: cmd_ok_def)

text \<open>C20: The store reached over the network, through the wire format, its signatures, the framing and
  the session of the internal server, answers its clients as the same map.\<close>

theorem remote_store_refines_spec:
  assumes "remote_inv E hk s" and "timed t cs"
    and "\<forall>p \<in> set cs. cmd_ok rpc_put_ok rpc_key_ok shared_sweep_ok p"
  shows "fst (run_steps (store_step (remote_put e E hk iter) (remote_get e E hk iter)
      (remote_take e E hk iter) shared_sweep) cs s) =
    fst (run_steps spec_step cs (store_abs s))"
proof -
  have "wf_store s" using assms(1) by (simp add: remote_inv_def)
  then have "remote.sim E hk t s (store_abs s)"
    using shared_sim [of s t] assms(1) by (simp add: remote.sim_def shared.sim_def)
  from remote.run_refines [OF this assms(2,3)] show ?thesis by (simp add: remote.stp_def)
qed

theorem remote_store_refines_spec_witness:
  "fst (run_steps (store_step (remote_put Little_Endian demo_openssl [] demo_iter)
      (remote_get Little_Endian demo_openssl [] demo_iter)
      (remote_take Little_Endian demo_openssl [] demo_iter) shared_sweep)
      [(0, Cmd_Put ''k'' [1] 5), (1, Cmd_Get ''k''), (3, Cmd_Take ''k''), (3, Cmd_Take ''k'')] empty_store) =
    [(Cmd_Put ''k'' [1] 5, None), (Cmd_Get ''k'', Some [1]), (Cmd_Take ''k'', Some [1]),
     (Cmd_Take ''k'', None)]"
proof -
  have "remote_inv demo_openssl [] empty_store"
    by (simp add: remote_inv_def demo_crypto values_ok_def all_values_def) (simp add: empty_store_def)
  then show ?thesis
    by (subst remote_store_refines_spec [where t = 0])
      (simp_all add: cmd_ok_def rpc_put_ok_def rpc_key_ok_def spec_look_def ns_per_second_def)
qed

text \<open>A ticket or a token is taken at most once by all the processes that reach the store over the
  network.\<close>

theorem remote_single_use:
  assumes "remote_inv E hk s" and "timed t cs"
    and "\<forall>p \<in> set cs. cmd_ok rpc_put_ok rpc_key_ok shared_sweep_ok p"
    and "\<forall>(t', c) \<in> set cs. \<not> puts key c"
  shows "length (filter (took key)
    (fst (run_steps (store_step (remote_put e E hk iter) (remote_get e E hk iter)
      (remote_take e E hk iter) shared_sweep) cs s))) \<le> 1"
proof -
  have "wf_store s" using assms(1) by (simp add: remote_inv_def)
  then have "remote.sim E hk t s (store_abs s)"
    using shared_sim [of s t] assms(1) by (simp add: remote.sim_def shared.sim_def)
  from remote.run_single_use [OF this assms(2-4)] show ?thesis by (simp add: remote.stp_def)
qed

theorem remote_single_use_witness:
  "length (filter (took ''k'') (fst (run_steps
     (store_step (remote_put Little_Endian demo_openssl [] demo_iter)
      (remote_get Little_Endian demo_openssl [] demo_iter)
      (remote_take Little_Endian demo_openssl [] demo_iter) shared_sweep)
     [(1, Cmd_Take ''k''), (1, Cmd_Take ''k''), (2, Cmd_Get ''k'')] empty_store))) \<le> 1"
proof -
  have "remote_inv demo_openssl [] empty_store"
    by (simp add: remote_inv_def demo_crypto values_ok_def all_values_def) (simp add: empty_store_def)
  then show ?thesis
    by (rule remote_single_use [where t = 0]) (simp_all add: cmd_ok_def rpc_key_ok_def)
qed

text \<open>C22: A sweep between \<open>t0\<close> and \<open>t\<close> removes no entry that lives at \<open>t\<close>, leaves none that had
  expired at \<open>t0\<close>, and returns the number of entries it removed.\<close>

theorem sweep_exact:
  assumes "is_iteration iter" and "wf_store s" and "\<And>j. t0 \<le> clk j" and "\<And>j. clk j \<le> t"
    and "sweep_expired iter clk s = (removed, s')"
  shows "live t s' = live t s \<and> (\<forall>(key, en) \<in> set (entries s'). \<not> is_expired t0 en) \<and>
    removed + store_size s' = store_size s \<and> wf_store s'"
proof -
  obtain kept n where loop: "sweep_loop clk 0 (iter (entries s)) = (kept, n)" by force
  then have "entries s' = kept" using assms(5) by (auto simp: sweep_expired_def)
  then have "\<forall>(key, en) \<in> set (entries s'). \<not> is_expired t0 en"
    using sweep_loop_fresh [OF loop assms(3)] by simp
  then show ?thesis
    using live_sweep [OF assms(1,2), of clk t] assms(4) wf_store_sweep [OF assms(1,2), of clk]
      sweep_count [OF assms(1,5)] assms(5) by simp
qed

theorem sweep_exact_witness:
  "\<exists>removed s'. sweep_expired demo_iter (\<lambda>_. 7000000000)
     (store_put ''b'' [2] 9 0 (store_put ''a'' [1] 5 0 empty_store)) = (removed, s') \<and>
     live 7000000000 s' ''b'' = Some [2] \<and> removed + store_size s' = 2"
proof -
  let ?s = "store_put ''b'' [2] 9 0 (store_put ''a'' [1] 5 0 empty_store)"
  obtain n s' where s: "sweep_expired demo_iter (\<lambda>_. 7000000000) ?s = (n, s')" by force
  have "store_size ?s = 2" by (simp add: store_size_def store_put_def empty_store_def)
  moreover have "live 7000000000 ?s ''b'' = Some [2]" by (simp add: live_put ns_per_second_def)
  ultimately show ?thesis
    using sweep_exact [OF demo_iteration _ _ _ s, of 7000000000 7000000000] s by simp
qed

text \<open>The listing by prefix returns exactly the live keys with the prefix, with their values.\<close>

theorem list_prefix_exact:
  assumes "is_iteration iter" and "wf_store s"
  shows "(key, v) \<in> set (store_list_prefix iter (\<lambda>_. t) prefix s) \<longleftrightarrow>
    key_has_prefix prefix key \<and> live t s key = Some v"
  using list_prefix_sound [OF assms, of t "\<lambda>_. t" key v prefix]
    list_prefix_complete [OF assms, of "\<lambda>_. t" t prefix key v] by blast

theorem list_prefix_exact_witness:
  "(''reg:a'', [1]) \<in> set (store_list_prefix demo_iter (\<lambda>_. 0) ''reg:'' (store_put ''reg:a'' [1] 5 0 empty_store))"
  by (subst list_prefix_exact [OF demo_iteration])
    (simp_all add: key_has_prefix_def live_put ns_per_second_def)

section \<open>The registry\<close>

text \<open>C23: After a beat of the heartbeat, and as long as nobody else writes the entry, the store shows the
  value of that beat for exactly the time to live, and nothing afterwards. The loop goes on unless
  its timer failed.\<close>

theorem heartbeat_keeps_alive:
  assumes "crypto_ok E hk" and "rpc_put_ok key (beat_value b) ttl"
    and "beat_net b = loopback e E hk iter" and "leaves_alone key (beat_wait b)"
    and "heartbeat_loop e E hk key ttl bs sv = (Running, sv1)"
    and "heartbeat_loop e E hk key ttl (bs @ [b]) sv = (res, sv2)"
  shows "res = (if beat_timer_ok b then Running else Stopped) \<and>
    live t (sv_store sv2) key =
      (if t < sv_now sv1 + ttl * ns_per_second then Some (beat_value b) else None)"
  using heartbeat_last_beat [OF assms] .

theorem heartbeat_keeps_alive_witness:
  "\<exists>sv. heartbeat_loop Little_Endian demo_openssl [] ''registry:login:a'' 15
     [\<lparr>beat_net = loopback Little_Endian demo_openssl [] demo_iter, beat_value = [7],
       beat_wait = (\<lambda>w. w), beat_timer_ok = True\<rparr>] (server_at 0 empty_store) = (Running, sv) \<and>
     live 14000000000 (sv_store sv) ''registry:login:a'' = Some [7] \<and>
     live 15000000000 (sv_store sv) ''registry:login:a'' = None"
proof -
  let ?b = "\<lparr>beat_net = loopback Little_Endian demo_openssl [] demo_iter, beat_value = [7],
       beat_wait = (\<lambda>w. w), beat_timer_ok = True\<rparr>"
  obtain res sv where s: "heartbeat_loop Little_Endian demo_openssl [] ''registry:login:a'' 15 ([] @ [?b])
      (server_at 0 empty_store) = (res, sv)" by force
  have ok: "rpc_put_ok ''registry:login:a'' (beat_value ?b) 15" "leaves_alone ''registry:login:a'' (beat_wait ?b)"
    by (simp_all add: rpc_put_ok_def leaves_alone_def)
  have "res = Running \<and> live t (sv_store sv) ''registry:login:a'' = (if t < 15000000000 then Some [7] else None)" for t
    using heartbeat_keeps_alive [OF demo_crypto ok(1) _ ok(2) _ s, of demo_iter "server_at 0 empty_store" t]
    by (simp add: ns_per_second_def)
  with s show ?thesis by simp
qed

text \<open>C24: Over the network, Login reads exactly the announced worlds and leaves the store as it was:
  the records of a list of distinct keys under the world prefix, each live when the listing begins,
  among them every key that is still live when it ends; a value that is no record is left out.\<close>

theorem list_worlds_exact:
  assumes "crypto_ok E hk" and "is_iteration iter" and "wf_store (sv_store sv)"
    and "\<And>j. j < store_size (sv_store sv) \<Longrightarrow>
      t0 \<le> sv_clock sv (sv_ticks sv + j) \<and> sv_clock sv (sv_ticks sv + j) \<le> t1"
    and "listing_fits (world_listing iter sv)"
  shows "\<exists>es. list_worlds e E hk (loopback e E hk iter) sv =
      (Inr (List.map_filter (\<lambda>(k, v). decode_world e v) es), sv_tick (store_size (sv_store sv)) sv) \<and>
    distinct (map fst es) \<and>
    (\<forall>(key, v) \<in> set es. key_has_prefix ''registry:world:'' key \<and> live t0 (sv_store sv) key = Some v) \<and>
    (\<forall>key v. key_has_prefix ''registry:world:'' key \<and> live t1 (sv_store sv) key = Some v \<longrightarrow> (key, v) \<in> set es)"
proof (intro exI conjI)
  let ?es = "world_listing iter sv"
  show "list_worlds e E hk (loopback e E hk iter) sv =
      (Inr (List.map_filter (\<lambda>(k, v). decode_world e v) ?es), sv_tick (store_size (sv_store sv)) sv)"
    using assms(5) unfolding listing_fits_def
    by (intro list_worlds_loopback [OF assms(1) world_listing_def]) simp_all
  show "distinct (map fst ?es)"
    unfolding world_listing_def by (rule list_prefix_live(1) [OF assms(2,3)]) (rule assms(4))
  show "\<forall>(key, v) \<in> set ?es. key_has_prefix ''registry:world:'' key \<and> live t0 (sv_store sv) key = Some v"
    using list_prefix_live(2) [OF assms(2,3), of t0 "\<lambda>j. sv_clock sv (sv_ticks sv + j)" t1] assms(4)
    unfolding world_listing_def kWorldPrefix_def by blast
  show "\<forall>key v. key_has_prefix ''registry:world:'' key \<and> live t1 (sv_store sv) key = Some v \<longrightarrow> (key, v) \<in> set ?es"
    using list_prefix_live(3) [OF assms(2,3), of t0 "\<lambda>j. sv_clock sv (sv_ticks sv + j)" t1] assms(4)
    unfolding world_listing_def kWorldPrefix_def by blast
qed

theorem list_worlds_exact_witness:
  "\<exists>ws. list_worlds Little_Endian demo_openssl [] (loopback Little_Endian demo_openssl [] demo_iter)
     (server_at 0 (store_put ''registry:world:a'' (encode_world_info Little_Endian
        \<lparr>wi_host = ''h'', wi_port = 8085, wi_name = ''W'', wi_population = 3\<rparr>) 15 0 empty_store)) =
   (Inr ws, sv_tick 1 (server_at 0 (store_put ''registry:world:a'' (encode_world_info Little_Endian
        \<lparr>wi_host = ''h'', wi_port = 8085, wi_name = ''W'', wi_population = 3\<rparr>) 15 0 empty_store))) \<and>
   \<lparr>wi_host = ''h'', wi_port = 8085, wi_name = ''W'', wi_population = 3\<rparr> \<in> set ws"
proof -
  let ?i = "\<lparr>wi_host = ''h'', wi_port = 8085, wi_name = ''W'', wi_population = 3\<rparr>"
  let ?v = "encode_world_info Little_Endian ?i"
  let ?sv = "server_at 0 (store_put ''registry:world:a'' ?v 15 0 empty_store)"
  have list: "world_listing demo_iter ?sv = [(''registry:world:a'', ?v)]"
    by (simp add: world_listing_def store_list_prefix_def demo_iter_def store_put_def empty_store_def server_at_def
        is_expired_def key_has_prefix_def kWorldPrefix_def ns_per_second_def)
  have "length ?v = 12" by (simp add: body_infos)
  then have fits: "listing_fits (world_listing demo_iter ?sv)"
    by (simp add: list listing_fits_def list_fits_def list_bytes_def kMaxResponseBytes_def)
  have wf: "wf_store (sv_store ?sv)" and clk: "0 \<le> sv_clock ?sv (sv_ticks ?sv + j) \<and> sv_clock ?sv (sv_ticks ?sv + j) \<le> 0" for j
    by (simp_all add: server_at_def)
  have size: "store_size (sv_store ?sv) = 1"
    by (simp add: store_size_def store_put_def empty_store_def)
  have live: "live 0 (sv_store ?sv) ''registry:world:a'' = Some ?v" "key_has_prefix ''registry:world:'' ''registry:world:a''"
    by (simp_all add: live_put ns_per_second_def key_has_prefix_def)
  from list_worlds_exact [OF demo_crypto demo_iteration wf clk fits, of Little_Endian "[]"] size live
  obtain es where es: "list_worlds Little_Endian demo_openssl [] (loopback Little_Endian demo_openssl [] demo_iter) ?sv =
      (Inr (List.map_filter (\<lambda>(k, v). decode_world Little_Endian v) es), sv_tick 1 ?sv)"
    "(''registry:world:a'', ?v) \<in> set es" by auto
  have "decode_world Little_Endian ?v = Some ?i"
    by (rule decode_world_encode) (simp add: world_info_fits_def)
  then have "?i \<in> set (List.map_filter (\<lambda>(k, v). decode_world Little_Endian v) es)"
    using es(2) by (force simp: List.map_filter_def)
  with es(1) show ?thesis by blast
qed

section \<open>The wire\<close>

text \<open>C25: A login message is accepted exactly when it starts with the encoding of a message whose
  fields fit their widths, and it decodes to that message.\<close>

theorem login_codec_exact:
  "login_decode e bs = Some d \<longleftrightarrow>
     (\<exists>m rest. login_msg_fits m \<and> bs = encode_login_msg e m @ rest \<and> d = decoded_login_msg m)"
  using login_decode_only_encodings [of e bs d] by (auto simp: login_decode_encode)

text \<open>C26: What the store does for a message is signed: unless the message is a body followed by the
  MAC of that body under the shared key, the store is left as it was and nothing is sent; and where
  the table changes, it is by the put or the take that the body encodes.\<close>

theorem store_accepts_only_signed:
  assumes "openssl_documented E" and "store_on_message e E hk iter msg sv c = (ex, sv', c')"
    and "sv' \<noteq> sv \<or> c' \<noteq> c"
  shows "\<exists>body mac d. msg = body @ mac \<and> hmac_sha256 E hk body = Inr mac \<and> decode_body e body = Some d \<and>
    (sv_store sv' \<noteq> sv_store sv \<longrightarrow>
       d_op d = Op_Put \<and> sv_store sv' =
         store_put (d_key d) (d_value d) (uint (d_ttl_seconds d)) (sv_now sv) (sv_store sv) \<or>
       d_op d = Op_Take \<and> sv_store sv' = snd (store_take (d_key d) (sv_now sv) (sv_store sv)))"
  using store_signed_core [OF assms] .

theorem store_accepts_only_signed_witness:
  "\<exists>msg body mac ex sv' c'. encode_get_or_take Little_Endian demo_openssl Op_Take [3] ''k'' = Inr msg \<and>
     store_on_message Little_Endian demo_openssl [3] demo_iter msg (server_at 0 empty_store) fresh_conn = (ex, sv', c') \<and>
     msg = body @ mac \<and> hmac_sha256 demo_openssl [3] body = Inr mac"
proof -
  obtain msg where msg: "encode_get_or_take Little_Endian demo_openssl Op_Take [3] ''k'' = Inr msg"
    using encoders_available(2) [OF demo_available(1)] by blast
  obtain resp where resp: "encode_not_found Little_Endian demo_openssl [3] = Inr resp"
    using encoders_available(4) [OF demo_available(1)] by blast
  have "decode_and_verify Little_Endian demo_openssl [3] msg = Inr (Some ((decoded_init Op_Take)\<lparr>d_key := ''k''\<rparr>))"
    by (rule get_or_take_roundtrip [OF demo_openssl_documented msg]) simp_all
  then have s: "store_on_message Little_Endian demo_openssl [3] demo_iter msg (server_at 0 empty_store) fresh_conn =
      (None, sv_tick 1 (server_at 0 empty_store), session_send Little_Endian resp fresh_conn)"
    by (simp add: store_on_message_def decoded_init_def reply_with_def resp store_take_def empty_store_def server_at_def)
  have "sv_tick 1 (server_at 0 empty_store) \<noteq> server_at 0 empty_store"
    by (simp add: sv_tick_def server_at_def)
  with store_accepts_only_signed [OF demo_openssl_documented s] msg s show ?thesis by blast
qed

text \<open>A request to put a value, encoded and signed by the client, is decoded by the server to the
  same key, value and time to live.\<close>

theorem put_request_roundtrip:
  assumes "openssl_documented E" and "encode_put e E hk key val ttl = Inr msg"
    and "length key < 65536" and "length val < 4294967296"
  shows "decode_and_verify e E hk msg =
    Inr (Some ((decoded_init Op_Put)\<lparr>d_key := key, d_value := val, d_ttl_seconds := ttl\<rparr>))"
  using put_roundtrip [OF assms] .

theorem put_request_roundtrip_witness:
  "\<exists>msg. encode_put Big_Endian demo_openssl [3] ''key'' [1, 2] 30 = Inr msg \<and>
     decode_and_verify Big_Endian demo_openssl [3] msg =
       Inr (Some ((decoded_init Op_Put)\<lparr>d_key := ''key'', d_value := [1, 2], d_ttl_seconds := 30\<rparr>))"
proof -
  obtain msg where msg: "encode_put Big_Endian demo_openssl [3] ''key'' [1, 2] 30 = Inr msg"
    using encoders_available(1) [OF demo_available(1)] by blast
  from put_request_roundtrip [OF demo_openssl_documented msg] msg show ?thesis by simp
qed

text \<open>C27: A frame is read exactly when the stream starts with the frame of a non-empty message within
  the limit, and what is read is that message; hosts of either byte order agree on frames.\<close>

theorem framing_exact:
  "(read_frame e m bs = Some (p, rest) \<longleftrightarrow> frame_fits m p \<and> bs = frame e p @ rest) \<and>
   frame e p = frame e' p"
  using frames.dec_iff [of e m bs p rest] frame_host_independent [of e p e'] by simp

text \<open>A session whose idle timer never wins is its handler applied to the messages of the stream,
  one after the other until one throws or closes; then the handler is told of the end and the
  socket is closed.\<close>

theorem session_is_feed:
  assumes "\<And>k. \<not> idle_wins k" and "\<forall>p \<in> set ps. frame_fits m p" and "read_frame e m rest = None"
    and "on_connect H h c = (None, h0, c0)" and "feed H ps h0 c0 = (h1, c1)"
  shows "session_run e m H idle_wins (concat (map (frame e) ps) @ rest) h c =
    (on_disconnect H h1, session_close c1)"
  using run_loop_feed [OF assms(1-3), where H = H and h = h0 and c = c0 and k = 0] assms(4,5)
  by (simp add: session_run_def)

theorem session_is_feed_witness:
  "session_run Little_Endian 16
     \<lparr>on_connect = (\<lambda>h c. (None, h, c)), on_message = (\<lambda>p h c. (None, p # h, c)), on_disconnect = rev\<rparr>
     (\<lambda>_. False) (concat (map (frame Little_Endian) [[1], [2, 3]]) @ [0, 0]) [] fresh_conn =
   ([[1], [2, 3]], session_close fresh_conn)"
    (is "session_run _ _ ?H _ _ _ _ = _")
  using session_is_feed [of "\<lambda>_. False" "[[1], [2, 3]]" 16 Little_Endian "[0, 0]" ?H "[]" fresh_conn "[]"
      fresh_conn "[[2, 3], [1]]" fresh_conn]
  by (simp add: frame_fits_def read_frame_def kFrameHeaderSize_def demo_facts)

text \<open>C28: On a clock, where the idle timer is set at the start of each turn and does not run while the
  handler works, a session is closed one timeout after the last byte or the end of the stream at
  the latest, but for the time its handlers take; and however its peer spaces the bytes, it lasts
  no longer than one timeout for each frame it can be sent and one more. What it does is what
  \<open>session_run\<close> does for some outcome of the races between frame and timer.\<close>

theorem session_deadline:
  assumes "\<And>j. 0 \<le> busy j" and "0 \<le> T"
    and "\<forall>(t, b) \<in> set inp. t \<le> latest" and "\<And>t. fin = Some t \<Longrightarrow> t \<le> latest"
    and "session_timed e m H T busy tie start connecting inp fin h c = (h', c', t)"
  shows "\<not> conn_open c' \<and> t \<le> max (start + connecting) latest + (\<Sum>j<length inp. busy j) + T \<and>
    t \<le> start + connecting + (\<Sum>j<length inp div 5. T + busy j) + T \<and>
    (\<exists>idle_wins. session_run e m H idle_wins (map snd inp) h c = (h', c'))"
  using session_timed_core [OF assms] .

theorem session_deadline_witness:
  "\<exists>h' c' t. session_timed Little_Endian 16
     \<lparr>on_connect = (\<lambda>h c. (None, h, c)), on_message = (\<lambda>p h c. (None, p # h, c)), on_disconnect = rev\<rparr>
     10 (\<lambda>_. 0) (\<lambda>_. True) 0 0 [(2, 0), (4, 0), (6, 0), (100, 1)] None [] fresh_conn = (h', c', t) \<and>
     \<not> conn_open c' \<and> t \<le> 10"
    (is "\<exists>h' c' t. ?run = (h', c', t) \<and> _ c' t")
proof -
  obtain h' c' t where run: "?run = (h', c', t)" by (metis prod_cases3)
  have "\<not> conn_open c' \<and> t \<le> 10"
    using session_deadline [OF _ _ _ _ run, of 100] by simp
  with run show ?thesis by blast
qed

text \<open>C29: Where all the frames of a peer have come before one timeout after its connection, the session
  handles every one of them, in order, however long the handler works on each, until one throws or
  closes.\<close>

theorem frames_in_time_are_handled:
  assumes "\<And>j. 0 \<le> busy j" and "0 \<le> T" and "\<forall>p \<in> set ps. frame_fits m p"
    and "map snd inp = concat (map (frame e) ps)" and "\<forall>(t, b) \<in> set inp. t < start + connecting + T"
    and "on_connect H h c = (None, h1, c1)" and "feed H ps h1 c1 = (h2, c2)"
    and "session_timed e m H T busy tie start connecting inp fin h c = (h', c', t)"
  shows "h' = on_disconnect H h2 \<and> c' = session_close c2"
  using session_timed_feeds [OF assms] .

theorem frames_in_time_are_handled_witness:
  "\<exists>c' t. session_timed Little_Endian 16
     \<lparr>on_connect = (\<lambda>h c. (None, h, c)), on_message = (\<lambda>p h c. (None, p # h, c)), on_disconnect = rev\<rparr>
     10 (\<lambda>_. 50) (\<lambda>_. True) 0 0 (zip [0..9] (frame Little_Endian [7] @ frame Little_Endian [8])) None [] fresh_conn =
     ([[7], [8]], c', t)"
    (is "\<exists>c' t. session_timed ?e ?m ?H ?T ?busy ?tie ?start ?con ?inp None [] fresh_conn = (_, c', t)")
proof -
  obtain h' c' t where run: "session_timed ?e ?m ?H ?T ?busy ?tie ?start ?con ?inp None [] fresh_conn = (h', c', t)"
    by (metis prod_cases3)
  have bytes: "map snd ?inp = concat (map (frame Little_Endian) [[7], [8]])" by simp
  have times: "\<forall>(t, b) \<in> set ?inp. t < 0 + 0 + 10" by (auto dest: set_zip_leftD)
  have fits: "\<forall>p \<in> set [[7], [8]]. frame_fits 16 p" by (simp add: frame_fits_def)
  have fed: "feed ?H [[7], [8]] [] fresh_conn = ([[8], [7]], fresh_conn)" by (simp add: demo_facts)
  have "h' = [[7], [8]]"
    using frames_in_time_are_handled [OF _ _ fits bytes times _ fed run] by simp
  with run show ?thesis by blast
qed

text \<open>C36: The records of the registry, of a Login and of a World, decode exactly where the bytes begin with
  what was published for them, with texts that fit their lengths, and to that record.\<close>

theorem registry_records_exact:
  "(decode_login e bs = Some li \<longleftrightarrow>
     length (li_host li) < 65536 \<and> (\<exists>rest. bs = encode_login_info e li @ rest)) \<and>
   (decode_world e bs = Some wi \<longleftrightarrow>
     length (wi_host wi) < 65536 \<and> length (wi_name wi) < 65536 \<and> (\<exists>rest. bs = encode_world_info e wi @ rest))"
  unfolding decode_login_iff decode_world_iff login_info_fits_def world_info_fits_def by simp

section \<open>Accounts\<close>

text \<open>C30: Whatever the threads of the process do, whatever fails in the database, and in whatever order
  their calls reach it, a username is registered at most once.\<close>

theorem account_registered_once:
  assumes "sqlite_documented Q rows" and "\<forall>tc \<in> set tcs. cmd_fits (snd tc)"
  shows "length (filter (registered u)
    (fst (run_accounts (sqlite_account_repository Q now) tcs r))) \<le> 1"
  using sqlite_accounts.registered_once [OF assms] .

theorem account_registered_once_witness:
  "length (filter (registered ''ann'') (fst (run_accounts (sqlite_account_repository demo_sqlite 0)
     [(0, Cmd_Create \<lparr>ac_username = ''ann'', ac_salt = [1], ac_verifier = [2]\<rparr>),
      (1, Cmd_Create \<lparr>ac_username = ''ann'', ac_salt = [3], ac_verifier = [4]\<rparr>)]
     \<lparr>db_path = [], rp_db = ([], False), rp_open = {}\<rparr>))) \<le> 1"
  by (rule account_registered_once [OF demo_sqlite_documented]) (simp add: record_ok_def text_ok_def)

text \<open>After an account was created, a look-up of its username on any thread, after any other calls,
  yields that account or none (where the database fails), never another salt or verifier.\<close>

theorem created_account_is_found:
  assumes "sqlite_documented Q rows" and "record_ok a"
    and "repo_create Q now th a r = (Inr True, r1)"
    and "\<forall>tc \<in> set tcs. cmd_fits (snd tc)"
    and "run_accounts (sqlite_account_repository Q now) tcs r1 = (xs, r2)"
    and "repo_find Q th' (ac_username a) r2 = (Inr (Some b), r3)"
  shows "b = a"
  using sqlite_accounts.find_after_create [OF assms(1,2) _ assms(4,5)] assms(3,6)
  by (simp add: sqlite_account_repository_def)

theorem created_account_is_found_witness:
  "\<exists>r1 r3. repo_create demo_sqlite 0 1 \<lparr>ac_username = ''ann'', ac_salt = [1], ac_verifier = [2]\<rparr>
     \<lparr>db_path = [], rp_db = ([], False), rp_open = {}\<rparr> = (Inr True, r1) \<and>
   repo_find demo_sqlite 2 ''ann'' r1 =
     (Inr (Some \<lparr>ac_username = ''ann'', ac_salt = [1], ac_verifier = [2]\<rparr>), r3)"
proof -
  let ?a = "\<lparr>ac_username = ''ann'', ac_salt = [1], ac_verifier = [2]\<rparr>"
  have ok: "record_ok ?a" by (simp add: record_ok_def text_ok_def)
  obtain r1 where c: "repo_create demo_sqlite 0 1 ?a \<lparr>db_path = [], rp_db = ([], False), rp_open = {}\<rparr> = (Inr True, r1)"
    by (simp add: repo_create_def connection_def repo_open_def repo_exec_def demo_sqlite_simps)
  then obtain b r3 where f: "repo_find demo_sqlite 2 (ac_username ?a) r1 = (Inr (Some b), r3)"
    by (auto simp: repo_create_def repo_find_def connection_def repo_open_def repo_exec_def demo_sqlite_simps)
  have "b = ?a"
    by (rule created_account_is_found [OF demo_sqlite_documented ok c _ _ f, where tcs = "[]"]) simp_all
  with c f show ?thesis by auto
qed

text \<open>C31: Where the database is available, a look-up answers exactly what the table holds, and a
  creation answers whether the username had no row: if so it writes the row of the account, which a
  look-up on any thread then finds, and otherwise the table stays as it was.\<close>

theorem available_accounts_exact:
  assumes "repo_up Q rows up r" and "record_ok a"
  shows "fst (repo_find Q th (ac_username a) r) =
      Inr (map_option (\<lambda>(s, v). \<lparr>ac_username = ac_username a, ac_salt = s, ac_verifier = v\<rparr>)
        (repo_rows rows r (ac_username a))) \<and>
    (\<exists>r1. repo_create Q now th a r = (Inr (repo_rows rows r (ac_username a) = None), r1) \<and>
      repo_rows rows r1 =
        (if repo_rows rows r (ac_username a) = None
         then (repo_rows rows r)(ac_username a \<mapsto> (ac_salt a, ac_verifier a)) else repo_rows rows r) \<and>
      fst (repo_find Q th' (ac_username a) r1) =
        Inr (case repo_rows rows r (ac_username a) of None \<Rightarrow> Some a
             | Some (s, v) \<Rightarrow> Some \<lparr>ac_username = ac_username a, ac_salt = s, ac_verifier = v\<rparr>))"
proof -
  have u: "text_ok (ac_username a)" using assms(2) by (simp add: record_ok_def)
  note find = sqlite_available.find_exact [where now = now, unfolded sqlite_account_repository_def,
    simplified, OF _ u]
  obtain r1 where r1: "repo_create Q now th a r = (Inr (repo_rows rows r (ac_username a) = None), r1)"
      "repo_up Q rows up r1"
      "repo_rows rows r1 = (if repo_rows rows r (ac_username a) = None
         then (repo_rows rows r)(ac_username a \<mapsto> row_of a) else repo_rows rows r)"
    using sqlite_available.create_exact [OF assms, of now th] by (auto simp: sqlite_account_repository_def)
  then show ?thesis
    using find [OF assms(1), of th] find [OF r1(2), of th'] by (auto simp: row_of_def split: option.split)
qed

theorem available_accounts_exact_witness:
  "\<exists>r1. repo_create demo_sqlite 5 0 \<lparr>ac_username = ''eve'', ac_salt = [1], ac_verifier = [2]\<rparr>
     \<lparr>db_path = [], rp_db = ([(''ann'', [3], [4])], False), rp_open = {}\<rparr> = (Inr True, r1) \<and>
   fst (repo_find demo_sqlite 1 ''eve'' r1) =
     Inr (Some \<lparr>ac_username = ''eve'', ac_salt = [1], ac_verifier = [2]\<rparr>) \<and>
   fst (repo_create demo_sqlite 5 0 \<lparr>ac_username = ''ann'', ac_salt = [1], ac_verifier = [2]\<rparr>
     \<lparr>db_path = [], rp_db = ([(''ann'', [3], [4])], False), rp_open = {}\<rparr>) = Inr False"
proof -
  let ?a = "\<lparr>ac_username = ''eve'', ac_salt = [1], ac_verifier = [2]\<rparr>"
  let ?b = "\<lparr>ac_username = ''ann'', ac_salt = [1], ac_verifier = [2]\<rparr>"
  let ?r = "\<lparr>db_path = [], rp_db = ([(''ann'', [3], [4])], False), rp_open = {}\<rparr>"
  have up: "repo_up demo_sqlite demo_rows demo_up ?r" and ok: "record_ok ?a" "record_ok ?b"
    by (simp_all add: repo_up_def demo_sqlite_documented demo_sqlite_available demo_up_def
        record_ok_def text_ok_def)
  from available_accounts_exact [OF up ok(1), of 0 5 1] available_accounts_exact [OF up ok(2), of 0 5 1]
  show ?thesis by (auto simp: repo_rows_def demo_rows_def)
qed

text \<open>C32: The registration tool, when it exits with 0, has written one row, for a username that had
  none, with the salt and the verifier of the password, and nothing else of the table changed.\<close>

theorem create_account_writes_registration:
  assumes "sqlite_documented Q rows" and "bn_documented L"
    and "text_ok user" and "length salt = 16"
    and "create_account E L Q (Some salt) now [path, user, pw] db = (0, db')"
  shows "\<exists>reg. compute_verifier_with_salt E L user pw salt = Inr reg \<and> rows db user = None \<and>
    rows db' = (rows db)(user \<mapsto> (reg_salt reg, reg_verifier reg))"
  using create_account_core [OF assms] .

theorem create_account_writes_registration_witness:
  "\<exists>db'. create_account demo_openssl demo_bn demo_sqlite (Some demo_salt) 0 [''a.db'', ''ann'', ''pw''] ([], False) =
     (0, db') \<and> demo_rows db' ''ann'' = Some (reg_salt demo_reg, reg_verifier demo_reg)"
proof -
  obtain db' where s: "create_account demo_openssl demo_bn demo_sqlite (Some demo_salt) 0
      [''a.db'', ''ann'', ''pw''] ([], False) = (0, db')"
    using demo_reg_is demo_salt_length
    by (simp add: create_account_def new_repo_def connection_def repo_open_def repo_exec_def repo_create_def
        compute_verifier_def random_bytes_def demo_sqlite_simps del: append.simps)
  from create_account_writes_registration [OF demo_sqlite_documented demo_bn_documented _ demo_salt_length s]
  have "demo_rows db' = (demo_rows ([], False))(''ann'' \<mapsto> (reg_salt demo_reg, reg_verifier demo_reg))"
    by (auto simp: text_ok_def demo_salt_def [symmetric] demo_reg_is)
  with s show ?thesis by simp
qed

section \<open>The server\<close>

text \<open>C33: In every reachable state the shared counter is the number of registered sessions plus those
  being discounted, so it is never below the number of sessions, and admission keeps it within the
  maximum of the role plus one for each other thread (on one thread, as for Master and the internal
  server, within the maximum itself).\<close>

theorem admission_bound:
  assumes "server_reachable role n s"
  shows "active_connections s = total counted n s \<and>
    total (\<lambda>w. card (registry w)) n s \<le> active_connections s \<and>
    active_connections s \<le> max_connections role + (n - 1)"
proof -
  have inv: "server_inv role n s" using server_inv_reachable [OF assms] .
  moreover have "total (\<lambda>w. card (registry w)) n s \<le> total counted n s"
    unfolding total_def by (rule sum_mono) (simp add: counted_def)
  ultimately show ?thesis by (simp add: server_inv_def)
qed

theorem admission_bound_witness:
  "\<exists>s. server_reachable Master 1 s \<and> registry (workers s 0) = {7} \<and> active_connections s = 1 \<and>
     active_connections s \<le> 64"
  using admission_bound [OF demo_session_reachable [of Master]] demo_session_reachable [of Master]
  by (intro exI [of _ demo_session_server]) (simp add: demo_session_server_def)

text \<open>C14: The population that a World announces, which clients are shown, is the number of its
  connections at that beat, and stays within the bound of admission.\<close>

theorem announced_population_exact:
  assumes "server_reachable World n s" and "n < 2 ^ 31"
    and "length (a_advertise_host a) < 65536" and "length (a_world_name a) < 65536"
  shows "\<exists>i. decode_world e (world_announcement e a (active_connections s)) = Some i \<and>
    wi_host i = a_advertise_host a \<and> wi_name i = a_world_name a \<and>
    unat (wi_population i) = active_connections s \<and> unat (wi_population i) \<le> max_connections World + (n - 1)"
proof -
  have bound: "active_connections s \<le> max_connections World + (n - 1)"
    using server_inv_reachable [OF assms(1)] by (simp add: server_inv_def)
  then have "active_connections s < 2 ^ 32" using assms(2) by simp
  then have "unat (word_of_nat (active_connections s) :: u32) = active_connections s"
    by (simp add: unat_of_nat)
  with bound assms(3,4) show ?thesis
    by (simp add: world_announcement_def world_info_fits_def)
qed

theorem announced_population_exact_witness:
  "\<exists>i. decode_world Little_Endian (world_announcement Little_Endian default_args (active_connections demo_session_server)) =
     Some i \<and> unat (wi_population i) = 1 \<and> wi_host i = ''127.0.0.1''"
  using announced_population_exact [OF demo_session_reachable, of default_args Little_Endian]
  by (auto simp: default_args_def demo_session_server_def)

text \<open>C34: A thread that runs the posted close of a stop while no completed accept waits in its queue
  closes every session it has, and whatever the threads do afterwards it never opens one again.\<close>

theorem stop_is_final:
  assumes "server_reachable role n s" and "i < n"
    and "w_pc (workers s i) = Idle" and "\<not> accept_ready (workers s i)"
    and "(server_step role n)\<^sup>*\<^sup>* (set_worker i (stop_worker (workers s i)) s) s'"
  shows "open_sessions (workers s' i) = {} \<and> \<not> acceptor_open (workers s' i) \<and>
    \<not> accept_ready (workers s' i)"
proof -
  have "worker_ok (workers s i)"
    using server_inv_reachable [OF assms(1)] assms(2) by (simp add: server_inv_def)
  then have "quiesced (workers (set_worker i (stop_worker (workers s i)) s) i)"
    using stop_quiesces assms(3,4) by simp
  from quiesced_for_ever [OF assms(5) this] show ?thesis by (simp add: quiesced_def)
qed

theorem stop_is_final_witness:
  "open_sessions (workers demo_session_server 0) = {7} \<and>
   (\<exists>s'. (server_step Login 1)\<^sup>*\<^sup>* (set_worker 0 (stop_worker (workers demo_session_server 0)) demo_session_server) s' \<and>
     registry (workers s' 0) = {7} \<and> open_sessions (workers s' 0) = {} \<and> \<not> acceptor_open (workers s' 0))"
proof -
  let ?s = "set_worker 0 (stop_worker (workers demo_session_server 0)) demo_session_server"
  let ?w = "(workers ?s 0)\<lparr>accept_loop_runs := False\<rparr>"
  have w: "workers demo_session_server 0 = (new_worker True)\<lparr>registry := {7}, open_sessions := {7}\<rparr>"
    by (simp add: demo_session_server_def)
  have "server_step Login 1 ?s (set_worker 0 ?w ?s)"
    by (rule server_step.accept_fails) (simp_all add: w stop_worker_def registry_close_all_def new_worker_def)
  then have run: "(server_step Login 1)\<^sup>*\<^sup>* ?s (set_worker 0 ?w ?s)" by blast
  have "registry (workers (set_worker 0 ?w ?s) 0) = {7}"
    by (simp add: w stop_worker_def registry_close_all_def)
  moreover have "open_sessions (workers demo_session_server 0) = {7}" by (simp add: w)
  moreover have "open_sessions (workers (set_worker 0 ?w ?s) 0) = {} \<and> \<not> acceptor_open (workers (set_worker 0 ?w ?s) 0)"
    using stop_is_final [OF demo_session_reachable _ _ _ run] by (simp add: w new_worker_def)
  ultimately show ?thesis using run by blast
qed

text \<open>C35: \<open>stop\<close> comes to rest. Once the posted closes have run and no completed accept is left, in
  whatever way the threads go on they take at most as many steps that change more than which sessions
  wait for the store as there is work left (two for each session and one for each loop). Where no such
  step is left, the sessions that remain are exactly those whose handler waits for the store, they are
  what is counted, and every thread without one has returned.\<close>

theorem stop_terminates:
  assumes "server_reachable role n s" and "\<And>i. i < n \<Longrightarrow> quiesced (workers s i)"
    and "stop_run role n s k s'"
  shows "k + total work_left n s' \<le> total work_left n s \<and>
    ((\<exists>s''. busy_step role n s' s'') \<or>
     (\<forall>i < n. registry (workers s' i) = waiting (workers s' i) \<and>
        (waiting (workers s' i) = {} \<longrightarrow> thread_done (workers s' i))) \<and>
     active_connections s' = total (\<lambda>w. card (waiting w)) n s')"
proof -
  from stop_terminates_core [OF server_inv_reachable [OF assms(1)] assms(2,3)]
  show ?thesis using none_waiting_done unfolding only_waiting_def by blast
qed

theorem stop_terminates_witness:
  "\<exists>s'. server_reachable Login 1 demo_stopped \<and> registry (workers demo_stopped 0) = {7} \<and>
     stop_run Login 1 demo_stopped 3 s' \<and> total work_left 1 demo_stopped = 3 \<and> total work_left 1 s' = 0"
proof -
  obtain s' where s': "server_reachable Login 1 demo_stopped" "quiesced (workers demo_stopped 0)"
      "stop_run Login 1 demo_stopped 3 s'" "total work_left 1 demo_stopped = 3"
    by (rule demo_stopped_run)
  have "quiesced (workers demo_stopped i)" if "i < 1" for i using that s'(2) by simp
  from stop_terminates [OF s'(1) this s'(3)] have "total work_left 1 s' = 0" using s'(4) by simp
  moreover have "registry (workers demo_stopped 0) = {7}"
    by (simp add: demo_stopped_def demo_session_server_def stop_worker_def registry_close_all_def)
  ultimately show ?thesis using s' by blast
qed

text \<open>\<open>wait_drained\<close> says the connections are gone only if it read a zero, and gives up only if it
  read a count while the deadline had passed.\<close>

theorem wait_drained_sound:
  "(wait_drained deadline obs = Drained \<longrightarrow> (\<exists>now w. (0, now, w) \<in> set obs)) \<and>
   (wait_drained deadline obs = Timed_Out \<longrightarrow> (\<exists>(k, now, w) \<in> set obs. 0 < k \<and> deadline \<le> now))"
  using wait_drained_Drained wait_drained_Timed_Out by blast

theorem wait_drained_sound_witness:
  "wait_drained 30 [(2, 0, True), (1, 5, True), (0, 7, False)] = Drained \<and>
   (\<exists>now w. (0 :: nat, now :: int, w) \<in> set [(2, 0, True), (1, 5, True), (0, 7, False)])"
proof -
  have d: "wait_drained 30 [(2, 0, True), (1, 5, True), (0, 7, False)] = Drained" by simp
  with wait_drained_sound [of 30 "[(2, 0, True), (1, 5, True), (0, 7, False)]"] show ?thesis by blast
qed

section \<open>The processes\<close>

text \<open>C37: Each role starts its own services and no others, on the ports and addresses of its arguments,
  and every thread of each serves: Master its clients and the store, the latter on the loopback
  address only, Login its clients, World its TCP and its UDP clients. The platform has
  \<open>SO_REUSEPORT\<close>, the addresses can be bound, and sockets already on these ports share them.\<close>

theorem process_services:
  assumes "sharing_os (pf_api F) bindable bound shares" and "pf_reuseport F"
    and "ports_share bound shares {3724, a_store_port a, 3726, 8085, 8086} w"
    and "parse_args argv = Inr (Some a)"
    and "\<forall>p \<in> {3724, 3726, 8085, 8086}. bindable (a_bind_address a) p" and "bindable ''127.0.0.1'' (a_store_port a)"
    and "make_address (pf_api F) (a_bind_address a) = Inr ()" and "make_address (pf_api F) ''127.0.0.1'' = Inr ()"
    and "load_hmac_secret env = Inr (Some key)" and "new_repo Q 0 (a_accounts_db a) db = (Inr (), r)"
  shows "\<exists>p w'. main_start e F Q db argv env w = (Serving p, w') \<and> pr_key p = key \<and>
    map (endpoint \<circ> fst) (pr_services p) =
      (if a_role a = ''master'' then [(By_Master, Tcp_Protocol, 3724, a_bind_address a),
                                      (By_Store, Tcp_Protocol, a_store_port a, ''127.0.0.1'')]
       else if a_role a = ''login'' then [(By_Login, Tcp_Protocol, 3726, a_bind_address a)]
       else [(By_World, Tcp_Protocol, 8085, a_bind_address a), (By_World_Udp, Udp_Protocol, 8086, a_bind_address a)]) \<and>
    (\<forall>(sc, ts) \<in> set (pr_services p). length ts = thread_count (sc_role sc) (pf_cores F) \<and>
       (\<forall>t \<in> set ts. serves (sc_protocol sc) (snd t)))"
proof -
  have "ports_share bound shares (role_ports a) w"
    using assms(3) by (simp add: role_ports_def kMasterPort_def kLoginPort_def kTcpPort_def kUdpPort_def)
  moreover have "bindable addr p" if "(sh, pr, p, addr) \<in> set (role_endpoints a)" for sh pr p addr
    using that assms(5,6)
    by (auto simp: role_endpoints_def kMasterPort_def kLoginPort_def kTcpPort_def kUdpPort_def split: if_splits)
  ultimately show ?thesis
    using main_start_core [OF assms(1,2) _ assms(4) _ assms(7-10), where e = e]
    unfolding role_endpoints_def service_up_def kMasterPort_def kLoginPort_def kTcpPort_def kUdpPort_def by blast
qed

theorem process_services_witness:
  "\<exists>p w'. main_start Little_Endian demo_platform demo_sqlite ([], False) [''--role=master''] demo_env
       ([], \<lambda>_. False) = (Serving p, w') \<and>
     map (endpoint \<circ> fst) (pr_services p) =
       [(By_Master, Tcp_Protocol, 3724, ''0.0.0.0''), (By_Store, Tcp_Protocol, 3725, ''127.0.0.1'')]"
proof -
  obtain r where "new_repo demo_sqlite 0 ''accounts.db'' ([], False) = (Inr (), r)" using demo_main(4) by blast
  with process_services [of demo_platform "\<lambda>_ _. True" "\<lambda>(b, f). set b" snd
      "default_args\<lparr>a_role := ''master''\<rparr>" "([], \<lambda>_. False)" "[''--role=master'']" demo_env "replicate 32 7" demo_sqlite "([], False)" r Little_Endian]
  show ?thesis using demo_sharing demo_no_sockets demo_main by (auto simp: default_args_def)
qed

text \<open>C38: In every state a process can reach, the servers whose \<open>stop()\<close> has returned are drained, and
  a process that has returned has drained all of them: their threads have returned, no connection is
  counted, and no session waits for the store.\<close>

theorem process_returns_drained:
  assumes "main_start e F Q db argv env w = (Serving p, w')" and "process_reachable p r"
    and "rn_phase r = Returned"
  shows "rn_waiting r = {} \<and>
    (\<forall>k < length (pr_services p). threads_done (length (snd (pr_services p ! k))) (rn_servers r k) \<and>
       rn_receiving r k = {} \<and> active_connections (rn_servers r k) = 0)"
  using returned_core returned_none_waiting process_inv_reachable [OF assms(1,2)] assms(3) by blast

theorem process_returns_drained_witness:
  "\<exists>p w' r. main_start Little_Endian demo_platform demo_sqlite ([], False) [''--role=master''] demo_env
       ([], \<lambda>_. False) = (Serving p, w') \<and> process_reachable p r \<and> rn_phase r = Returned \<and>
     pr_services p \<noteq> [] \<and> active_connections (rn_servers r 0) = 0"
proof -
  obtain p w' r where run: "main_start Little_Endian demo_platform demo_sqlite ([], False) [''--role=master''] demo_env
       ([], \<lambda>_. False) = (Serving p, w')" "process_reachable p r" "rn_phase r = Returned" "pr_services p \<noteq> []"
    by (rule demo_master_returned)
  with process_returns_drained [OF run(1-3)] show ?thesis by blast
qed

text \<open>C39: Master, whose handlers never wait for the orchestrator, can always return once a signal has
  come: from every state it can reach after it, some steps of its threads end in the return.\<close>

theorem master_can_return:
  assumes "main_start e F Q db argv env w = (Serving p, w')" and "parse_args argv = Inr (Some a)"
    and "a_role a = ''master''" and "process_reachable p r" and "rn_phase r \<noteq> Handling"
  shows "\<exists>r'. (process_step (pr_services p))\<^sup>*\<^sup>* r r' \<and> rn_phase r' = Returned"
  using master_returns_core [OF assms] .

theorem master_can_return_witness:
  "\<exists>p w' r r'. main_start Little_Endian demo_platform demo_sqlite ([], False) [''--role=master''] demo_env
       ([], \<lambda>_. False) = (Serving p, w') \<and> process_reachable p r \<and> rn_phase r = Joining 0 \<and>
     (process_step (pr_services p))\<^sup>*\<^sup>* r r' \<and> rn_phase r' = Returned"
proof -
  obtain p w' r where run: "main_start Little_Endian demo_platform demo_sqlite ([], False) [''--role=master''] demo_env
       ([], \<lambda>_. False) = (Serving p, w')" "process_reachable p r" "rn_phase r = Joining 0"
    by (rule demo_master_joining)
  with master_can_return [OF run(1) demo_main(2) _ run(2)] show ?thesis by (auto simp: default_args_def)
qed



text \<open>C13: After a signal a process of any role can still come to its return exactly when none of its
  sessions waits for the store at that moment: without one, some steps of its threads lead there, and
  with one, none do.\<close>

theorem return_exactly_unless_waiting:
  assumes "main_start e F Q db argv env w = (Serving p, w')" and "process_reachable p r"
    and "rn_phase r \<noteq> Handling"
  shows "(\<exists>r'. (process_step (pr_services p))\<^sup>*\<^sup>* r r' \<and> rn_phase r' = Returned) \<longleftrightarrow> rn_waiting r = {}"
  using can_return_iff [OF assms] .

theorem return_exactly_unless_waiting_witness:
  "(\<exists>p w' r. main_start Little_Endian demo_platform demo_sqlite ([], False) demo_argv demo_env
       ([], \<lambda>_. False) = (Serving p, w') \<and> process_reachable p r \<and> rn_waiting r = {(0, 0, 7)} \<and>
     (\<nexists>r'. (process_step (pr_services p))\<^sup>*\<^sup>* r r' \<and> rn_phase r' = Returned)) \<and>
   (\<exists>p w' r. main_start Little_Endian demo_platform demo_sqlite ([], False) [''--role=master''] demo_env
       ([], \<lambda>_. False) = (Serving p, w') \<and> process_reachable p r \<and> rn_phase r = Joining 0 \<and> rn_waiting r = {})"
proof
  obtain p w' r where run: "main_start Little_Endian demo_platform demo_sqlite ([], False) demo_argv demo_env
      ([], \<lambda>_. False) = (Serving p, w')" "process_reachable p r" "rn_phase r = Joining 0" "rn_waiting r = {(0, 0, 7)}"
    by (rule demo_waiting)
  have "rn_phase r \<noteq> Handling" using run(3) by simp
  from return_exactly_unless_waiting [OF run(1,2) this] run
  show "\<exists>p w' r. main_start Little_Endian demo_platform demo_sqlite ([], False) demo_argv demo_env
       ([], \<lambda>_. False) = (Serving p, w') \<and> process_reachable p r \<and> rn_waiting r = {(0, 0, 7)} \<and>
     (\<nexists>r'. (process_step (pr_services p))\<^sup>*\<^sup>* r r' \<and> rn_phase r' = Returned)"
    by (metis insert_not_empty)
next
  obtain p w' r where run: "main_start Little_Endian demo_platform demo_sqlite ([], False) [''--role=master''] demo_env
      ([], \<lambda>_. False) = (Serving p, w')" "process_reachable p r" "rn_phase r = Joining 0"
    by (rule demo_master_joining)
  have "a_role (default_args\<lparr>a_role := ''master''\<rparr>) = ''master''" "rn_phase r \<noteq> Handling"
    using run(3) by simp_all
  from master_returns_core [OF run(1) demo_main(2) this(1) run(2) this(2)]
    return_exactly_unless_waiting [OF run(1,2) this(2)]
  have "rn_waiting r = {}" by blast
  with run show "\<exists>p w' r. main_start Little_Endian demo_platform demo_sqlite ([], False) [''--role=master''] demo_env
       ([], \<lambda>_. False) = (Serving p, w') \<and> process_reachable p r \<and> rn_phase r = Joining 0 \<and> rn_waiting r = {}"
    by blast
qed

section \<open>Start-up\<close>

text \<open>The secret that \<open>openssl rand -hex 32\<close> prints for a key is read back as that key.\<close>

theorem secret_roundtrip:
  assumes "length key = 32"
  shows "load_hmac_secret (Some (to_hex key)) = Inr (Some key)"
  using load_secret_core [OF assms] .

theorem secret_roundtrip_witness:
  "load_hmac_secret (Some (to_hex (replicate 31 0 @ [255]))) = Inr (Some (replicate 31 0 @ [255]))"
  by (rule secret_roundtrip) simp

text \<open>The arguments written as a full command line are read back, for each of the three roles.\<close>

theorem arguments_roundtrip:
  assumes "a_role a \<in> {''master'', ''login'', ''world''}"
  shows "parse_args (argv_of a) = Inr (Some a)"
  using parse_args_core [OF assms] .

theorem arguments_roundtrip_witness:
  "parse_args (argv_of (default_args\<lparr>a_role := ''world'', a_store_port := 4000\<rparr>)) =
     Inr (Some (default_args\<lparr>a_role := ''world'', a_store_port := 4000\<rparr>))"
  by (rule arguments_roundtrip) simp

text \<open>A generated token is the hexadecimal form of 16 random bytes, two digits for each, so
  different draws give different tokens, and no token is a key of the registry.\<close>

theorem tokens_distinct:
  assumes "generate_token_hex (Some rnd) = Inr t" and "generate_token_hex (Some rnd') = Inr t'"
    and "length rnd = 16" and "length rnd' = 16"
  shows "(t = t' \<longleftrightarrow> rnd = rnd') \<and> length t = 32 \<and>
    set t \<subseteq> set digits \<and> \<not> key_has_prefix kLoginPrefix t \<and> \<not> key_has_prefix kWorldPrefix t"
  using assms set_to_hex token_not_registry_key
  by (auto simp: generate_token_hex_Inr to_hex_inject length_to_hex)

theorem tokens_distinct_witness:
  "\<exists>t t'. generate_token_hex (Some (replicate 16 2)) = Inr t \<and>
     generate_token_hex (Some (replicate 16 3)) = Inr t' \<and> t \<noteq> t'"
proof -
  obtain t t' where "generate_token_hex (Some (replicate 16 2)) = Inr t"
      "generate_token_hex (Some (replicate 16 3)) = Inr t'"
    by (simp add: generate_token_hex_def random_bytes_def)
  with tokens_distinct [OF this] show ?thesis by auto
qed

end
